(* ===== verification/Prelude.thy ===== *)
theory Prelude
  imports Main "HOL-Library.Word" "HOL-Library.Monad_Syntax"
begin

text \<open>
  Shared vocabulary of the development: the C types of the 32-bit big-endian PowerPC target,
  the error numbers of \<^verbatim>\<open>src/library/include/errno.h\<close>, the collections of rewrite rules the
  component theories fill, and generic lemmas on lists and options.

  \<^item> A C \<open>char\<close> is unsigned on this target, so every byte is an \<open>8 word\<close>.
  \<^item> Addresses and values of type \<open>size_t\<close> are natural numbers; where the source converts such a
    value to a signed type, the conversion is written out (\<open>int_of_size\<close>).
  \<^item> A computation that dereferences an invalid address has no result: it is \<open>None\<close>.
\<close>

type_synonym byte = "8 word"
type_synonym addr = nat
type_synonym size_t = nat
type_synonym u16 = "16 word"
type_synonym u32 = "32 word"
type_synonym u64 = "64 word"

named_theorems mem_simps \<open>reading and writing memory\<close>
named_theorems str_simps \<open>unfolding the loops of the string routines on strings\<close>

abbreviation (input) NULL :: addr where "NULL \<equiv> 0"

definition ENOMEM :: int where "ENOMEM = 12"
definition EFAULT :: int where "EFAULT = 14"
definition EINVAL :: int where "EINVAL = 22"
definition EDOM :: int where "EDOM = 33"
definition ERANGE :: int where "ERANGE = 34"
definition EOVERFLOW :: int where "EOVERFLOW = 84"

lemmas errno_defs = ENOMEM_def EFAULT_def EINVAL_def EDOM_def ERANGE_def EOVERFLOW_def

text \<open>The conversion \<open>(int) n\<close> of a \<open>size_t\<close>, and the C truncating division on \<open>int\<close>.\<close>

definition int_of_size :: "size_t \<Rightarrow> int" where
  "int_of_size n = (let k = int n mod 2 ^ 32 in if k < 2 ^ 31 then k else k - 2 ^ 32)"

lemma int_of_size_small: "n < 2 ^ 31 \<Longrightarrow> int_of_size n = int n"
proof -
  assume n: "n < 2 ^ 31"
  then have "int n mod 2 ^ 32 = int n" by (intro mod_pos_pos_trivial) simp_all
  with n show ?thesis by (simp add: int_of_size_def)
qed

definition cdiv :: "int \<Rightarrow> int \<Rightarrow> int" where
  "cdiv a b = sgn a * sgn b * (\<bar>a\<bar> div \<bar>b\<bar>)"

definition cmod :: "int \<Rightarrow> int \<Rightarrow> int" where
  "cmod a b = a - b * cdiv a b"

lemma cdiv_nonneg: "0 \<le> a \<Longrightarrow> 0 < b \<Longrightarrow> cdiv a b = a div b"
  by (cases "a = 0") (simp_all add: cdiv_def)

lemma cmod_nonneg: "0 \<le> a \<Longrightarrow> 0 < b \<Longrightarrow> cmod a b = a mod b"
  by (simp add: cmod_def cdiv_nonneg minus_mult_div_eq_mod)

lemma cdiv_neg: "a < 0 \<Longrightarrow> 0 < b \<Longrightarrow> cdiv a b = - ((- a) div b)"
  by (simp add: cdiv_def)

lemma cmod_neg: "a < 0 \<Longrightarrow> 0 < b \<Longrightarrow> cmod a b = - ((- a) mod b)"
  by (simp add: cmod_def cdiv_neg minus_mult_div_eq_mod [symmetric])

text \<open>Reading a constant table: an index outside it has no value.\<close>

definition at :: "'a list \<Rightarrow> nat \<Rightarrow> 'a option" where
  "at xs i = (if i < length xs then Some (xs ! i) else None)"

definition at_int :: "'a list \<Rightarrow> int \<Rightarrow> 'a option" where
  "at_int xs i = (if 0 \<le> i then at xs (nat i) else None)"

lemma bind_Some_eq: "Option.bind x f = Some y \<longleftrightarrow> (\<exists>z. x = Some z \<and> f z = Some y)"
  by (cases x) auto

lemma takeWhile_neq_notin: "c \<notin> set xs \<Longrightarrow> takeWhile (\<lambda>b. b \<noteq> c) xs = xs"
  by (induction xs) auto

lemma takeWhile_neq_append: "c \<notin> set xs \<Longrightarrow> takeWhile (\<lambda>b. b \<noteq> c) (xs @ c # ys) = xs"
  by (induction xs) auto

lemma replicate_2: "replicate 2 x = [x, x]"
  by (simp add: numeral_2_eq_2)

lemma length_takeWhile_less_iff: "length (takeWhile P xs) < length xs \<longleftrightarrow> (\<exists>x\<in>set xs. \<not> P x)"
  by (induction xs) auto

end
