(* ===== verification/CMem.thy ===== *)
theory CMem
  imports Prelude
begin

text \<open>
  The memory the routines of \<^verbatim>\<open>src/library\<close> work on, and the part of the per-process state
  \<open>struct _clib4\<close> they change on an error.

  Memory is one flat list of bytes. Addresses below 4 (the word at NULL) and addresses past the end
  are not mapped: an access there is a fault, \<open>None\<close>. Memory comes in whole words
  (\<open>ram_ok\<close>), as every real memory map does; the word-at-a-time routines rely on it, because an
  aligned word that holds one mapped byte is then mapped as a whole.
\<close>

section \<open>Memory\<close>

record clib =
  ram :: "byte list"
  errno :: int

definition set_errno :: "int \<Rightarrow> clib \<Rightarrow> clib" where
  "set_errno e st = st\<lparr>errno := e\<rparr>"

definition mapped :: "byte list \<Rightarrow> addr \<Rightarrow> bool" where
  "mapped m a \<longleftrightarrow> 4 \<le> a \<and> a < length m"

definition load :: "byte list \<Rightarrow> addr \<Rightarrow> byte option" where
  "load m a = (if mapped m a then Some (m ! a) else None)"

definition store :: "byte list \<Rightarrow> addr \<Rightarrow> byte \<Rightarrow> byte list option" where
  "store m a v = (if mapped m a then Some (m[a := v]) else None)"

definition ram_ok :: "byte list \<Rightarrow> bool" where
  "ram_ok m \<longleftrightarrow> length m mod 4 = 0"

lemma load_Some_mapped: "load m a = Some b \<longleftrightarrow> mapped m a \<and> m ! a = b"
  by (simp add: load_def)

lemma load_lt: "load m a = Some b \<Longrightarrow> a < length m"
  by (simp add: load_Some_mapped mapped_def)

lemma load_pos: "load m a = Some b \<Longrightarrow> 4 \<le> a"
  by (simp add: load_Some_mapped mapped_def)

lemma store_length [mem_simps]: "store m a v = Some m' \<Longrightarrow> length m' = length m"
  by (auto simp: store_def split: if_splits)

lemma mapped_store [mem_simps]: "store m a v = Some m' \<Longrightarrow> mapped m' b \<longleftrightarrow> mapped m b"
  by (simp add: mapped_def store_length)

lemma store_mapped: "mapped m a \<Longrightarrow> store m a v = Some (m[a := v])"
  by (simp add: store_def)

lemma mapped_update [simp]: "mapped (m[a := v]) b \<longleftrightarrow> mapped m b"
  by (simp add: mapped_def)

lemma load_update: "load (m[a := v]) b = (if a = b \<and> mapped m b then Some v else load m b)"
  by (auto simp: load_def mapped_def)

lemma ram_ok_update [simp]: "ram_ok (m[a := v]) = ram_ok m"
  by (simp add: ram_ok_def)

text \<open>An aligned word with one mapped byte is mapped as a whole.\<close>

lemma word_mapped:
  assumes "ram_ok m" "mapped m a" "k < 4"
  shows "mapped m (a - a mod 4 + k)"
proof -
  obtain l where l: "length m = 4 * l"
    using assms(1) by (auto simp: ram_ok_def)
  define q where "q = a div 4"
  have a: "a = 4 * q + a mod 4" "a mod 4 < 4"
    by (simp_all add: q_def)
  with assms(2) l have "1 \<le> q" "q < l"
    by (auto simp: mapped_def)
  moreover have "a - a mod 4 = 4 * q"
    using a(1) by simp
  ultimately show ?thesis
    using assms(3) l by (simp add: mapped_def)
qed

section \<open>Strings and regions\<close>

text \<open>\<open>cstr m a xs\<close>: a NUL-terminated string with the characters \<open>xs\<close> is stored at \<open>a\<close>.\<close>

primrec cstr :: "byte list \<Rightarrow> addr \<Rightarrow> byte list \<Rightarrow> bool" where
  "cstr m a [] \<longleftrightarrow> load m a = Some 0"
| "cstr m a (x # xs) \<longleftrightarrow> load m a = Some x \<and> x \<noteq> 0 \<and> cstr m (Suc a) xs"

text \<open>\<open>region m a n\<close>: the \<open>n\<close> bytes from \<open>a\<close> on are mapped; \<open>slice m a n\<close> are their values.\<close>

definition region :: "byte list \<Rightarrow> addr \<Rightarrow> size_t \<Rightarrow> bool" where
  "region m a n \<longleftrightarrow> n = 0 \<or> 4 \<le> a \<and> a + n \<le> length m"

definition slice :: "byte list \<Rightarrow> addr \<Rightarrow> size_t \<Rightarrow> byte list" where
  "slice m a n = take n (drop a m)"

lemma region_0 [simp]: "region m a 0"
  by (simp add: region_def)

lemma slice_0 [simp]: "slice m a 0 = []"
  by (simp add: slice_def)

lemma region_Suc: "region m a (Suc n) \<longleftrightarrow> mapped m a \<and> region m (Suc a) n"
  by (auto simp: region_def mapped_def)

lemma slice_Suc: "mapped m a \<Longrightarrow> slice m a (Suc n) = m ! a # slice m (Suc a) n"
  by (simp add: slice_def mapped_def Cons_nth_drop_Suc [symmetric])

lemma region_update [simp]: "region (m[a := v]) b n = region m b n"
  by (simp add: region_def)

lemma region_length: "length m' = length m \<Longrightarrow> region m' = region m"
  by (simp add: region_def fun_eq_iff)

lemma length_slice: "region m a n \<Longrightarrow> length (slice m a n) = n"
  by (auto simp: region_def slice_def)

lemma region_mono: "region m a n \<Longrightarrow> k \<le> n \<Longrightarrow> region m a k"
  by (auto simp: region_def)

lemma region_append: "region m a (j + k) \<longleftrightarrow> region m a j \<and> region m (a + j) k"
  by (cases j; cases k) (auto simp: region_def)

lemma slice_append: "slice m a (j + k) = slice m a j @ slice m (a + j) k"
  by (simp add: slice_def take_add add.commute)

lemma cstr_region: "cstr m a xs \<Longrightarrow> region m a (Suc (length xs))"
  by (induction xs arbitrary: a) (simp_all add: load_Some_mapped region_Suc)

lemma cstr_slice: "cstr m a xs \<Longrightarrow> slice m a (Suc (length xs)) = xs @ [0]"
  by (induction xs arbitrary: a) (simp_all add: load_Some_mapped slice_Suc)

lemma cstr_nonzero: "cstr m a xs \<Longrightarrow> 0 \<notin> set xs"
  by (induction xs arbitrary: a) auto

lemma cstr_intro:
  assumes "region m a (Suc (length xs))" "slice m a (Suc (length xs)) = xs @ [0]" "0 \<notin> set xs"
  shows "cstr m a xs"
  using assms by (induction xs arbitrary: a) (auto simp: region_Suc slice_Suc load_Some_mapped)

lemma cstr_iff:
  "cstr m a xs \<longleftrightarrow> region m a (Suc (length xs)) \<and> slice m a (Suc (length xs)) = xs @ [0] \<and> 0 \<notin> set xs"
  using cstr_region cstr_slice cstr_nonzero cstr_intro by metis

lemma cstr_unique: "cstr m a xs \<Longrightarrow> cstr m a ys \<Longrightarrow> xs = ys"
proof (induction xs arbitrary: a ys)
  case Nil
  then show ?case by (cases ys) auto
next
  case (Cons x xs)
  then show ?case by (cases ys) auto
qed

lemma cstr_drop: "cstr m a (xs @ ys) \<Longrightarrow> cstr m (a + length xs) ys"
  by (induction xs arbitrary: a) (simp, fastforce)

lemma cstr_nonnull: "cstr m a xs \<Longrightarrow> 4 \<le> a"
  by (cases xs) (auto dest: load_pos)

section \<open>Writing a run of bytes\<close>

primrec put :: "byte list \<Rightarrow> addr \<Rightarrow> byte list \<Rightarrow> byte list" where
  "put m a [] = m"
| "put m a (x # xs) = put (m[a := x]) (Suc a) xs"

lemma length_put [simp]: "length (put m a xs) = length m"
  by (induction xs arbitrary: m a) auto

lemma mapped_put [simp]: "mapped (put m a xs) b \<longleftrightarrow> mapped m b"
  by (simp add: mapped_def)

lemma region_put [simp]: "region (put m a xs) b n \<longleftrightarrow> region m b n"
  by (simp add: region_def)

lemma ram_ok_put [simp]: "ram_ok (put m a xs) \<longleftrightarrow> ram_ok m"
  by (simp add: ram_ok_def)

lemma nth_put:
  "b < length m \<Longrightarrow> put m a xs ! b = (if a \<le> b \<and> b < a + length xs then xs ! (b - a) else m ! b)"
proof (induction xs arbitrary: m a)
  case (Cons x xs)
  then have "Suc a \<le> b \<Longrightarrow> b - a = Suc (b - Suc a)" by simp
  with Cons show ?case by (auto simp: nth_list_update not_less_eq_eq)
qed auto

lemma put_append: "put m a (xs @ ys) = put (put m a xs) (a + length xs) ys"
  by (induction xs arbitrary: m a) auto

lemma load_put:
  "load (put m a xs) b =
     (if a \<le> b \<and> b < a + length xs \<and> mapped m b then Some (xs ! (b - a)) else load m b)"
  by (auto simp: load_def nth_put mapped_def)

lemma load_put_other: "b < a \<or> a + length xs \<le> b \<Longrightarrow> load (put m a xs) b = load m b"
  by (auto simp: load_put)

lemma cstr_put_other:
  "a + length xs \<le> b \<or> b + length ys < a \<Longrightarrow> cstr (put m a xs) b ys = cstr m b ys"
  by (induction ys arbitrary: b) (auto simp: load_put_other)

lemma slice_put_same: "region m a (length xs) \<Longrightarrow> slice (put m a xs) a (length xs) = xs"
  by (rule nth_equalityI) (auto simp: length_slice region_def slice_def nth_put)

lemma put_commute_other: "a + length xs \<le> b \<Longrightarrow> (put m a xs)[b := v] = put (m[b := v]) a xs"
  by (induction xs arbitrary: m a) (auto simp: list_update_swap)

lemma cstr_put_same:
  assumes "region m a (Suc (length xs))" "0 \<notin> set xs"
  shows "cstr (put m a (xs @ [0])) a xs"
  using assms slice_put_same [of m a "xs @ [0]"] by (intro cstr_intro) simp_all

end
