(* ===== verification/ByteWord.thy ===== *)
theory ByteWord
  imports CMem
begin

text \<open>
  Four bytes seen as one big-endian 32-bit word, and the bit tricks the word-at-a-time routines of
  \<^verbatim>\<open>src/library/string\<close> use to find a zero byte in such a word without looking at its bytes.
  The additions and subtractions of the tricks are computed byte by byte with explicit carries and
  borrows (\<open>be32_add\<close>, \<open>be32_sub\<close>).
\<close>

unbundle bit_operations_syntax

section \<open>Words made of bytes\<close>

definition be32 :: "byte \<Rightarrow> byte \<Rightarrow> byte \<Rightarrow> byte \<Rightarrow> 32 word" where
  "be32 b0 b1 b2 b3 =
     push_bit 24 (ucast b0) OR push_bit 16 (ucast b1) OR push_bit 8 (ucast b2) OR ucast b3"

lemma bit_be32: "bit (be32 b0 b1 b2 b3) n \<longleftrightarrow>
   (if n < 8 then bit b3 n else if n < 16 then bit b2 (n - 8)
    else if n < 24 then bit b1 (n - 16) else n < 32 \<and> bit b0 (n - 24))"
  unfolding be32_def
  by (auto simp: bit_simps dest: bit_imp_le_length)

lemma be32_and: "be32 a0 a1 a2 a3 AND be32 b0 b1 b2 b3 = be32 (a0 AND b0) (a1 AND b1) (a2 AND b2) (a3 AND b3)"
  by (rule bit_word_eqI) (simp add: bit_be32 bit_and_iff)

lemma be32_or: "be32 a0 a1 a2 a3 OR be32 b0 b1 b2 b3 = be32 (a0 OR b0) (a1 OR b1) (a2 OR b2) (a3 OR b3)"
  by (rule bit_word_eqI) (simp add: bit_be32 bit_or_iff)

lemma be32_xor: "be32 a0 a1 a2 a3 XOR be32 b0 b1 b2 b3 = be32 (a0 XOR b0) (a1 XOR b1) (a2 XOR b2) (a3 XOR b3)"
  by (rule bit_word_eqI) (simp add: bit_be32 bit_xor_iff)

lemma be32_not: "NOT (be32 b0 b1 b2 b3) = be32 (NOT b0) (NOT b1) (NOT b2) (NOT b3)"
  by (rule bit_word_eqI) (auto simp: bit_be32 bit_not_iff)

lemma be32_byte0: "ucast (drop_bit 24 (be32 b0 b1 b2 b3)) = b0"
  by (rule bit_word_eqI) (simp add: bit_be32 bit_simps)

lemma be32_byte1: "ucast (drop_bit 16 (be32 b0 b1 b2 b3)) = b1"
  by (rule bit_word_eqI) (simp add: bit_be32 bit_simps)

lemma be32_byte2: "ucast (drop_bit 8 (be32 b0 b1 b2 b3)) = b2"
  by (rule bit_word_eqI) (simp add: bit_be32 bit_simps)

lemma be32_byte3: "ucast (be32 b0 b1 b2 b3) = b3"
  by (rule bit_word_eqI) (simp add: bit_be32 bit_simps)

lemma be32_eq: "be32 a0 a1 a2 a3 = be32 b0 b1 b2 b3 \<longleftrightarrow> a0 = b0 \<and> a1 = b1 \<and> a2 = b2 \<and> a3 = b3"
  by (metis be32_byte0 be32_byte1 be32_byte2 be32_byte3)

lemma be32_of_int: "be32 b0 b1 b2 b3 = word_of_int (uint b0 * 2^24 + uint b1 * 2^16 + uint b2 * 2^8 + uint b3)"
proof -
  have "be32 b0 b1 b2 b3 = push_bit 24 (ucast b0) + push_bit 16 (ucast b1) + push_bit 8 (ucast b2) + ucast b3"
    unfolding be32_def
    apply (subst disjunctive_add [symmetric], force simp: bit_simps dest: bit_imp_le_length)+
    by (simp add: ac_simps or.assoc)
  also have "\<dots> = word_of_int (uint b0 * 2^24 + uint b1 * 2^16 + uint b2 * 2^8 + uint b3)"
    by (simp add: push_bit_eq_mult unsigned_ucast_eq wi_hom_syms)
  finally show ?thesis .
qed

section \<open>Addition and subtraction byte by byte\<close>

lemma uint_byte_lt: "uint (b::byte) < 256" "0 \<le> uint b"
  using uint_lt2p[of b] by simp_all

lemma of_bool_int_bounds: "0 \<le> (of_bool c :: int)" "of_bool c \<le> (1 :: int)"
  by simp_all

lemma mod256_borrow:
  assumes "- 256 \<le> x" "x < (256::int)"
  shows "x mod 256 = x + 256 * of_bool (x < 0)"
proof (cases "x < 0")
  case True
  have "(x + 256) mod 256 = x + 256"
    using assms True by (intro mod_pos_pos_trivial) simp_all
  with True show ?thesis by simp
next
  case False
  with assms show ?thesis by simp
qed

lemma mod256_carry:
  assumes "0 \<le> x" "x < (512::int)"
  shows "x mod 256 = x - 256 * of_bool (256 \<le> x)"
proof (cases "256 \<le> x")
  case True
  have "(x - 256) mod 256 = x - 256"
    using assms True by (intro mod_pos_pos_trivial) simp_all
  with True show ?thesis by simp
next
  case False
  with assms show ?thesis by simp
qed

lemma uint_byte_of_int: "uint (word_of_int x :: byte) = x mod 256"
  by (simp add: uint_word_of_int)

lemma uint_byte_sub: "uint ((a::byte) - b - of_bool c)
   = uint a - uint b - of_bool c + 256 * of_bool (uint a < uint b + of_bool c)"
proof -
  have eq: "a - b - of_bool c = word_of_int (uint a - uint b - of_bool c)"
    by simp
  have "uint (a - b - of_bool c) = (uint a - uint b - of_bool c) mod 256"
    by (simp only: eq uint_byte_of_int)
  moreover have "- 256 \<le> uint a - uint b - of_bool c" "uint a - uint b - of_bool c < 256"
    using uint_byte_lt [of a] uint_byte_lt [of b] of_bool_int_bounds [of c] by linarith+
  moreover have "uint a - uint b - of_bool c < 0 \<longleftrightarrow> uint a < uint b + of_bool c"
    by linarith
  ultimately show ?thesis
    by (simp only: mod256_borrow)
qed

lemma uint_byte_add: "uint ((a::byte) + b + of_bool c)
   = uint a + uint b + of_bool c - 256 * of_bool (256 \<le> uint a + uint b + of_bool c)"
proof -
  have eq: "a + b + of_bool c = word_of_int (uint a + uint b + of_bool c)"
    by simp
  have "uint (a + b + of_bool c) = (uint a + uint b + of_bool c) mod 256"
    by (simp only: eq uint_byte_of_int)
  moreover have "0 \<le> uint a + uint b + of_bool c" "uint a + uint b + of_bool c < 512"
    using uint_byte_lt [of a] uint_byte_lt [of b] of_bool_int_bounds [of c] by linarith+
  ultimately show ?thesis
    by (simp only: mod256_carry)
qed

lemma word32_of_int_shift: "(word_of_int (k + 4294967296 * j) :: 32 word) = word_of_int k"
proof -
  have "(4294967296 :: 32 word) = 0" by simp
  then have "word_of_int (4294967296 * j) = (0 :: 32 word)"
    by (simp only: of_int_mult of_int_numeral mult_zero_left)
  then show ?thesis by (simp only: of_int_add add_0_right)
qed

lemma be32_sub:
  assumes "c1 \<longleftrightarrow> uint a3 < uint b3" "c2 \<longleftrightarrow> uint a2 < uint b2 + of_bool c1"
    "c3 \<longleftrightarrow> uint a1 < uint b1 + of_bool c2"
  shows "be32 a0 a1 a2 a3 - be32 b0 b1 b2 b3
    = be32 (a0 - b0 - of_bool c3) (a1 - b1 - of_bool c2) (a2 - b2 - of_bool c1) (a3 - b3)"
proof -
  obtain c4 where 0: "uint (a0 - b0 - of_bool c3) = uint a0 - uint b0 - of_bool c3 + 256 * of_bool c4"
    using uint_byte_sub [of a0 b0 c3] by blast
  have 1: "uint (a1 - b1 - of_bool c2) = uint a1 - uint b1 - of_bool c2 + 256 * of_bool c3"
    unfolding assms(3) by (rule uint_byte_sub)
  have 2: "uint (a2 - b2 - of_bool c1) = uint a2 - uint b2 - of_bool c1 + 256 * of_bool c2"
    unfolding assms(2) by (rule uint_byte_sub)
  have 3: "uint (a3 - b3) = uint a3 - uint b3 + 256 * of_bool c1"
    using uint_byte_sub [of a3 b3 False] unfolding assms(1) by simp
  have "uint (a0 - b0 - of_bool c3) * 2^24 + uint (a1 - b1 - of_bool c2) * 2^16
      + uint (a2 - b2 - of_bool c1) * 2^8 + uint (a3 - b3)
    = ((uint a0 * 2^24 + uint a1 * 2^16 + uint a2 * 2^8 + uint a3)
      - (uint b0 * 2^24 + uint b1 * 2^16 + uint b2 * 2^8 + uint b3)) + 4294967296 * (of_bool c4)"
    unfolding 0 1 2 3 by (simp add: algebra_simps)
  then show ?thesis
    by (simp only: be32_of_int word32_of_int_shift wi_hom_sub)
qed

lemma be32_add:
  assumes "c1 \<longleftrightarrow> 256 \<le> uint a3 + uint b3" "c2 \<longleftrightarrow> 256 \<le> uint a2 + uint b2 + of_bool c1"
    "c3 \<longleftrightarrow> 256 \<le> uint a1 + uint b1 + of_bool c2"
  shows "be32 a0 a1 a2 a3 + be32 b0 b1 b2 b3
    = be32 (a0 + b0 + of_bool c3) (a1 + b1 + of_bool c2) (a2 + b2 + of_bool c1) (a3 + b3)"
proof -
  obtain c4 where 0: "uint (a0 + b0 + of_bool c3) = uint a0 + uint b0 + of_bool c3 - 256 * of_bool c4"
    using uint_byte_add [of a0 b0 c3] by blast
  have 1: "uint (a1 + b1 + of_bool c2) = uint a1 + uint b1 + of_bool c2 - 256 * of_bool c3"
    unfolding assms(3) by (rule uint_byte_add)
  have 2: "uint (a2 + b2 + of_bool c1) = uint a2 + uint b2 + of_bool c1 - 256 * of_bool c2"
    unfolding assms(2) by (rule uint_byte_add)
  have 3: "uint (a3 + b3) = uint a3 + uint b3 - 256 * of_bool c1"
    using uint_byte_add [of a3 b3 False] unfolding assms(1) by simp
  have "uint (a0 + b0 + of_bool c3) * 2^24 + uint (a1 + b1 + of_bool c2) * 2^16
      + uint (a2 + b2 + of_bool c1) * 2^8 + uint (a3 + b3)
    = ((uint a0 * 2^24 + uint a1 * 2^16 + uint a2 * 2^8 + uint a3)
      + (uint b0 * 2^24 + uint b1 * 2^16 + uint b2 * 2^8 + uint b3)) + 4294967296 * (- of_bool c4)"
    unfolding 0 1 2 3 by (simp add: algebra_simps)
  then show ?thesis
    by (simp only: be32_of_int word32_of_int_shift wi_hom_add)
qed

lemma byte_bit_uint: "n < 8 \<Longrightarrow> bit (b::byte) n \<longleftrightarrow> odd (uint b div 2 ^ n)"
  by (simp add: bit_iff_odd [symmetric] bit_uint_iff)

lemma byte_bit7: "bit (b::byte) 7 \<longleftrightarrow> 128 \<le> uint b"
proof -
  have "uint b div 128 = of_bool (128 \<le> uint b)"
    using uint_byte_lt [of b] by (cases "128 \<le> uint b") (simp_all add: div_pos_geq)
  then show ?thesis
    using byte_bit_uint [of 7 b] by simp
qed

lemma byte_bit0: "bit (b::byte) 0 \<longleftrightarrow> odd (uint b)"
  using byte_bit_uint [of 0 b] by simp

lemma byte_and_80: "x AND 0x80 = 0 \<longleftrightarrow> \<not> bit (x::byte) 7"
proof -
  have "bit (0x80::byte) n \<longleftrightarrow> n = 7" for n
    using bit_push_bit_iff [of 7 "1::byte" n] by (auto simp: bit_1_iff)
  then have *: "bit (x AND 0x80) n \<longleftrightarrow> n = 7 \<and> bit x 7" for n
    by (auto simp: bit_and_iff)
  show ?thesis
    by (metis "*" bit_0_eq bot_apply bot_bool_def bit_word_eqI)
qed

lemma byte_not_bit7: "bit (NOT (b::byte)) 7 \<longleftrightarrow> \<not> bit b 7"
  by (simp add: bit_not_iff)

lemma haszero_byte: "(b - 1) AND NOT b AND 0x80 = 0 \<longleftrightarrow> (b::byte) \<noteq> 0"
proof (cases "b = 0")
  case False
  then have "0 < uint b"
    by (metis uint_0_iff uint_byte_lt(2) order_le_less)
  then have "uint (b - 1) = uint b - 1"
    using uint_byte_sub [of b 1 False] by simp
  with False show ?thesis
    by (simp add: and.assoc [symmetric] byte_and_80 bit_and_iff byte_not_bit7) (simp add: byte_bit7)
qed simp

lemma magic_const: "(0x01010101::32 word) = be32 1 1 1 1" "(0x80808080 :: 32 word) = be32 0x80 0x80 0x80 0x80"
   "(0x7f7f7f7f :: 32 word) = be32 0x7f 0x7f 0x7f 0x7f" "(0xfefefeff :: 32 word) = be32 0xfe 0xfe 0xfe 0xff"
   "(0x7efefeff :: 32 word) = be32 0x7e 0xfe 0xfe 0xff"
  by (simp_all add: be32_of_int)

section \<open>Zero-byte detection\<close>

lemma byte_pos: "(b::byte) \<noteq> 0 \<longleftrightarrow> 1 \<le> uint b"
  using uint_byte_lt(2) [of b] uint_0_iff [of b] by linarith

lemma be32_zero: "be32 b0 b1 b2 b3 = 0 \<longleftrightarrow> b0 = 0 \<and> b1 = 0 \<and> b2 = 0 \<and> b3 = 0"
proof -
  have "(0 :: 32 word) = be32 0 0 0 0" by (simp add: be32_of_int)
  then show ?thesis by (metis be32_eq)
qed

lemma haszero32:
  "(be32 b0 b1 b2 b3 - 0x01010101) AND NOT (be32 b0 b1 b2 b3) AND 0x80808080 = 0 \<longleftrightarrow>
   b0 \<noteq> 0 \<and> b1 \<noteq> 0 \<and> b2 \<noteq> 0 \<and> b3 \<noteq> 0"
proof -
  define c1 where "c1 \<longleftrightarrow> uint b3 < uint (1::byte)"
  define c2 where "c2 \<longleftrightarrow> uint b2 < uint (1::byte) + of_bool c1"
  define c3 where "c3 \<longleftrightarrow> uint b1 < uint (1::byte) + of_bool c2"
  have c: "c1 \<longleftrightarrow> b3 = 0" "\<not> c1 \<Longrightarrow> c2 \<longleftrightarrow> b2 = 0" "\<not> c2 \<Longrightarrow> c3 \<longleftrightarrow> b1 = 0"
    using byte_pos [of b3] byte_pos [of b2] byte_pos [of b1]
    by (auto simp: c1_def c2_def c3_def)
  have "(be32 b0 b1 b2 b3 - 0x01010101) AND NOT (be32 b0 b1 b2 b3) AND 0x80808080 =
    be32 ((b0 - 1 - of_bool c3) AND NOT b0 AND 0x80) ((b1 - 1 - of_bool c2) AND NOT b1 AND 0x80)
         ((b2 - 1 - of_bool c1) AND NOT b2 AND 0x80) ((b3 - 1) AND NOT b3 AND 0x80)"
    unfolding magic_const be32_sub [OF c1_def c2_def c3_def] be32_not be32_and ..
  then have *: "(be32 b0 b1 b2 b3 - 0x01010101) AND NOT (be32 b0 b1 b2 b3) AND 0x80808080 = 0 \<longleftrightarrow>
     (b0 - 1 - of_bool c3) AND NOT b0 AND 0x80 = 0 \<and> (b1 - 1 - of_bool c2) AND NOT b1 AND 0x80 = 0 \<and>
     (b2 - 1 - of_bool c1) AND NOT b2 AND 0x80 = 0 \<and> b3 \<noteq> 0"
    by (simp only: be32_zero haszero_byte)
  show ?thesis
  proof (cases "b3 = 0 \<or> b2 = 0 \<or> b1 = 0")
    case True
    then show ?thesis using c * haszero_byte [of b2] haszero_byte [of b1] by auto
  next
    case False
    then show ?thesis using c * haszero_byte [of b2] haszero_byte [of b1] haszero_byte [of b0] by auto
  qed
qed

lemma byte_not_bit0: "bit (NOT (b::byte)) 0 \<longleftrightarrow> \<not> bit b 0"
  by (simp add: bit_not_iff)

lemma carry_hole:
  assumes "((b + m + of_bool c) XOR NOT b) AND NOT m = (0::byte)" "even (uint m)"
  shows "c"
proof (rule ccontr)
  assume "\<not> c"
  have m: "\<not> bit m 0" using assms(2) by (simp add: byte_bit0)
  from \<open>\<not> c\<close> assms(1) have "((b + m) XOR NOT b) AND NOT m = 0" by simp
  then have "\<not> bit (((b + m) XOR NOT b) AND NOT m) 0" by (simp only: bit_0_eq bot_apply) simp
  with m have "bit (b + m) 0 \<noteq> bit b 0"
    by (simp only: bit_and_iff bit_xor_iff byte_not_bit0) blast
  with m show False by (simp add: bit_0)
qed

lemma magic_misses_no_zero:
  assumes "((be32 b0 b1 b2 b3 + 0x7efefeff) XOR NOT (be32 b0 b1 b2 b3)) AND NOT 0x7efefeff = 0"
  shows "b0 \<noteq> 0 \<and> b1 \<noteq> 0 \<and> b2 \<noteq> 0 \<and> b3 \<noteq> 0"
proof -
  define c1 where "c1 \<longleftrightarrow> 256 \<le> uint b3 + uint (0xff::byte)"
  define c2 where "c2 \<longleftrightarrow> 256 \<le> uint b2 + uint (0xfe::byte) + of_bool c1"
  define c3 where "c3 \<longleftrightarrow> 256 \<le> uint b1 + uint (0xfe::byte) + of_bool c2"
  have "be32 (((b0 + 0x7e + of_bool c3) XOR NOT b0) AND NOT 0x7e) (((b1 + 0xfe + of_bool c2) XOR NOT b1) AND NOT 0xfe)
     (((b2 + 0xfe + of_bool c1) XOR NOT b2) AND NOT 0xfe) (((b3 + 0xff) XOR NOT b3) AND NOT 0xff) = 0"
    using assms unfolding magic_const be32_add [OF c1_def c2_def c3_def] be32_not be32_xor be32_and .
  then have h: "((b0 + 0x7e + of_bool c3) XOR NOT b0) AND NOT 0x7e = 0"
    "((b1 + 0xfe + of_bool c2) XOR NOT b1) AND NOT 0xfe = 0"
    "((b2 + 0xfe + of_bool c1) XOR NOT b2) AND NOT 0xfe = 0"
    by (simp_all only: be32_zero)
  have c: "c1" "c2" "c3"
    using carry_hole [OF h(3)] carry_hole [OF h(2)] carry_hole [OF h(1)] by simp_all
  have "\<not> bit (((b0 + 0x7e + of_bool c3) XOR NOT b0) AND NOT 0x7e) 7"
    using h(1) by (simp only: bit_0_eq bot_apply) simp
  moreover have "\<not> bit (0x7e::byte) 7" by simp
  ultimately have "bit (b0 + 0x7e + of_bool c3) 7 \<noteq> bit b0 7"
    by (simp only: bit_and_iff bit_xor_iff byte_not_bit7) blast
  with c have "b0 \<noteq> 0" by auto
  with c show ?thesis by (auto simp: c1_def c2_def c3_def)
qed

lemma bit_80: "bit (0x80::byte) n \<longleftrightarrow> n = 7"
  using bit_push_bit_iff [of 7 "1::byte" n] by (auto simp: bit_1_iff)

lemma uint_and_7f: "uint ((b::byte) AND 0x7f) = uint b mod 128"
proof -
  have "(0x7f::byte) = mask 7" by (simp add: mask_eq_exp_minus_1)
  then have "uint (b AND 0x7f) = take_bit 7 (uint b)"
    by (simp only: take_bit_eq_mask [symmetric] unsigned_take_bit_eq)
  then show ?thesis by (simp add: take_bit_eq_mod)
qed

lemma exact_byte: "NOT (((b AND 0x7f) + 0x7f) OR b OR 0x7f) = (if b = 0 then 0x80 else (0::byte))"
proof -
  have 7: "bit (NOT (0x7f::byte)) n \<longleftrightarrow> n = 7" for n
  proof -
    have "NOT (0x7f::byte) = 0x80" by simp
    then show ?thesis using bit_push_bit_iff [of 7 "1::byte" n] by (simp only: bit_80)
  qed
  have "uint ((b AND 0x7f) + 0x7f) = uint b mod 128 + 127"
  proof -
    have "\<not> 256 \<le> uint b mod 128 + 127" using pos_mod_bound [of 128 "uint b"] by simp
    then show ?thesis using uint_byte_add [of "b AND 0x7f" "0x7f" False] by (simp add: uint_and_7f)
  qed
  then have "bit ((b AND 0x7f) + 0x7f) 7 \<longleftrightarrow> uint b mod 128 \<noteq> 0"
    using pos_mod_sign [of 128 "uint b"] by (simp add: byte_bit7) linarith
  moreover have "b = 0 \<longleftrightarrow> uint b mod 128 = 0 \<and> \<not> bit b 7"
    using uint_byte_lt [of b] byte_pos [of b] byte_bit7 [of b] by auto
  ultimately have z: "\<not> bit ((b AND 0x7f) + 0x7f) 7 \<and> \<not> bit b 7 \<longleftrightarrow> b = 0" by (simp only: de_Morgan_conj simp_thms)
  have eq: "NOT (((b AND 0x7f) + 0x7f) OR b OR 0x7f) = NOT (((b AND 0x7f) + 0x7f) OR b) AND NOT 0x7f"
    by (simp only: or.assoc [symmetric] bit.de_Morgan_disj)
  have "bit (NOT (((b AND 0x7f) + 0x7f) OR b OR 0x7f)) n \<longleftrightarrow> n = 7 \<and> b = 0" for n
    unfolding eq bit_and_iff 7
    using z byte_not_bit7 [of "((b AND 0x7f) + 0x7f) OR b"] bit_or_iff [of "(b AND 0x7f) + 0x7f" b 7]
    by (cases "n = 7") simp_all
  note bits = this
  show ?thesis
  proof (cases "b = 0")
    case False
    then show ?thesis by (intro bit_word_eqI) (simp only: bits if_False bit_0_eq bot_apply, simp)
  qed simp
qed

lemma exact_zero32:
  "NOT (((be32 b0 b1 b2 b3 AND 0x7f7f7f7f) + 0x7f7f7f7f) OR be32 b0 b1 b2 b3 OR 0x7f7f7f7f) =
   be32 (if b0 = 0 then 0x80 else 0) (if b1 = 0 then 0x80 else 0)
        (if b2 = 0 then 0x80 else 0) (if b3 = 0 then 0x80 else 0)"
proof -
  have lt: "\<not> 256 \<le> uint (b AND 0x7f) + uint (0x7f::byte)" for b :: byte
    using pos_mod_bound [of 128 "uint b"] by (simp add: uint_and_7f)
  have c: "False \<longleftrightarrow> 256 \<le> uint (b3 AND 0x7f) + uint (0x7f::byte)"
    "False \<longleftrightarrow> 256 \<le> uint (b2 AND 0x7f) + uint (0x7f::byte) + of_bool False"
    "False \<longleftrightarrow> 256 \<le> uint (b1 AND 0x7f) + uint (0x7f::byte) + of_bool False"
    using lt by simp_all
  have "(be32 b0 b1 b2 b3 AND 0x7f7f7f7f) + 0x7f7f7f7f =
    be32 ((b0 AND 0x7f) + 0x7f) ((b1 AND 0x7f) + 0x7f) ((b2 AND 0x7f) + 0x7f) ((b3 AND 0x7f) + 0x7f)"
    unfolding magic_const be32_and be32_add [OF c] by simp
  then show ?thesis
    by (simp only: magic_const be32_or be32_not exact_byte)
qed

end
