(* ===== verification/StrScan.thy ===== *)
theory StrScan
  imports ByteWord
begin

text \<open>
  The word-at-a-time scanning routines of \<^verbatim>\<open>src/library/string\<close>: \<open>strlen\<close>, the C routine
  \<open>glibc_strchr\<close> of \<^verbatim>\<open>strchr.c\<close>, and the word accesses they share. The loops
  are translated with their bit tricks; the lemmas show that they compute what a byte-by-byte search
  computes and never leave mapped memory.
\<close>

unbundle bit_operations_syntax

section \<open>Word accesses\<close>

lemma add_small: "a + 1 = Suc a" "a + 2 = Suc (Suc a)" "a + 3 = Suc (Suc (Suc a))"
    "a + 4 = Suc (Suc (Suc (Suc a)))" "4 + a = Suc (Suc (Suc (Suc a)))"
  for a :: nat
  by simp_all

definition load32 :: "byte list \<Rightarrow> addr \<Rightarrow> u32 option" where
  "load32 m a = do {
     b0 \<leftarrow> load m a; b1 \<leftarrow> load m (a + 1); b2 \<leftarrow> load m (a + 2); b3 \<leftarrow> load m (a + 3);
     Some (be32 b0 b1 b2 b3) }"

lemma list_cases4:
  obtains "xs = []" | x0 where "xs = [x0]" | x0 x1 where "xs = [x0, x1]"
  | x0 x1 x2 where "xs = [x0, x1, x2]" | x0 x1 x2 x3 ys where "xs = x0 # x1 # x2 # x3 # ys"
  by (metis neq_Nil_conv)

lemma load32_lt: "load32 m a = Some x \<Longrightarrow> a < length m"
  by (auto simp: load32_def bind_Some_eq dest: load_lt)

lemma load32_aligned:
  assumes "ram_ok m" "mapped m a" "a mod 4 = 0"
  shows "load32 m a = Some (be32 (m ! a) (m ! (a + 1)) (m ! (a + 2)) (m ! (a + 3)))"
proof -
  have "mapped m (a + k)" if "k < 4" for k
    using word_mapped [OF assms(1,2) that] assms(3) by simp
  from this [of 0] this [of 1] this [of 2] this [of 3] show ?thesis
    by (simp add: load32_def load_def)
qed

text \<open>\<open>__builtin_clz\<close> on a 32-bit word.\<close>

definition clz32 :: "u32 \<Rightarrow> nat" where
  "clz32 w = length (takeWhile (\<lambda>i. \<not> bit w i) (rev [0..<32]))"

lemma rev_upt_32: "rev [0..<32] = [31,30,29,28,27,26,25,24,23,22,21,20,19,18,17,16,15,14,13,12,11,10,9,8,7,6,5,4,3,2,1,0::nat]"
  by (simp add: upt_rec)

lemma clz32_flags:
  "clz32 (be32 (if b0 then 0x80 else 0) (if b1 then 0x80 else 0) (if b2 then 0x80 else 0) (if b3 then 0x80 else 0)) div 8
   = (if b0 then 0 else if b1 then 1 else if b2 then 2 else if b3 then 3 else 4)"
  unfolding clz32_def rev_upt_32
  by (cases b0; cases b1; cases b2; cases b3) (simp_all add: bit_be32 bit_80)

section \<open>strlen\<close>

function strlen_words :: "byte list \<Rightarrow> addr \<Rightarrow> u32 \<Rightarrow> (addr \<times> u32) option" where
  "strlen_words m s32 x =
     (if (x + 0xFEFEFEFF) AND NOT (x OR 0x7F7F7F7F) = 0
      then do { x' \<leftarrow> load32 m (s32 + 4); strlen_words m (s32 + 4) x' }
      else Some (s32, x))"
  by pat_completeness auto
termination
  by (relation "measure (\<lambda>(m, s32, x). length m - s32)") (auto dest!: load32_lt)

declare strlen_words.simps [simp del]

text \<open>The index the exit expression of \<open>strlen\<close> computes from the last word read.\<close>

definition zero_index :: "u32 \<Rightarrow> nat" where
  "zero_index x = clz32 (NOT (((x AND 0x7F7F7F7F) + 0x7F7F7F7F) OR x OR 0x7F7F7F7F)) div 8"

definition strlen :: "byte list \<Rightarrow> addr \<Rightarrow> size_t option" where
  "strlen m str =
     (let s32 = str - str mod 4 in do {
        w \<leftarrow> load32 m s32;
        let x = (if s32 = str then w else w OR push_bit ((3 - str mod 4 + 1) * 8) 0xFFFFFFFF);
        (p, x) \<leftarrow> strlen_words m s32 x;
        Some (p + zero_index x - str) })"

lemma zero_index_be32:
  "zero_index (be32 b0 b1 b2 b3) =
     (if b0 = 0 then 0 else if b1 = 0 then 1 else if b2 = 0 then 2 else if b3 = 0 then 3 else 4)"
  by (simp only: zero_index_def exact_zero32 clz32_flags)

lemma strlen_guard:
  "(be32 b0 b1 b2 b3 + 0xFEFEFEFF) AND NOT (be32 b0 b1 b2 b3 OR 0x7F7F7F7F) = 0 \<longleftrightarrow>
   b0 \<noteq> 0 \<and> b1 \<noteq> 0 \<and> b2 \<noteq> 0 \<and> b3 \<noteq> 0"
proof -
  have "be32 b0 b1 b2 b3 + 0xFEFEFEFF = be32 b0 b1 b2 b3 - (0x01010101 :: u32)"
    by simp
  moreover have "NOT (0x7F7F7F7F :: u32) = 0x80808080"
    by (simp add: magic_const be32_not be32_eq)
  ultimately show ?thesis
    by (simp only: bit.de_Morgan_disj haszero32)
qed

lemma strlen_words_be32:
  "strlen_words m s (be32 b0 b1 b2 b3) =
     (if b0 \<noteq> 0 \<and> b1 \<noteq> 0 \<and> b2 \<noteq> 0 \<and> b3 \<noteq> 0
      then do { x' \<leftarrow> load32 m (s + 4); strlen_words m (s + 4) x' }
      else Some (s, be32 b0 b1 b2 b3))"
  by (subst strlen_words.simps) (simp only: strlen_guard)

lemma cstr_mapped: "cstr m a xs \<Longrightarrow> mapped m a"
  by (cases xs) (auto simp: load_Some_mapped)

lemma strlen_words_finds:
  assumes "ram_ok m" "s mod 4 = 0"
    and "b0 \<noteq> 0 \<and> b1 \<noteq> 0 \<and> b2 \<noteq> 0 \<and> b3 \<noteq> 0 \<longrightarrow> cstr m (s + 4) ys"
  shows "\<exists>p x. strlen_words m s (be32 b0 b1 b2 b3) = Some (p, x) \<and>
           p + zero_index x = s + (if b0 = 0 then 0 else if b1 = 0 then 1 else if b2 = 0 then 2
                                   else if b3 = 0 then 3 else 4 + length ys)"
  using assms(2,3)
proof (induction ys arbitrary: s b0 b1 b2 b3 rule: length_induct)
  case (1 ys)
  show ?case
  proof (cases "b0 \<noteq> 0 \<and> b1 \<noteq> 0 \<and> b2 \<noteq> 0 \<and> b3 \<noteq> 0")
    case False
    then show ?thesis by (simp only: strlen_words_be32 if_False) (auto simp: zero_index_be32)
  next
    case True
    define t where "t = s + 4"
    with True "1.prems" have ys: "cstr m t ys" by blast
    have w: "load32 m t = Some (be32 (m ! t) (m ! (t + 1)) (m ! (t + 2)) (m ! (t + 3)))"
      using load32_aligned [OF assms(1) cstr_mapped [OF ys]] "1.prems"(1) by (simp add: t_def)
    have IH: "\<exists>p x. strlen_words m t (be32 (m ! t) (m ! (t + 1)) (m ! (t + 2)) (m ! (t + 3))) = Some (p, x) \<and>
        p + zero_index x = t + length ys"
    proof -
      show ?thesis
      proof (cases ys rule: list_cases4)
        case (5 x0 x1 x2 x3 zs)
        with ys have zs: "cstr m (t + 4) zs"
          and nz: "m ! t \<noteq> 0" "m ! (t + 1) \<noteq> 0" "m ! (t + 2) \<noteq> 0" "m ! (t + 3) \<noteq> 0"
          by (auto simp: load_Some_mapped add_small)
        have "length zs < length ys" "t mod 4 = 0" using 5 "1.prems"(1) t_def by simp_all
        from "1.IH" [rule_format, OF this, of "m ! t" "m ! (t + 1)" "m ! (t + 2)" "m ! (t + 3)"]
        show ?thesis using 5 zs nz by (simp add: add_small)
      qed (use ys in \<open>auto simp: strlen_words_be32 zero_index_be32 load_Some_mapped
             add_small\<close>)
    qed
    with True w show ?thesis
      by (simp add: strlen_words_be32 [of m s] t_def add.assoc)
  qed
qed

text \<open>An unaligned start: the bytes of the first word that precede the string are set to 0xFF.\<close>

lemma strlen_mask:
  "be32 b0 b1 b2 b3 OR push_bit 24 0xFFFFFFFF = be32 0xFF b1 b2 b3"
  "be32 b0 b1 b2 b3 OR push_bit 16 0xFFFFFFFF = be32 0xFF 0xFF b2 b3"
  "be32 b0 b1 b2 b3 OR push_bit 8 0xFFFFFFFF = be32 0xFF 0xFF 0xFF b3"
proof -
  have "(0xFF :: byte) = - 1" by simp
  then have ff: "b OR 0xFF = 0xFF" for b :: byte
    by (simp only: or_minus_numerals or.right_neutral bit.disj_one_right)
  have m: "push_bit 24 (0xFFFFFFFF :: u32) = be32 0xFF 0 0 0"
    "push_bit 16 (0xFFFFFFFF :: u32) = be32 0xFF 0xFF 0 0"
    "push_bit 8 (0xFFFFFFFF :: u32) = be32 0xFF 0xFF 0xFF 0"
    by (simp_all add: be32_of_int)
  show "be32 b0 b1 b2 b3 OR push_bit 24 0xFFFFFFFF = be32 0xFF b1 b2 b3"
    "be32 b0 b1 b2 b3 OR push_bit 16 0xFFFFFFFF = be32 0xFF 0xFF b2 b3"
    "be32 b0 b1 b2 b3 OR push_bit 8 0xFFFFFFFF = be32 0xFF 0xFF 0xFF b3"
    by (simp_all only: m be32_or ff or.right_neutral)
qed


lemma strlen_cstr:
  assumes "ram_ok m" "cstr m s xs"
  shows "strlen m s = Some (length xs)"
proof -
  define t where "t = s - s mod 4"
  have t: "t mod 4 = 0" by (simp add: t_def minus_mod_eq_mult_div)
  have w: "load32 m t = Some (be32 (m ! t) (m ! (t + 1)) (m ! (t + 2)) (m ! (t + 3)))"
    using load32_aligned [OF assms(1) _ t] word_mapped [OF assms(1) cstr_mapped [OF assms(2)], of 0]
    by (simp add: t_def)
  have s: "s = t + s mod 4" "s mod 4 < 4" by (simp_all add: t_def)
  then consider "s = t" | "s = t + 1" "s mod 4 = 1" | "s = t + 2" "s mod 4 = 2" | "s = t + 3" "s mod 4 = 3"
    by linarith
  then have "\<exists>p x. strlen_words m t
      (if t = s then be32 (m ! t) (m ! (t + 1)) (m ! (t + 2)) (m ! (t + 3))
       else be32 (m ! t) (m ! (t + 1)) (m ! (t + 2)) (m ! (t + 3)) OR push_bit ((3 - s mod 4 + 1) * 8) 0xFFFFFFFF)
      = Some (p, x) \<and> p + zero_index x = s + length xs"
  proof cases
    case 1
    show ?thesis
      using strlen_words_finds [OF assms(1) t, of "m ! t" "m ! (t + 1)" "m ! (t + 2)" "m ! (t + 3)" "drop 4 xs"]
        assms(2) 1
      by (cases xs rule: list_cases4) (auto simp: load_Some_mapped add_small)
  next
    case 2
    then have sh: "(3 - s mod 4 + 1) * 8 = 24" by simp
    have eq: "be32 (m ! t) (m ! (t + 1)) (m ! (t + 2)) (m ! (t + 3)) OR
        push_bit ((3 - s mod 4 + 1) * 8) 0xFFFFFFFF = be32 0xFF (m ! (t + 1)) (m ! (t + 2)) (m ! (t + 3))"
      by (simp only: sh strlen_mask)
    show ?thesis
      using strlen_words_finds [OF assms(1) t, of "0xFF" "m ! (t + 1)" "m ! (t + 2)" "m ! (t + 3)" "drop 3 xs"]
        assms(2) 2(1)
      unfolding eq by (cases xs rule: list_cases4) (auto simp: load_Some_mapped add_small)
  next
    case 3
    then have sh: "(3 - s mod 4 + 1) * 8 = 16" by simp
    have eq: "be32 (m ! t) (m ! (t + 1)) (m ! (t + 2)) (m ! (t + 3)) OR
        push_bit ((3 - s mod 4 + 1) * 8) 0xFFFFFFFF = be32 0xFF 0xFF (m ! (t + 2)) (m ! (t + 3))"
      by (simp only: sh strlen_mask)
    show ?thesis
      using strlen_words_finds [OF assms(1) t, of "0xFF" "0xFF" "m ! (t + 2)" "m ! (t + 3)" "drop 2 xs"]
        assms(2) 3(1)
      unfolding eq by (cases xs rule: list_cases4) (auto simp: load_Some_mapped add_small)
  next
    case 4
    then have sh: "(3 - s mod 4 + 1) * 8 = 8" by simp
    have eq: "be32 (m ! t) (m ! (t + 1)) (m ! (t + 2)) (m ! (t + 3)) OR
        push_bit ((3 - s mod 4 + 1) * 8) 0xFFFFFFFF = be32 0xFF 0xFF 0xFF (m ! (t + 3))"
      by (simp only: sh strlen_mask)
    show ?thesis
      using strlen_words_finds [OF assms(1) t, of "0xFF" "0xFF" "0xFF" "m ! (t + 3)" "drop 1 xs"]
        assms(2) 4(1)
      unfolding eq by (cases xs rule: list_cases4) (auto simp: load_Some_mapped add_small)
  qed
  then show ?thesis using w by (auto simp: strlen_def t_def [symmetric] Let_def)
qed

text \<open>C8. On every NUL-terminated string, at any alignment, \<open>strlen\<close> returns its length; it reads
  whole words only, and none of them outside mapped memory.\<close>

theorem strlen_correct:
  assumes "ram_ok m" "cstr m s xs"
  shows "strlen m s = Some (length xs)"
  using assms by (rule strlen_cstr)

theorem strlen_correct_witness:
  "strlen [0, 0, 0, 0, 1, 72, 105, 33, 33, 0, 9, 9] 5 = Some 4"
  using strlen_correct [of "[0, 0, 0, 0, 1, 72, 105, 33, 33, 0, 9, 9]" 5 "[72, 105, 33, 33]"]
  by (simp add: ram_ok_def load_def mapped_def)

section \<open>strchr\<close>

function strchr_head :: "byte list \<Rightarrow> addr \<Rightarrow> byte \<Rightarrow> (addr + addr) option" where
  "strchr_head m p c =
     (if p mod 4 \<noteq> 0
      then do { b \<leftarrow> load m p;
                if b = c then Some (Inl p) else if b = 0 then Some (Inl NULL)
                else strchr_head m (p + 1) c }
      else Some (Inr p))"
  by pat_completeness auto
termination
  by (relation "measure (\<lambda>(m, p, c). length m - p)") (auto dest!: load_lt)

text \<open>The four byte tests that follow a hit of the word test; \<open>None\<close> inside: a misfire.\<close>

definition strchr_test4 :: "byte list \<Rightarrow> addr \<Rightarrow> byte \<Rightarrow> addr option option" where
  "strchr_test4 m cp c = do {
     b \<leftarrow> load m cp;
     if b = c then Some (Some cp) else if b = 0 then Some (Some NULL) else do {
     b \<leftarrow> load m (cp + 1);
     if b = c then Some (Some (cp + 1)) else if b = 0 then Some (Some NULL) else do {
     b \<leftarrow> load m (cp + 2);
     if b = c then Some (Some (cp + 2)) else if b = 0 then Some (Some NULL) else do {
     b \<leftarrow> load m (cp + 3);
     if b = c then Some (Some (cp + 3)) else if b = 0 then Some (Some NULL) else Some None }}}}"

definition charmask :: "byte \<Rightarrow> u32" where
  "charmask c = (let x = ucast c OR push_bit 8 (ucast c); x = x OR push_bit 16 x in
     x OR push_bit 16 (push_bit 16 x))"

definition magic_test :: "u32 \<Rightarrow> bool" where
  "magic_test w \<longleftrightarrow> ((w + 0x7efefeff) XOR NOT w) AND NOT 0x7efefeff \<noteq> 0"

function strchr_words :: "byte list \<Rightarrow> addr \<Rightarrow> byte \<Rightarrow> addr option" where
  "strchr_words m p c = do {
     w \<leftarrow> load32 m p;
     if magic_test w \<or> magic_test (w XOR charmask c)
     then do { r \<leftarrow> strchr_test4 m p c;
               (case r of Some q \<Rightarrow> Some q | None \<Rightarrow> strchr_words m (p + 4) c) }
     else strchr_words m (p + 4) c }"
  by pat_completeness auto
termination
  by (relation "measure (\<lambda>(m, p, c). length m - p)") (auto dest!: load32_lt)

definition glibc_strchr :: "byte list \<Rightarrow> addr \<Rightarrow> int \<Rightarrow> addr option" where
  "glibc_strchr m s c_in =
     (let c = word_of_int c_in in do {
        r \<leftarrow> strchr_head m s c;
        (case r of Inl a \<Rightarrow> Some a | Inr p \<Rightarrow> strchr_words m p c) })"

declare strchr_head.simps [simp del] strchr_words.simps [simp del]

text \<open>What a search for \<open>c\<close> in the string \<open>xs\<close> at \<open>s\<close> returns; the terminator counts.\<close>

definition chr_spec :: "addr \<Rightarrow> byte list \<Rightarrow> byte \<Rightarrow> addr" where
  "chr_spec s xs c = (if c = 0 \<or> c \<in> set xs then s + length (takeWhile (\<lambda>b. b \<noteq> c) xs) else NULL)"

lemma chr_spec_simps [str_simps]:
  "chr_spec s [] c = (if c = 0 then s else NULL)"
  "chr_spec s (x # xs) c = (if x = c then s else chr_spec (Suc s) xs c)"
  by (auto simp: chr_spec_def)

lemma magic_test_be32: "b0 = 0 \<or> b1 = 0 \<or> b2 = 0 \<or> b3 = 0 \<Longrightarrow> magic_test (be32 b0 b1 b2 b3)"
  unfolding magic_test_def using magic_misses_no_zero [of b0 b1 b2 b3] by auto

lemma charmask_be32: "charmask c = be32 c c c c"
  by (rule bit_word_eqI) (auto simp: charmask_def Let_def bit_be32 bit_simps dest: bit_imp_le_length)

lemma strchr_test4_hit:
  assumes "cstr m p xs" "length xs < 4 \<or> c \<in> set (take 4 xs)"
  shows "strchr_test4 m p c = Some (Some (chr_spec p xs c))"
  using assms by (cases xs rule: list_cases4) (auto simp: strchr_test4_def str_simps add_small)

lemma strchr_test4_miss:
  assumes "cstr m p xs" "\<not> (length xs < 4 \<or> c \<in> set (take 4 xs))"
  shows "strchr_test4 m p c = Some None"
  using assms by (cases xs rule: list_cases4) (auto simp: strchr_test4_def str_simps add_small)

lemma magic_test_hit:
  assumes "cstr m p xs" "length xs < 4 \<or> c \<in> set (take 4 xs)"
    and "w = be32 (m ! p) (m ! (p + 1)) (m ! (p + 2)) (m ! (p + 3))"
  shows "magic_test w \<or> magic_test (w XOR charmask c)"
proof -
  have "w XOR charmask c = be32 (m ! p XOR c) (m ! (p + 1) XOR c) (m ! (p + 2) XOR c) (m ! (p + 3) XOR c)"
    by (simp only: assms(3) charmask_be32 be32_xor)
  moreover have "(0 \<in> {m ! p, m ! (p + 1), m ! (p + 2), m ! (p + 3)}) \<or> c \<in> {m ! p, m ! (p + 1), m ! (p + 2), m ! (p + 3)}"
    using assms(1,2) by (cases xs rule: list_cases4) (auto simp: load_Some_mapped add_small)
  ultimately show ?thesis using assms(3) by (auto intro!: magic_test_be32)
qed

lemma strchr_words_cstr:
  assumes "ram_ok m" "p mod 4 = 0" "cstr m p xs"
  shows "strchr_words m p c = Some (chr_spec p xs c)"
  using assms(2,3)
proof (induction xs arbitrary: p rule: length_induct)
  case (1 xs)
  have w: "load32 m p = Some (be32 (m ! p) (m ! (p + 1)) (m ! (p + 2)) (m ! (p + 3)))"
    by (rule load32_aligned [OF assms(1) cstr_mapped [OF "1.prems"(2)] "1.prems"(1)])
  show ?case
  proof (cases "length xs < 4 \<or> c \<in> set (take 4 xs)")
    case True
    then show ?thesis
      using w magic_test_hit [OF "1.prems"(2) True refl] strchr_test4_hit [OF "1.prems"(2) True]
      by (subst strchr_words.simps) auto
  next
    case False
    then have "cstr m (p + length (take 4 xs)) (drop 4 xs)" "length (take 4 xs) = 4"
      using cstr_drop [of m p "take 4 xs" "drop 4 xs"] "1.prems"(2) by simp_all
    then have "strchr_words m (p + 4) c = Some (chr_spec (p + 4) (drop 4 xs) c)"
      using "1.IH" [rule_format, of "drop 4 xs" "p + 4"] False "1.prems"(1) by auto
    moreover have "chr_spec (p + 4) (drop 4 xs) c = chr_spec p xs c"
      using False by (cases xs rule: list_cases4) (auto simp: str_simps add_small)
    ultimately show ?thesis
      using w strchr_test4_miss [OF "1.prems"(2) False]
      by (subst strchr_words.simps) auto
  qed
qed

lemma glibc_strchr_cstr:
  assumes "ram_ok m" "cstr m s xs"
  shows "glibc_strchr m s c = Some (chr_spec s xs (word_of_int c))"
  using assms(2)
proof (induction xs arbitrary: s)
  case Nil
  then show ?case using strchr_words_cstr [OF assms(1) _ Nil]
    by (auto simp: glibc_strchr_def strchr_head.simps [of m s] str_simps Let_def)
next
  case (Cons x xs)
  then show ?case using strchr_words_cstr [OF assms(1) _ Cons.prems]
    by (auto simp: glibc_strchr_def strchr_head.simps [of m s] str_simps Let_def)
qed

text \<open>C9. The C routine \<open>glibc_strchr\<close> (byte loop up to a word boundary, then whole words tested
  with the magic-bits addition) returns the first occurrence of the character in the string, the
  terminator included, and NULL if there is none; misfires of the word test change nothing.\<close>

theorem glibc_strchr_correct:
  assumes "ram_ok m" "cstr m s xs"
  shows "glibc_strchr m s c = Some (chr_spec s xs (word_of_int c))"
  using assms by (rule glibc_strchr_cstr)

theorem glibc_strchr_correct_witness:
  "glibc_strchr [0, 0, 0, 0, 1, 72, 128, 33, 34, 33, 0, 9] 5 34 = Some 8"
  using glibc_strchr_correct [of "[0, 0, 0, 0, 1, 72, 128, 33, 34, 33, 0, 9]" 5 "[72, 128, 33, 34, 33]" 34]
  by (simp add: ram_ok_def load_def mapped_def chr_spec_def)

end
