(* ===== verification/StrFind.thy ===== *)
theory StrFind
  imports StrScan
begin

text \<open>
  The other searching routines of \<^verbatim>\<open>src/library/string\<close>: \<open>strchrnul\<close> and \<open>memchr\<close>, which scan whole
  words; \<open>strnlen\<close>, \<open>strrchr\<close>, \<open>memrchr\<close>, which scan bytes; and \<open>strspn\<close>, \<open>strcspn\<close>, \<open>strpbrk\<close>
  and \<open>index\<close>, which call \<open>strchr\<close>. The library's \<open>strchr\<close> is an assembly routine, so those four
  take it as an argument and rely on the contract stated in the locale \<open>strchr_spec\<close>; the C routine
  \<open>glibc_strchr\<close> is shown to meet that contract.
\<close>

unbundle bit_operations_syntax

section \<open>strchrnul\<close>

function strchrnul_head :: "byte list \<Rightarrow> addr \<Rightarrow> byte \<Rightarrow> (addr + addr) option" where
  "strchrnul_head m p c =
     (if p mod 4 \<noteq> 0
      then do { b \<leftarrow> load m p;
                if b = c \<or> b = 0 then Some (Inl p) else strchrnul_head m (p + 1) c }
      else Some (Inr p))"
  by pat_completeness auto
termination
  by (relation "measure (\<lambda>(m, p, c). length m - p)") (auto dest!: load_lt)

definition strchrnul_test4 :: "byte list \<Rightarrow> addr \<Rightarrow> byte \<Rightarrow> addr option option" where
  "strchrnul_test4 m cp c = do {
     b \<leftarrow> load m cp;
     if b = c \<or> b = 0 then Some (Some cp) else do {
     b \<leftarrow> load m (cp + 1);
     if b = c \<or> b = 0 then Some (Some (cp + 1)) else do {
     b \<leftarrow> load m (cp + 2);
     if b = c \<or> b = 0 then Some (Some (cp + 2)) else do {
     b \<leftarrow> load m (cp + 3);
     if b = c \<or> b = 0 then Some (Some (cp + 3)) else Some None }}}}"

text \<open>\<open>magic_bits = -1; magic_bits = magic_bits / 0xff * 0xfe << 1 >> 1 | 1\<close> on \<open>unsigned long\<close>.\<close>

definition strchrnul_magic :: u32 where
  "strchrnul_magic = drop_bit 1 (push_bit 1 ((- 1) div 0xff * 0xfe)) OR 1"

definition strchrnul_hit :: "u32 \<Rightarrow> bool" where
  "strchrnul_hit w \<longleftrightarrow> ((w + strchrnul_magic) XOR NOT w) AND NOT strchrnul_magic \<noteq> 0"

function strchrnul_words :: "byte list \<Rightarrow> addr \<Rightarrow> byte \<Rightarrow> addr option" where
  "strchrnul_words m p c = do {
     w \<leftarrow> load32 m p;
     if strchrnul_hit w \<or> strchrnul_hit (w XOR charmask c)
     then do { r \<leftarrow> strchrnul_test4 m p c;
               (case r of Some q \<Rightarrow> Some q | None \<Rightarrow> strchrnul_words m (p + 4) c) }
     else strchrnul_words m (p + 4) c }"
  by pat_completeness auto
termination
  by (relation "measure (\<lambda>(m, p, c). length m - p)") (auto dest!: load32_lt)

definition strchrnul :: "byte list \<Rightarrow> addr \<Rightarrow> int \<Rightarrow> addr option" where
  "strchrnul m s c_in =
     (let c = word_of_int c_in in do {
        r \<leftarrow> strchrnul_head m s c;
        (case r of Inl a \<Rightarrow> Some a | Inr p \<Rightarrow> strchrnul_words m p c) })"

declare strchrnul_head.simps [simp del] strchrnul_words.simps [simp del]

lemma strchrnul_magic_value: "strchrnul_magic = 0x7efefeff"
  by (simp add: strchrnul_magic_def)

lemma strchrnul_hit_eq: "strchrnul_hit w = magic_test w"
  by (simp only: strchrnul_hit_def strchrnul_magic_value magic_test_def)

text \<open>Like \<open>chr_spec\<close>, with the terminator as the answer of a search that fails.\<close>

definition chrnul_spec :: "addr \<Rightarrow> byte list \<Rightarrow> byte \<Rightarrow> addr" where
  "chrnul_spec s xs c = s + length (takeWhile (\<lambda>b. b \<noteq> c) xs)"

lemma chrnul_spec_simps [str_simps]:
  "chrnul_spec s [] c = s"
  "chrnul_spec s (x # xs) c = (if x = c then s else chrnul_spec (Suc s) xs c)"
  by (auto simp: chrnul_spec_def)

lemma strchrnul_test4_hit:
  assumes "cstr m p xs" "length xs < 4 \<or> c \<in> set (take 4 xs)"
  shows "strchrnul_test4 m p c = Some (Some (chrnul_spec p xs c))"
  using assms by (cases xs rule: list_cases4) (auto simp: strchrnul_test4_def str_simps add_small)

lemma strchrnul_test4_miss:
  assumes "cstr m p xs" "\<not> (length xs < 4 \<or> c \<in> set (take 4 xs))"
  shows "strchrnul_test4 m p c = Some None"
  using assms by (cases xs rule: list_cases4) (auto simp: strchrnul_test4_def str_simps add_small)

lemma strchrnul_words_cstr:
  assumes "ram_ok m" "p mod 4 = 0" "cstr m p xs"
  shows "strchrnul_words m p c = Some (chrnul_spec p xs c)"
  using assms(2,3)
proof (induction xs arbitrary: p rule: length_induct)
  case (1 xs)
  have w: "load32 m p = Some (be32 (m ! p) (m ! (p + 1)) (m ! (p + 2)) (m ! (p + 3)))"
    by (rule load32_aligned [OF assms(1) cstr_mapped [OF "1.prems"(2)] "1.prems"(1)])
  show ?case
  proof (cases "length xs < 4 \<or> c \<in> set (take 4 xs)")
    case True
    then show ?thesis
      using w magic_test_hit [OF "1.prems"(2) True refl] strchrnul_test4_hit [OF "1.prems"(2) True]
      by (subst strchrnul_words.simps) (auto simp: strchrnul_hit_eq)
  next
    case False
    then have "cstr m (p + length (take 4 xs)) (drop 4 xs)" "length (take 4 xs) = 4"
      using cstr_drop [of m p "take 4 xs" "drop 4 xs"] "1.prems"(2) by simp_all
    then have "strchrnul_words m (p + 4) c = Some (chrnul_spec (p + 4) (drop 4 xs) c)"
      using "1.IH" [rule_format, of "drop 4 xs" "p + 4"] False "1.prems"(1) by auto
    moreover have "chrnul_spec (p + 4) (drop 4 xs) c = chrnul_spec p xs c"
      using False by (cases xs rule: list_cases4) (auto simp: str_simps add_small)
    ultimately show ?thesis
      using w strchrnul_test4_miss [OF "1.prems"(2) False]
      by (subst strchrnul_words.simps) auto
  qed
qed

lemma strchrnul_cstr:
  assumes "ram_ok m" "cstr m s xs"
  shows "strchrnul m s c = Some (chrnul_spec s xs (word_of_int c))"
  using assms(2)
proof (induction xs arbitrary: s)
  case Nil
  then show ?case using strchrnul_words_cstr [OF assms(1) _ Nil]
    by (auto simp: strchrnul_def strchrnul_head.simps [of m s] str_simps Let_def)
next
  case (Cons x xs)
  then show ?case using strchrnul_words_cstr [OF assms(1) _ Cons.prems]
    by (auto simp: strchrnul_def strchrnul_head.simps [of m s] str_simps Let_def)
qed

section \<open>memchr\<close>

function memchr_head :: "byte list \<Rightarrow> addr \<Rightarrow> size_t \<Rightarrow> byte \<Rightarrow> (addr + addr \<times> size_t) option" where
  "memchr_head m p n c =
     (if 0 < n \<and> p mod 4 \<noteq> 0
      then do { b \<leftarrow> load m p;
                if b = c then Some (Inl p) else memchr_head m (p + 1) (n - 1) c }
      else Some (Inr (p, n)))"
  by pat_completeness auto
termination
  by (relation "measure (\<lambda>(m, p, n, c). n)") auto

definition repeated_one :: u32 where "repeated_one = 0x01010101"

definition repeated_c :: "byte \<Rightarrow> u32" where
  "repeated_c c = (let x = ucast c OR push_bit 8 (ucast c) in x OR push_bit 16 x)"

definition memchr_hit :: "u32 \<Rightarrow> bool" where
  "memchr_hit x \<longleftrightarrow> ((x - repeated_one) AND NOT x) AND push_bit 7 repeated_one \<noteq> 0"

function memchr_words :: "byte list \<Rightarrow> addr \<Rightarrow> size_t \<Rightarrow> byte \<Rightarrow> (addr \<times> size_t) option" where
  "memchr_words m p n c =
     (if 4 \<le> n
      then do { w \<leftarrow> load32 m p;
                if memchr_hit (w XOR repeated_c c) then Some (p, n)
                else memchr_words m (p + 4) (n - 4) c }
      else Some (p, n))"
  by pat_completeness auto
termination
  by (relation "measure (\<lambda>(m, p, n, c). n)") auto

fun memchr_tail :: "byte list \<Rightarrow> addr \<Rightarrow> size_t \<Rightarrow> byte \<Rightarrow> addr option" where
  "memchr_tail m p 0 c = Some NULL"
| "memchr_tail m p (Suc n) c = do { b \<leftarrow> load m p; if b = c then Some p else memchr_tail m (p + 1) n c }"

text \<open>\<open>__memchr\<close>, then the public \<open>memchr\<close>, which reports \<open>EFAULT\<close> for NULL and for a zero length.\<close>

definition memchr_impl :: "byte list \<Rightarrow> addr \<Rightarrow> int \<Rightarrow> size_t \<Rightarrow> addr option" where
  "memchr_impl m s c_in n =
     (let c = word_of_int c_in in do {
        r \<leftarrow> memchr_head m s n c;
        (case r of Inl a \<Rightarrow> Some a
         | Inr (p, k) \<Rightarrow> do { (p', k') \<leftarrow> memchr_words m p k c; memchr_tail m p' k' c }) })"

definition memchr :: "addr \<Rightarrow> int \<Rightarrow> size_t \<Rightarrow> clib \<Rightarrow> (addr \<times> clib) option" where
  "memchr ptr val len st =
     (if ptr = NULL \<or> len = 0 then Some (NULL, set_errno EFAULT st)
      else do { r \<leftarrow> memchr_impl (ram st) ptr (val AND 255) len; Some (r, st) })"

declare memchr_head.simps [simp del] memchr_words.simps [simp del]

definition mchr_spec :: "addr \<Rightarrow> byte list \<Rightarrow> byte \<Rightarrow> addr" where
  "mchr_spec p bs c = (if c \<in> set bs then p + length (takeWhile (\<lambda>b. b \<noteq> c) bs) else NULL)"

lemma mchr_spec_simps [str_simps]:
  "mchr_spec p [] c = NULL"
  "mchr_spec p (x # bs) c = (if x = c then p else mchr_spec (Suc p) bs c)"
  by (auto simp: mchr_spec_def)

lemma memchr_tail_spec: "region m p n \<Longrightarrow> memchr_tail m p n c = Some (mchr_spec p (slice m p n) c)"
  by (induction n arbitrary: p) (auto simp: region_Suc slice_Suc load_def str_simps)

lemma repeated_c_be32: "repeated_c c = be32 c c c c"
  by (rule bit_word_eqI) (auto simp: repeated_c_def Let_def bit_be32 bit_simps dest: bit_imp_le_length)

lemma xor_zero_iff: "a XOR c = 0 \<longleftrightarrow> a = c" for a c :: byte
proof
  assume "a XOR c = 0"
  then have "(a XOR c) XOR c = c" by simp
  then show "a = c" by (simp add: xor.assoc)
qed simp

text \<open>The word test of \<open>memchr\<close> is exact: it fires if and only if one of the four bytes is \<open>c\<close>.\<close>

lemma memchr_hit_exact: "memchr_hit (be32 b0 b1 b2 b3 XOR repeated_c c) \<longleftrightarrow> c \<in> {b0, b1, b2, b3}"
proof -
  have one: "push_bit 7 (0x01010101 :: u32) = 0x80808080" by simp
  show ?thesis
    unfolding memchr_hit_def repeated_one_def one repeated_c_be32 be32_xor and.assoc
      haszero32 [of "b0 XOR c" "b1 XOR c" "b2 XOR c" "b3 XOR c"] xor_zero_iff
    by auto
qed

lemma memchr_words_spec:
  assumes "ram_ok m" "region m p n" "p mod 4 = 0" "memchr_words m p n c = Some (q, k)"
  shows "mchr_spec q (slice m q k) c = mchr_spec p (slice m p n) c \<and> region m q k"
  using assms(2-)
proof (induction m p n c arbitrary: q k rule: memchr_words.induct)
  case (1 m p n c)
  show ?case
  proof (cases "4 \<le> n")
    case False
    then show ?thesis using "1.prems" by (simp add: memchr_words.simps [of m p n])
  next
    case True
    then obtain l where n: "n = Suc (Suc (Suc (Suc l)))" by (metis add.commute add_small(4) le_Suc_ex)
    have sl: "slice m p n = m ! p # m ! (p + 1) # m ! (p + 2) # m ! (p + 3) # slice m (p + 4) l"
      and mp: "mapped m p" "mapped m (p + 1)" "mapped m (p + 2)" "mapped m (p + 3)" and rl: "region m (p + 4) l"
      using "1.prems"(1) by (simp_all add: n region_Suc slice_Suc add_small)
    define w where "w = be32 (m ! p) (m ! (p + 1)) (m ! (p + 2)) (m ! (p + 3))"
    have w: "load32 m p = Some w" using mp by (simp add: load32_def load_def w_def)
    show ?thesis
    proof (cases "c \<in> {m ! p, m ! (p + 1), m ! (p + 2), m ! (p + 3)}")
      case hit: True
      then show ?thesis
        using "1.prems" w True memchr_hit_exact unfolding w_def
        by (simp add: memchr_words.simps [of m p n])
    next
      case False
      then have no: "\<not> memchr_hit (w XOR repeated_c c)"
        using memchr_hit_exact unfolding w_def by blast
      then have "memchr_words m (p + 4) (n - 4) c = Some (q, k)"
        using "1.prems"(3) w True by (simp add: memchr_words.simps [of m p n])
      then have "mchr_spec q (slice m q k) c = mchr_spec (p + 4) (slice m (p + 4) l) c \<and> region m q k"
        using "1.IH" [OF True w no] "1.prems"(2) rl n by simp
      with False show ?thesis unfolding sl by (auto simp: str_simps add_small)
    qed
  qed
qed

lemma memchr_words_total:
  assumes "region m p n"
  shows "\<exists>q k. memchr_words m p n c = Some (q, k)"
  using assms
proof (induction m p n c rule: memchr_words.induct)
  case (1 m p n c)
  show ?case
  proof (cases "4 \<le> n")
    case True
    then obtain l where n: "n = 4 + l" by (metis le_Suc_ex)
    have r: "region m p 4" "region m (p + 4) (n - 4)"
      using "1.prems" by (simp_all add: n region_append)
    obtain w where w: "load32 m p = Some w"
      using r(1) by (simp add: load32_def load_def region_def mapped_def)
    show ?thesis using "1.IH" [OF True w] w r True by (auto simp: memchr_words.simps [of m p n])
  qed (simp add: memchr_words.simps [of m p n])
qed

lemma memchr_impl_spec:
  assumes "ram_ok m" "region m s n"
  shows "memchr_impl m s c n = Some (mchr_spec s (slice m s n) (word_of_int c))"
  using assms(2)
proof (induction n arbitrary: s)
  case 0
  then show ?case by (simp add: memchr_impl_def memchr_head.simps [of m s 0] memchr_words.simps [of m s 0] str_simps Let_def)
next
  case (Suc n)
  obtain q k where "memchr_words m s (Suc n) (word_of_int c) = Some (q, k)"
    using memchr_words_total [OF Suc.prems] by blast
  with Suc memchr_words_spec [OF assms(1) Suc.prems] show ?case
    by (auto simp: memchr_impl_def memchr_head.simps [of m s "Suc n"] memchr_tail_spec region_Suc slice_Suc
        load_def str_simps Let_def)
qed

lemma word_of_int_and_255: "(word_of_int (v AND 255) :: byte) = word_of_int v"
proof -
  have "v AND 255 = take_bit 8 v" by (simp add: take_bit_eq_mask mask_eq_exp_minus_1)
  then show ?thesis by (simp add: word_of_int_eq_iff)
qed

lemma region_nonnull: "region m p n \<Longrightarrow> 0 < n \<Longrightarrow> p \<noteq> 0"
  by (auto simp: region_def)

lemma memchr_spec:
  assumes "ram_ok (ram st)" "region (ram st) p n" "0 < n"
  shows "memchr p v n st = Some (mchr_spec p (slice (ram st) p n) (word_of_int v), st)"
  using assms memchr_impl_spec [OF assms(1,2)] region_nonnull [OF assms(2,3)]
  by (simp add: memchr_def word_of_int_and_255)

section \<open>strnlen\<close>

fun strnlen_loop :: "byte list \<Rightarrow> addr \<Rightarrow> size_t \<Rightarrow> addr option" where
  "strnlen_loop m s 0 = Some s"
| "strnlen_loop m s (Suc maxlen) = do { b \<leftarrow> load m s; if b \<noteq> 0 then strnlen_loop m (s + 1) maxlen else Some s }"

definition strnlen :: "addr \<Rightarrow> size_t \<Rightarrow> clib \<Rightarrow> (size_t \<times> clib) option" where
  "strnlen s maxlen st =
     (if s = NULL then Some (0, set_errno EFAULT st)
      else do { e \<leftarrow> strnlen_loop (ram st) s maxlen; Some (e - s, st) })"

lemma strnlen_loop_cstr: "cstr m s xs \<Longrightarrow> strnlen_loop m s n = Some (s + min n (length xs))"
proof (induction n arbitrary: s xs)
  case (Suc n)
  then show ?case by (cases xs) auto
qed simp

lemma strnlen_loop_region:
  "region m s n \<Longrightarrow> strnlen_loop m s n = Some (s + length (takeWhile (\<lambda>b. b \<noteq> 0) (slice m s n)))"
  by (induction n arbitrary: s) (auto simp: region_Suc slice_Suc load_def)

lemma strnlen_cstr: "cstr (ram st) s xs \<Longrightarrow> strnlen s n st = Some (min n (length xs), st)"
  using cstr_nonnull by (fastforce simp: strnlen_def strnlen_loop_cstr)

lemma strnlen_unterminated:
  "region (ram st) s n \<Longrightarrow> 4 \<le> s \<Longrightarrow> 0 \<notin> set (slice (ram st) s n) \<Longrightarrow> strnlen s n st = Some (n, st)"
  by (simp add: strnlen_def strnlen_loop_region takeWhile_neq_notin length_slice)

section \<open>strrchr and memrchr\<close>

function strrchr_loop :: "byte list \<Rightarrow> addr \<Rightarrow> byte \<Rightarrow> addr \<Rightarrow> addr option" where
  "strrchr_loop m us find_this result = do {
     us_c \<leftarrow> load m us;
     let result = (if us_c = find_this then us else result);
     if us_c = 0 then Some result else strrchr_loop m (us + 1) find_this result }"
  by pat_completeness auto
termination
  by (relation "measure (\<lambda>(m, us, c, r). length m - us)") (auto dest!: load_lt)

declare strrchr_loop.simps [simp del]

definition strrchr :: "addr \<Rightarrow> int \<Rightarrow> clib \<Rightarrow> (addr \<times> clib) option" where
  "strrchr s c st =
     (if s = NULL then Some (NULL, set_errno EFAULT st)
      else do { r \<leftarrow> strrchr_loop (ram st) s (word_of_int (c AND 0xff)) NULL; Some (r, st) })"

definition rindex :: "addr \<Rightarrow> int \<Rightarrow> clib \<Rightarrow> (addr \<times> clib) option" where
  "rindex s c st = strrchr s c st"

fun memrchr :: "byte list \<Rightarrow> addr \<Rightarrow> int \<Rightarrow> size_t \<Rightarrow> addr option" where
  "memrchr m s c 0 = Some NULL"
| "memrchr m s c (Suc n) = do { b \<leftarrow> load m (s + n); if b = word_of_int c then Some (s + n) else memrchr m s c n }"

text \<open>The address of the last \<open>c\<close> in the bytes \<open>bs\<close> stored at \<open>p\<close>.\<close>

definition rchr_spec :: "addr \<Rightarrow> byte list \<Rightarrow> byte \<Rightarrow> addr" where
  "rchr_spec p bs c = (if c \<in> set bs then p + (length bs - 1 - length (takeWhile (\<lambda>b. b \<noteq> c) (rev bs))) else NULL)"

lemma rchr_spec_Nil [str_simps]: "rchr_spec p [] c = NULL"
  by (simp add: rchr_spec_def)

lemma rchr_spec_snoc [str_simps]:
  "rchr_spec p (bs @ [x]) c = (if x = c then p + length bs else rchr_spec p bs c)"
  using length_takeWhile_less_iff [of "\<lambda>b. b \<noteq> c" "rev bs"] by (auto simp: rchr_spec_def)

lemma rchr_spec_last:
  assumes "c \<in> set bs"
  shows "\<exists>i < length bs. rchr_spec p bs c = p + i \<and> bs ! i = c \<and> (\<forall>j. i < j \<and> j < length bs \<longrightarrow> bs ! j \<noteq> c)"
  using assms
proof (induction bs rule: rev_induct)
  case (snoc x bs)
  show ?case
  proof (cases "x = c")
    case True
    then show ?thesis by (intro exI [of _ "length bs"]) (auto simp: str_simps)
  next
    case False
    then obtain i where "i < length bs" "rchr_spec p bs c = p + i" "bs ! i = c"
        "\<forall>j. i < j \<and> j < length bs \<longrightarrow> bs ! j \<noteq> c"
      using snoc by auto
    with False show ?thesis
      by (intro exI [of _ i]) (auto simp: str_simps nth_append less_Suc_eq)
  qed
qed simp

lemma strrchr_loop_cstr:
  "cstr m p xs \<Longrightarrow> p = s + length ys \<Longrightarrow>
   strrchr_loop m p c (rchr_spec s ys c) = Some (rchr_spec s (ys @ xs @ [0]) c)"
proof (induction xs arbitrary: p ys)
  case Nil
  then show ?case by (auto simp: strrchr_loop.simps [of m "s + length ys"] str_simps Let_def)
next
  case (Cons x xs)
  from Cons.IH [of "Suc p" "ys @ [x]"] Cons.prems show ?case
    by (auto simp: strrchr_loop.simps [of m "s + length ys"] str_simps Let_def split: if_splits)
qed

lemma strrchr_cstr:
  assumes "cstr (ram st) s xs"
  shows "strrchr s c st = Some (rchr_spec s (xs @ [0]) (word_of_int c), st)"
  using strrchr_loop_cstr [OF assms, of s "[]" "word_of_int c"] cstr_nonnull [OF assms]
  by (simp add: strrchr_def word_of_int_and_255 str_simps)

lemma memrchr_spec:
  "region m s n \<Longrightarrow> memrchr m s c n = Some (rchr_spec s (slice m s n) (word_of_int c))"
proof (induction n)
  case (Suc n)
  then have "region m s n" "mapped m (s + n)" "slice m s (Suc n) = slice m s n @ [m ! (s + n)]"
    using region_append [of m s n 1] slice_append [of m s n 1] by (simp_all add: region_Suc slice_Suc)
  with Suc.IH show ?case by (simp add: load_def str_simps length_slice)
qed (simp add: str_simps)

section \<open>The contract of strchr, and its callers\<close>

text \<open>
  \<open>strchr\<close> is \<open>__strchr_ppc\<close>, written in assembly. Its callers rely on what \<open>strchr\<close> promises.
\<close>

locale strchr_spec =
  fixes strchr :: "byte list \<Rightarrow> addr \<Rightarrow> int \<Rightarrow> addr option"
  assumes strchr_finds: "ram_ok m \<Longrightarrow> cstr m s xs \<Longrightarrow> strchr m s c = Some (chr_spec s xs (word_of_int c))"
begin

lemma strchr_null_iff:
  "ram_ok m \<Longrightarrow> cstr m s xs \<Longrightarrow> b \<noteq> 0 \<Longrightarrow>
   \<exists>r. strchr m s (uint b) = Some r \<and> (r = NULL \<longleftrightarrow> b \<notin> set xs)"
  using cstr_nonnull [of m s xs] by (auto simp: strchr_finds chr_spec_def)

lemma strchr_found:
  "ram_ok m \<Longrightarrow> cstr m s xs \<Longrightarrow> b \<in> set xs \<Longrightarrow>
   strchr m s (uint b) = Some (s + length (takeWhile (\<lambda>x. x \<noteq> b) xs))"
  by (simp add: strchr_finds chr_spec_def)

end

interpretation glibc: strchr_spec glibc_strchr
  by unfold_locales (rule glibc_strchr_cstr)

function strspn_loop :: "(byte list \<Rightarrow> addr \<Rightarrow> int \<Rightarrow> addr option) \<Rightarrow> byte list \<Rightarrow> addr \<Rightarrow> addr \<Rightarrow> addr option" where
  "strspn_loop strchr m s cset = do {
     c \<leftarrow> load m s;
     if c \<noteq> 0 then do {
       r \<leftarrow> strchr m cset (uint c);
       if r = NULL then Some s else strspn_loop strchr m (s + 1) cset }
     else Some s }"
  by pat_completeness auto
termination
  by (relation "measure (\<lambda>(f, m, s, t). length m - s)") (auto dest!: load_lt)

declare strspn_loop.simps [simp del]

definition strspn :: "(byte list \<Rightarrow> addr \<Rightarrow> int \<Rightarrow> addr option) \<Rightarrow> addr \<Rightarrow> addr \<Rightarrow> clib \<Rightarrow> (size_t \<times> clib) option" where
  "strspn strchr s cset st =
     (if s = NULL \<or> cset = NULL then Some (0, set_errno EFAULT st)
      else do { e \<leftarrow> strspn_loop strchr (ram st) s cset; Some (e - s, st) })"

function strcspn_loop :: "(byte list \<Rightarrow> addr \<Rightarrow> int \<Rightarrow> addr option) \<Rightarrow> byte list \<Rightarrow> addr \<Rightarrow> addr \<Rightarrow> addr option" where
  "strcspn_loop strchr m s cset = do {
     c \<leftarrow> load m s;
     if c \<noteq> 0 then do {
       r \<leftarrow> strchr m cset (uint c);
       if r \<noteq> NULL then Some s else strcspn_loop strchr m (s + 1) cset }
     else Some s }"
  by pat_completeness auto
termination
  by (relation "measure (\<lambda>(f, m, s, t). length m - s)") (auto dest!: load_lt)

declare strcspn_loop.simps [simp del]

definition strcspn :: "(byte list \<Rightarrow> addr \<Rightarrow> int \<Rightarrow> addr option) \<Rightarrow> addr \<Rightarrow> addr \<Rightarrow> clib \<Rightarrow> (size_t \<times> clib) option" where
  "strcspn strchr s cset st =
     (if s = NULL \<or> cset = NULL then Some (0, set_errno EFAULT st)
      else do { e \<leftarrow> strcspn_loop strchr (ram st) s cset; Some (e - s, st) })"

function strpbrk_loop :: "(byte list \<Rightarrow> addr \<Rightarrow> int \<Rightarrow> addr option) \<Rightarrow> byte list \<Rightarrow> addr \<Rightarrow> addr \<Rightarrow> addr option" where
  "strpbrk_loop strchr m s cset = do {
     c \<leftarrow> load m s;
     if c \<noteq> 0 then do {
       r \<leftarrow> strchr m cset (uint c);
       if r \<noteq> NULL then Some s else strpbrk_loop strchr m (s + 1) cset }
     else Some NULL }"
  by pat_completeness auto
termination
  by (relation "measure (\<lambda>(f, m, s, t). length m - s)") (auto dest!: load_lt)

declare strpbrk_loop.simps [simp del]

definition strpbrk :: "(byte list \<Rightarrow> addr \<Rightarrow> int \<Rightarrow> addr option) \<Rightarrow> addr \<Rightarrow> addr \<Rightarrow> clib \<Rightarrow> (addr \<times> clib) option" where
  "strpbrk strchr s cset st =
     (if s = NULL \<or> cset = NULL then Some (NULL, set_errno EFAULT st)
      else do { r \<leftarrow> strpbrk_loop strchr (ram st) s cset; Some (r, st) })"

definition index :: "(byte list \<Rightarrow> addr \<Rightarrow> int \<Rightarrow> addr option) \<Rightarrow> byte list \<Rightarrow> addr \<Rightarrow> int \<Rightarrow> addr option" where
  "index strchr m s c = strchr m s c"

context strchr_spec
begin

lemma strspn_loop_cstr:
  assumes "ram_ok m" "cstr m t ts"
  shows "cstr m s xs \<Longrightarrow> strspn_loop strchr m s t = Some (s + length (takeWhile (\<lambda>b. b \<in> set ts) xs))"
proof (induction xs arbitrary: s)
  case Nil
  then show ?case by (simp add: strspn_loop.simps [of strchr m s])
next
  case (Cons x xs)
  then obtain r where "strchr m t (uint x) = Some r" "r = NULL \<longleftrightarrow> x \<notin> set ts"
    using strchr_null_iff [OF assms, of x] by auto
  with Cons show ?case by (auto simp: strspn_loop.simps [of strchr m s])
qed

lemma strcspn_loop_cstr:
  assumes "ram_ok m" "cstr m t ts"
  shows "cstr m s xs \<Longrightarrow> strcspn_loop strchr m s t = Some (s + length (takeWhile (\<lambda>b. b \<notin> set ts) xs))"
proof (induction xs arbitrary: s)
  case Nil
  then show ?case by (simp add: strcspn_loop.simps [of strchr m s])
next
  case (Cons x xs)
  then obtain r where "strchr m t (uint x) = Some r" "r = NULL \<longleftrightarrow> x \<notin> set ts"
    using strchr_null_iff [OF assms, of x] by auto
  with Cons show ?case by (auto simp: strcspn_loop.simps [of strchr m s])
qed

lemma strpbrk_loop_cstr:
  assumes "ram_ok m" "cstr m t ts"
  shows "cstr m s xs \<Longrightarrow>
    strpbrk_loop strchr m s t = Some (if set xs \<inter> set ts = {} then NULL else s + length (takeWhile (\<lambda>b. b \<notin> set ts) xs))"
proof (induction xs arbitrary: s)
  case Nil
  then show ?case by (simp add: strpbrk_loop.simps [of strchr m s])
next
  case (Cons x xs)
  then obtain r where "strchr m t (uint x) = Some r" "r = NULL \<longleftrightarrow> x \<notin> set ts"
    using strchr_null_iff [OF assms, of x] by auto
  with Cons show ?case by (auto simp: strpbrk_loop.simps [of strchr m s])
qed

lemma strspn_spec:
  assumes "ram_ok (ram st)" "cstr (ram st) s xs" "cstr (ram st) t ts"
  shows "strspn strchr s t st = Some (length (takeWhile (\<lambda>b. b \<in> set ts) xs), st)"
  using strspn_loop_cstr [OF assms(1,3,2)] assms(2,3) [THEN cstr_nonnull] by (simp add: strspn_def)

lemma strcspn_spec:
  assumes "ram_ok (ram st)" "cstr (ram st) s xs" "cstr (ram st) t ts"
  shows "strcspn strchr s t st = Some (length (takeWhile (\<lambda>b. b \<notin> set ts) xs), st)"
  using strcspn_loop_cstr [OF assms(1,3,2)] assms(2,3) [THEN cstr_nonnull] by (simp add: strcspn_def)

lemma strpbrk_spec:
  assumes "ram_ok (ram st)" "cstr (ram st) s xs" "cstr (ram st) t ts"
  shows "strpbrk strchr s t st =
    Some (if set xs \<inter> set ts = {} then NULL else s + length (takeWhile (\<lambda>b. b \<notin> set ts) xs), st)"
  using strpbrk_loop_cstr [OF assms(1,3,2)] assms(2,3) [THEN cstr_nonnull] by (simp add: strpbrk_def)

end

section \<open>What the searches return\<close>

text \<open>C10. \<open>memchr\<close> (byte loop, exact word test on the XORed words, byte tail) returns the first
  occurrence of the byte in the \<open>n\<close> bytes at \<open>p\<close>, and NULL if there is none; it reads nothing else.\<close>

theorem memchr_correct:
  assumes "ram_ok (ram st)" "region (ram st) p n" "0 < n"
  shows "memchr p v n st = Some (mchr_spec p (slice (ram st) p n) (word_of_int v), st)"
  using assms by (rule memchr_spec)

theorem memchr_correct_witness:
  "memchr 6 (256 + 7) 5 \<lparr>ram = [0, 0, 0, 0, 7, 7, 1, 0, 128, 7, 9, 9], errno = 0\<rparr> =
   Some (9, \<lparr>ram = [0, 0, 0, 0, 7, 7, 1, 0, 128, 7, 9, 9], errno = 0\<rparr>)"
  using memchr_correct [of "\<lparr>ram = [0, 0, 0, 0, 7, 7, 1, 0, 128, 7, 9, 9], errno = 0\<rparr>" 6 5 "256 + 7"]
  by (simp add: ram_ok_def region_def slice_def mchr_spec_def)

text \<open>C11. \<open>strchrnul\<close> returns the address of the first occurrence of the character, and the address
  of the terminator where the character does not occur.\<close>

theorem strchrnul_correct:
  assumes "ram_ok m" "cstr m s xs"
  shows "strchrnul m s c = Some (s + length (takeWhile (\<lambda>b. b \<noteq> word_of_int c) xs))"
  using strchrnul_cstr [OF assms] by (simp add: chrnul_spec_def)

theorem strchrnul_correct_witness:
  "strchrnul [0, 0, 0, 0, 1, 72, 128, 33, 34, 33, 0, 9] 5 99 = Some 10"
  using strchrnul_correct [of "[0, 0, 0, 0, 1, 72, 128, 33, 34, 33, 0, 9]" 5 "[72, 128, 33, 34, 33]" 99]
  by (simp add: ram_ok_def load_def mapped_def)

text \<open>C12. \<open>strrchr\<close> returns the last position of the string, terminator included, that holds the
  character, and NULL exactly when no position does.\<close>

theorem strrchr_correct:
  assumes "cstr (ram st) s xs"
  shows "\<exists>r. strrchr s c st = Some (r, st) \<and>
    (r = NULL \<longleftrightarrow> word_of_int c \<notin> set (xs @ [0])) \<and>
    (r \<noteq> NULL \<longrightarrow> (\<exists>i \<le> length xs. r = s + i \<and> (xs @ [0]) ! i = word_of_int c \<and>
       (\<forall>j. i < j \<and> j \<le> length xs \<longrightarrow> (xs @ [0]) ! j \<noteq> word_of_int c)))"
proof (cases "word_of_int c \<in> set (xs @ [0])")
  case True
  from rchr_spec_last [OF this, of s] obtain i where "i \<le> length xs"
    "rchr_spec s (xs @ [0]) (word_of_int c) = s + i" "(xs @ [0]) ! i = word_of_int c"
    "\<forall>j. i < j \<and> j \<le> length xs \<longrightarrow> (xs @ [0]) ! j \<noteq> word_of_int c"
    by (auto simp: less_Suc_eq_le)
  with True strrchr_cstr [OF assms, of c] cstr_nonnull [OF assms] show ?thesis by auto
next
  case False
  with strrchr_cstr [OF assms, of c] show ?thesis by (simp add: rchr_spec_def)
qed

theorem strrchr_correct_witness:
  "\<exists>r. strrchr 4 47 \<lparr>ram = [0, 0, 0, 0, 47, 97, 47, 98, 0], errno = 0\<rparr> = Some (r, \<lparr>ram = [0, 0, 0, 0, 47, 97, 47, 98, 0], errno = 0\<rparr>)
     \<and> (r = NULL \<longleftrightarrow> (47 :: byte) \<notin> set ([47, 97, 47, 98] @ [0]))"
  using strrchr_correct [of "\<lparr>ram = [0, 0, 0, 0, 47, 97, 47, 98, 0], errno = 0\<rparr>" 4 "[47, 97, 47, 98]" 47]
  by (auto simp: load_def mapped_def)

text \<open>C13. Whatever \<open>strchr\<close> meets the contract, \<open>strspn\<close> and \<open>strcspn\<close> return the length of the
  longest prefix of characters in, respectively not in, the set.\<close>

theorem strspn_strcspn_correct:
  assumes "strchr_spec strchr" "ram_ok (ram st)" "cstr (ram st) s xs" "cstr (ram st) t ts"
  shows "strspn strchr s t st = Some (length (takeWhile (\<lambda>b. b \<in> set ts) xs), st) \<and>
    strcspn strchr s t st = Some (length (takeWhile (\<lambda>b. b \<notin> set ts) xs), st)"
  using strchr_spec.strspn_spec [OF assms] strchr_spec.strcspn_spec [OF assms] by simp

theorem strspn_strcspn_correct_witness:
  "strspn glibc_strchr 4 8 \<lparr>ram = [0, 0, 0, 0, 5, 6, 7, 0, 6, 5, 0, 0], errno = 0\<rparr> =
     Some (2, \<lparr>ram = [0, 0, 0, 0, 5, 6, 7, 0, 6, 5, 0, 0], errno = 0\<rparr>)"
  using strspn_strcspn_correct [OF glibc.strchr_spec_axioms,
      of "\<lparr>ram = [0, 0, 0, 0, 5, 6, 7, 0, 6, 5, 0, 0], errno = 0\<rparr>" 4 "[5, 6, 7]" 8 "[6, 5]"]
  by (simp add: ram_ok_def load_def mapped_def)

end
