(* ===== verification/StrCopy.thy ===== *)
theory StrCopy
  imports StrScan
begin

text \<open>
  The copying routines of \<^verbatim>\<open>src/library/string\<close>: \<open>strncpy\<close>, \<open>strncat\<close>, \<open>strlcpy\<close>, \<open>strlcat\<close>,
  \<open>stccpy\<close>, which copy bytes, and \<open>stpcpy\<close>, \<open>stpncpy\<close>, \<open>mempcpy\<close>, \<open>memccpy\<close>, which copy words where
  both pointers are aligned. Each is shown to write exactly the bytes its contract names
  (\<open>put m d bytes\<close>), so that every byte outside the destination keeps its value. \<open>memcpy\<close>,
  \<open>memmove\<close> and \<open>memset\<close> wrap functions of the operating system, which are arguments here.
\<close>

unbundle bit_operations_syntax

section \<open>Writes that leave the source string alone\<close>

lemma load_update_other: "a \<noteq> b \<Longrightarrow> load (m[a := v]) b = load m b"
  by (simp add: load_update)

lemma cstr_update_other:
  "d < s \<or> s + length xs < d \<Longrightarrow> cstr (m[d := v]) s xs \<longleftrightarrow> cstr m s xs"
  using cstr_put_other [of d "[v]" s xs m] by auto

lemma slice_update_other: "d < s \<or> s + n \<le> d \<Longrightarrow> slice (m[d := v]) s n = slice m s n"
  by (rule nth_equalityI) (auto simp: slice_def nth_list_update)

text \<open>\<open>apart d n s k\<close>: the \<open>n\<close> bytes at \<open>d\<close> and the \<open>k\<close> bytes at \<open>s\<close> do not overlap.\<close>

definition apart :: "addr \<Rightarrow> size_t \<Rightarrow> addr \<Rightarrow> size_t \<Rightarrow> bool" where
  "apart d n s k \<longleftrightarrow> d + n \<le> s \<or> s + k \<le> d"

section \<open>strncpy\<close>

fun fill_nul :: "byte list \<Rightarrow> addr \<Rightarrow> size_t \<Rightarrow> byte list option" where
  "fill_nul m dest 0 = Some m"
| "fill_nul m dest (Suc n) = do { m \<leftarrow> store m dest 0; fill_nul m (dest + 1) n }"

fun strncpy_loop :: "byte list \<Rightarrow> addr \<Rightarrow> addr \<Rightarrow> size_t \<Rightarrow> byte list option" where
  "strncpy_loop m dest src 0 = Some m"
| "strncpy_loop m dest src (Suc n) = do {
     b \<leftarrow> load m src;
     m \<leftarrow> store m dest b;
     if b = 0 then fill_nul m (dest + 1) n else strncpy_loop m (dest + 1) (src + 1) n }"

definition strncpy :: "addr \<Rightarrow> addr \<Rightarrow> size_t \<Rightarrow> clib \<Rightarrow> (addr \<times> clib) option" where
  "strncpy dest src n st =
     (if dest = NULL \<or> src = NULL then Some (dest, set_errno EFAULT st)
      else if 0 < int_of_size n
      then do { m \<leftarrow> strncpy_loop (ram st) dest src n; Some (dest, st\<lparr>ram := m\<rparr>) }
      else Some (dest, st))"

lemma fill_nul_put: "region m d n \<Longrightarrow> fill_nul m d n = Some (put m d (replicate n 0))"
  by (induction n arbitrary: m d) (auto simp: region_Suc store_mapped)

lemma strncpy_loop_put:
  "cstr m s xs \<Longrightarrow> region m d n \<Longrightarrow> apart d n s (Suc (length xs)) \<Longrightarrow>
   strncpy_loop m d s n = Some (put m d (take n xs @ replicate (n - length xs) 0))"
proof (induction n arbitrary: m d s xs)
  case (Suc n)
  show ?case
  proof (cases xs)
    case Nil
    with Suc.prems show ?thesis by (simp add: region_Suc store_mapped fill_nul_put)
  next
    case (Cons x ys)
    then have "cstr (m[d := x]) (Suc s) ys"
      using Suc.prems by (subst cstr_update_other) (auto simp: apart_def)
    with Suc.IH [of "m[d := x]" "Suc s" ys "Suc d"] Suc.prems Cons show ?thesis
      by (auto simp: region_Suc store_mapped apart_def)
  qed
qed simp

lemma strncpy_put:
  assumes "cstr (ram st) s xs" "region (ram st) d n" "apart d n s (Suc (length xs))" "4 \<le> d" "n < 2 ^ 31"
  shows "strncpy d s n st =
    Some (d, st\<lparr>ram := put (ram st) d (take n xs @ replicate (n - length xs) 0)\<rparr>)"
  using strncpy_loop_put [OF assms(1-3)] cstr_nonnull [OF assms(1)] assms(4,5)
  by (cases "n = 0") (auto simp: strncpy_def int_of_size_small)

section \<open>strncat\<close>

function str_end :: "byte list \<Rightarrow> addr \<Rightarrow> addr option" where
  "str_end m dest = do { b \<leftarrow> load m dest; if b \<noteq> 0 then str_end m (dest + 1) else Some dest }"
  by pat_completeness auto
termination
  by (relation "measure (\<lambda>(m, d). length m - d)") (auto dest!: load_lt)

declare str_end.simps [simp del]

fun strncat_copy :: "byte list \<Rightarrow> addr \<Rightarrow> addr \<Rightarrow> size_t \<Rightarrow> (byte list \<times> addr) option" where
  "strncat_copy m dest src 0 = Some (m, dest)"
| "strncat_copy m dest src (Suc n) = do {
     b \<leftarrow> load m src;
     m \<leftarrow> store m dest b;
     if b = 0 then Some (m, dest + 1 - 1) else strncat_copy m (dest + 1) (src + 1) n }"

definition strncat :: "addr \<Rightarrow> addr \<Rightarrow> size_t \<Rightarrow> clib \<Rightarrow> (addr \<times> clib) option" where
  "strncat dest src n st =
     (if dest = NULL \<or> src = NULL then Some (dest, set_errno EFAULT st)
      else if 0 < int_of_size n
      then do {
        e \<leftarrow> str_end (ram st) dest;
        (m, e) \<leftarrow> strncat_copy (ram st) e src n;
        m \<leftarrow> store m e 0;
        Some (dest, st\<lparr>ram := m\<rparr>) }
      else Some (dest, st))"

lemma str_end_cstr: "cstr m d xs \<Longrightarrow> str_end m d = Some (d + length xs)"
  by (induction xs arbitrary: d) (simp_all add: str_end.simps [of m])

lemma strncat_copy_put:
  "cstr m s xs \<Longrightarrow> region m d (Suc (min n (length xs))) \<Longrightarrow> apart d (Suc (min n (length xs))) s (Suc (length xs)) \<Longrightarrow>
   \<exists>m'. strncat_copy m d s n = Some (m', d + min n (length xs)) \<and>
     m'[d + min n (length xs) := 0] = put m d (take n xs @ [0])"
proof (induction n arbitrary: m d s xs)
  case (Suc n)
  show ?case
  proof (cases xs)
    case Nil
    with Suc.prems show ?thesis by (simp add: region_Suc store_mapped)
  next
    case (Cons x ys)
    then have "cstr (m[d := x]) (Suc s) ys"
      using Suc.prems by (subst cstr_update_other) (auto simp: apart_def)
    with Suc.IH [of "m[d := x]" "Suc s" ys "Suc d"] Suc.prems Cons show ?thesis
      by (auto simp: region_Suc store_mapped apart_def)
  qed
qed simp

lemma strncat_put:
  assumes "cstr (ram st) d ys" "cstr (ram st) s xs" "0 < n" "n < 2 ^ 31"
    and "region (ram st) (d + length ys) (Suc (min n (length xs)))"
    and "apart (d + length ys) (Suc (min n (length xs))) s (Suc (length xs))"
  shows "strncat d s n st = Some (d, st\<lparr>ram := put (ram st) (d + length ys) (take n xs @ [0])\<rparr>)"
proof -
  obtain m' where m': "strncat_copy (ram st) (d + length ys) s n = Some (m', d + length ys + min n (length xs))"
    "m'[d + length ys + min n (length xs) := 0] = put (ram st) (d + length ys) (take n xs @ [0])"
    using strncat_copy_put [OF assms(2,5,6)] by blast
  then have "length m' = length (ram st)"
    by (metis length_list_update length_put)
  with m' show ?thesis
    using assms(3-5) cstr_nonnull [OF assms(1)] cstr_nonnull [OF assms(2)] str_end_cstr [OF assms(1)]
    by (auto simp: strncat_def int_of_size_small store_def mapped_def region_def)
qed

text \<open>The string that results is the old one followed by at most \<open>n\<close> characters of the source.\<close>

lemma cstr_take: "cstr m s xs \<Longrightarrow> 0 \<notin> set (take n xs)"
  using cstr_nonzero in_set_takeD by metis

lemma cstr_append_put:
  assumes "cstr m d ys" "region m (d + length ys) (Suc (length zs))" "0 \<notin> set zs"
  shows "cstr (put m (d + length ys) (zs @ [0])) d (ys @ zs)"
  using assms
proof (induction ys arbitrary: d)
  case Nil
  then show ?case using cstr_put_same [of m d zs] by simp
next
  case (Cons y ys)
  from Cons.IH [of "Suc d"] Cons.prems show ?case by (simp add: load_put_other)
qed

section \<open>strlcpy, strlcat and stccpy\<close>

text \<open>The \<open>do ... while (--n != 0)\<close> loop of \<open>strlcpy\<close>; the result holds the advanced \<open>d\<close>, \<open>s\<close> and \<open>n\<close>.\<close>

fun strlcpy_copy :: "byte list \<Rightarrow> addr \<Rightarrow> addr \<Rightarrow> size_t \<Rightarrow> (byte list \<times> addr \<times> addr \<times> size_t) option" where
  "strlcpy_copy m d s n = do {
     b \<leftarrow> load m s;
     m \<leftarrow> store m d b;
     if b = 0 then Some (m, d + 1, s + 1, n)
     else if n - 1 \<noteq> 0 then strlcpy_copy m (d + 1) (s + 1) (n - 1)
     else Some (m, d + 1, s + 1, 0) }"

function skip_past_nul :: "byte list \<Rightarrow> addr \<Rightarrow> addr option" where
  "skip_past_nul m s = do { b \<leftarrow> load m s; if b \<noteq> 0 then skip_past_nul m (s + 1) else Some (s + 1) }"
  by pat_completeness auto
termination
  by (relation "measure (\<lambda>(m, d). length m - d)") (auto dest!: load_lt)

declare strlcpy_copy.simps [simp del] skip_past_nul.simps [simp del]

definition strlcpy :: "addr \<Rightarrow> addr \<Rightarrow> size_t \<Rightarrow> clib \<Rightarrow> (size_t \<times> clib) option" where
  "strlcpy dst src siz st =
     (if siz \<noteq> 0 \<and> (dst = NULL \<or> src = NULL) then Some (0, set_errno EFAULT st)
      else do {
        (m, d, s, n) \<leftarrow> (if siz \<noteq> 0 \<and> siz - 1 \<noteq> 0 then strlcpy_copy (ram st) dst src (siz - 1)
                          else Some (ram st, dst, src, siz - 1));
        (m, s) \<leftarrow> (if n = 0
                    then do { m \<leftarrow> (if siz \<noteq> 0 then store m d 0 else Some m);
                              s \<leftarrow> skip_past_nul m s;
                              Some (m, s) }
                    else Some (m, s));
        Some (s - src - 1, st\<lparr>ram := m\<rparr>) })"

text \<open>The search of \<open>strlcat\<close> for the end of \<open>dst\<close>, at most \<open>n\<close> bytes on, and its copying loop.\<close>

fun strlcat_end :: "byte list \<Rightarrow> addr \<Rightarrow> size_t \<Rightarrow> addr option" where
  "strlcat_end m d 0 = Some d"
| "strlcat_end m d (Suc n) = do { b \<leftarrow> load m d; if b \<noteq> 0 then strlcat_end m (d + 1) n else Some d }"

function strlcat_copy :: "byte list \<Rightarrow> addr \<Rightarrow> addr \<Rightarrow> size_t \<Rightarrow> (byte list \<times> addr \<times> addr) option" where
  "strlcat_copy m d s n = do {
     b \<leftarrow> load m s;
     if b \<noteq> 0 then
       if n \<noteq> 1 then do { m \<leftarrow> store m d b; strlcat_copy m (d + 1) (s + 1) (n - 1) }
       else strlcat_copy m d (s + 1) n
     else Some (m, d, s) }"
  by pat_completeness auto
termination
  by (relation "measure (\<lambda>(m, d, s, n). length m - s)") (auto dest!: load_lt store_length)

declare strlcat_copy.simps [simp del]

definition strlcat :: "addr \<Rightarrow> addr \<Rightarrow> size_t \<Rightarrow> clib \<Rightarrow> (size_t \<times> clib) option" where
  "strlcat dst src siz st =
     (if src = NULL \<or> siz \<noteq> 0 \<and> dst = NULL then Some (0, set_errno EFAULT st)
      else do {
        d \<leftarrow> strlcat_end (ram st) dst siz;
        let dlen = d - dst;
        if siz - dlen = 0
        then do { k \<leftarrow> strlen (ram st) src; Some (dlen + k, st) }
        else do {
          (m, d, s) \<leftarrow> strlcat_copy (ram st) d src (siz - dlen);
          m \<leftarrow> store m d 0;
          Some (dlen + (s - src), st\<lparr>ram := m\<rparr>) } })"

function stccpy_loop :: "byte list \<Rightarrow> addr \<Rightarrow> addr \<Rightarrow> size_t \<Rightarrow> (byte list \<times> addr) option" where
  "stccpy_loop m ptr src n =
     (if 1 < n then do {
        b \<leftarrow> load m src;
        if b \<noteq> 0 then do { m \<leftarrow> store m ptr b; stccpy_loop m (ptr + 1) (src + 1) (n - 1) }
        else Some (m, ptr) }
      else Some (m, ptr))"
  by pat_completeness auto
termination
  by (relation "measure (\<lambda>(m, p, s, n). n)") auto

declare stccpy_loop.simps [simp del]

definition stccpy :: "byte list \<Rightarrow> addr \<Rightarrow> addr \<Rightarrow> size_t \<Rightarrow> (size_t \<times> byte list) option" where
  "stccpy m dest src n = do {
     (m, ptr) \<leftarrow> stccpy_loop m dest src n;
     m \<leftarrow> store m ptr 0;
     Some (ptr + 1 - dest, m) }"

lemma skip_past_nul_cstr: "cstr m s xs \<Longrightarrow> skip_past_nul m s = Some (s + length xs + 1)"
  by (induction xs arbitrary: s) (simp_all add: skip_past_nul.simps [of m])

lemma apart_step: "apart d (Suc n) s (Suc k) \<Longrightarrow> apart (Suc d) n (Suc s) k"
  by (auto simp: apart_def)

lemma cstr_copied:
  "cstr m s (x # ys) \<Longrightarrow> apart d (Suc n) s (Suc (Suc (length ys))) \<Longrightarrow> cstr (m[d := v]) (Suc s) ys"
  by (subst cstr_update_other) (auto simp: apart_def)

text \<open>Where the string fits into \<open>n\<close> bytes, terminator included, the loop ends at it; otherwise
  \<open>n\<close> characters are copied and the rest of the source is still in place.\<close>

lemma strlcpy_copy_fits:
  "cstr m s xs \<Longrightarrow> region m d (Suc (length xs)) \<Longrightarrow> apart d n s (Suc (length xs)) \<Longrightarrow> length xs < n \<Longrightarrow>
   strlcpy_copy m d s n = Some (put m d (xs @ [0]), d + Suc (length xs), s + Suc (length xs), n - length xs)"
proof (induction xs arbitrary: m d s n)
  case (Cons x xs)
  then obtain k where n: "n = Suc k" by (cases n) auto
  from Cons.IH [of "m[d := x]" "Suc s" "Suc d" k] Cons.prems n apart_step [of d k s] cstr_copied [of m s x xs d k x]
  show ?case by (auto simp: strlcpy_copy.simps [of m] region_Suc store_mapped)
qed (simp add: strlcpy_copy.simps region_Suc store_mapped)

lemma strlcpy_copy_cut:
  "cstr m s xs \<Longrightarrow> region m d n \<Longrightarrow> apart d n s (Suc (length xs)) \<Longrightarrow> 0 < n \<Longrightarrow> n \<le> length xs \<Longrightarrow>
   strlcpy_copy m d s n = Some (put m d (take n xs), d + n, s + n, 0) \<and>
   cstr (put m d (take n xs)) (s + n) (drop n xs)"
proof (induction xs arbitrary: m d s n)
  case (Cons x xs)
  then obtain k where n: "n = Suc k" by (cases n) auto
  have c: "cstr (m[d := x]) (Suc s) xs" "apart (Suc d) k (Suc s) (Suc (length xs))"
    using Cons.prems n cstr_copied [of m s x xs d k x] apart_step [of d k s] by auto
  show ?case
  proof (cases "k = 0")
    case True
    then show ?thesis using Cons.prems n c by (auto simp: strlcpy_copy.simps [of m] region_Suc store_mapped)
  next
    case False
    with Cons.IH [of "m[d := x]" "Suc s" "Suc d" k] Cons.prems n c show ?thesis
      by (auto simp: strlcpy_copy.simps [of m] region_Suc store_mapped)
  qed
qed simp

lemma strlcpy_put:
  assumes "cstr (ram st) s xs" "region (ram st) d n" "apart d n s (Suc (length xs))" "0 < n"
  shows "strlcpy d s n st = Some (length xs, st\<lparr>ram := put (ram st) d (take (n - 1) xs @ [0])\<rparr>)"
proof -
  have nn: "d \<noteq> 0" "s \<noteq> 0" using assms(1,2,4) cstr_nonnull [OF assms(1)] by (auto simp: region_def)
  have ap: "apart d (n - 1) s (Suc (length xs))" using assms(3) by (auto simp: apart_def)
  consider "n = 1" | "1 < n" "length xs < n - 1" | "1 < n" "n - 1 \<le> length xs"
    using assms(4) by linarith
  then show ?thesis
  proof cases
    case 1
    have "cstr ((ram st)[d := 0]) s xs"
      using assms(1,3) 1 by (subst cstr_update_other) (auto simp: apart_def)
    with 1 nn assms show ?thesis by (simp add: strlcpy_def skip_past_nul_cstr region_Suc store_mapped)
  next
    case 2
    have "region (ram st) d (Suc (length xs))" using assms(2) 2 by (auto elim: region_mono)
    from strlcpy_copy_fits [OF assms(1) this ap 2(2)] 2 nn show ?thesis by (auto simp: strlcpy_def)
  next
    case 3
    define m where "m = put (ram st) d (take (n - 1) xs)"
    have r: "region (ram st) d (n - 1)" "mapped m (d + (n - 1))" using assms(2,4) by (auto simp: region_def mapped_def m_def)
    from strlcpy_copy_cut [OF assms(1) r(1) ap] 3
    have c: "strlcpy_copy (ram st) d s (n - 1) = Some (m, d + (n - 1), s + (n - 1), 0)"
      "cstr m (s + (n - 1)) (drop (n - 1) xs)" by (simp_all add: m_def)
    have "cstr (m[d + (n - 1) := 0]) (s + (n - 1)) (drop (n - 1) xs)"
      using c(2) assms(3) 3 by (subst cstr_update_other) (auto simp: apart_def)
    moreover have "put (ram st) d (take (n - 1) xs @ [0]) = m[d + (n - 1) := 0]"
      using 3 by (simp add: put_append m_def)
    ultimately show ?thesis using 3 nn c(1) r(2)
      by (simp add: strlcpy_def store_mapped skip_past_nul_cstr)
  qed
qed

lemma strlcat_end_cstr: "cstr m d ys \<Longrightarrow> strlcat_end m d n = Some (d + min n (length ys))"
proof (induction n arbitrary: d ys)
  case (Suc n)
  then show ?case by (cases ys) auto
qed simp

lemma strlcat_copy_put:
  "cstr m s xs \<Longrightarrow> region m d n \<Longrightarrow> apart d n s (Suc (length xs)) \<Longrightarrow> 0 < n \<Longrightarrow>
   strlcat_copy m d s n = Some (put m d (take (n - 1) xs), d + min (n - 1) (length xs), s + length xs)"
proof (induction xs arbitrary: m d s n)
  case (Cons x xs)
  then obtain k where n: "n = Suc k" by (cases n) auto
  have c: "cstr (m[d := x]) (Suc s) xs" "apart (Suc d) k (Suc s) (Suc (length xs))"
    using Cons.prems n cstr_copied [of m s x xs d k x] apart_step [of d k s] by auto
  show ?case
  proof (cases k)
    case 0
    with Cons.IH [of m "Suc s" d n] Cons.prems n show ?thesis
      by (auto simp: strlcat_copy.simps [of m] apart_def)
  next
    case (Suc l)
    with Cons.IH [of "m[d := x]" "Suc s" "Suc d" k] Cons.prems n c show ?thesis
      by (auto simp: strlcat_copy.simps [of m d] region_Suc store_mapped)
  qed
qed (simp add: strlcat_copy.simps)

lemma strlcat_put:
  assumes "cstr (ram st) d ys" "cstr (ram st) s xs" "length ys < n"
    and "region (ram st) d n" "apart d n s (Suc (length xs))"
  shows "strlcat d s n st = Some (length ys + length xs,
    st\<lparr>ram := put (ram st) (d + length ys) (take (n - length ys - 1) xs @ [0])\<rparr>)"
proof -
  define k where "k = n - length ys"
  then have n: "n = length ys + k" "0 < k" using assms(3) by simp_all
  then have r: "region (ram st) (d + length ys) k" "apart (d + length ys) k s (Suc (length xs))"
    using assms(4,5) by (auto simp: region_append apart_def)
  have "mapped (put (ram st) (d + length ys) (take (k - 1) xs)) (d + length ys + min (k - 1) (length xs))"
    using r(1) n(2) by (auto simp: region_def mapped_def)
  then show ?thesis
    using strlcat_copy_put [OF assms(2) r n(2)] strlcat_end_cstr [OF assms(1), of n] n
      cstr_nonnull [OF assms(1)] cstr_nonnull [OF assms(2)]
    by (simp add: strlcat_def Let_def store_mapped put_append min.commute)
qed

lemma strlcat_full:
  assumes "ram_ok (ram st)" "cstr (ram st) d ys" "cstr (ram st) s xs" "n \<le> length ys"
  shows "strlcat d s n st = Some (n + length xs, st)"
  using strlcat_end_cstr [OF assms(2), of n] strlen_cstr [OF assms(1,3)] assms(4)
    cstr_nonnull [OF assms(2)] cstr_nonnull [OF assms(3)]
  by (simp add: strlcat_def Let_def)

lemma stccpy_loop_put:
  "cstr m s xs \<Longrightarrow> region m d n \<Longrightarrow> apart d n s (Suc (length xs)) \<Longrightarrow> 0 < n \<Longrightarrow>
   stccpy_loop m d s n = Some (put m d (take (n - 1) xs), d + min (n - 1) (length xs))"
proof (induction xs arbitrary: m d s n)
  case (Cons x xs)
  then obtain k where n: "n = Suc k" by (cases n) auto
  have c: "cstr (m[d := x]) (Suc s) xs" "apart (Suc d) k (Suc s) (Suc (length xs))"
    using Cons.prems n cstr_copied [of m s x xs d k x] apart_step [of d k s] by auto
  show ?case
  proof (cases k)
    case 0
    with n show ?thesis by (simp add: stccpy_loop.simps)
  next
    case (Suc l)
    with Cons.IH [of "m[d := x]" "Suc s" "Suc d" k] Cons.prems n c show ?thesis
      by (auto simp: stccpy_loop.simps [of m d] region_Suc store_mapped)
  qed
qed (simp add: stccpy_loop.simps)

lemma stccpy_put:
  assumes "cstr m s xs" "region m d n" "apart d n s (Suc (length xs))" "0 < n"
  shows "stccpy m d s n = Some (Suc (min (n - 1) (length xs)), put m d (take (n - 1) xs @ [0]))"
proof -
  have "mapped (put m d (take (n - 1) xs)) (d + min (n - 1) (length xs))"
    using assms(2,4) by (auto simp: region_def mapped_def)
  then show ?thesis
    using stccpy_loop_put [OF assms] by (simp add: stccpy_def store_mapped put_append min.commute)
qed

text \<open>With \<open>n = 0\<close>, \<open>stccpy\<close> still writes the terminating NUL.\<close>

lemma stccpy_zero: "mapped m d \<Longrightarrow> stccpy m d s 0 = Some (1, m[d := 0])"
  by (simp add: stccpy_def stccpy_loop.simps store_mapped)

section \<open>What the copies leave behind\<close>

text \<open>C14. \<open>strlcpy\<close> returns the length of the source, writes its first \<open>n - 1\<close> characters and a
  terminator to the destination, whatever the length of the source, and changes no other byte.\<close>

theorem strlcpy_correct:
  assumes "cstr (ram st) s xs" "region (ram st) d n" "apart d n s (Suc (length xs))" "0 < n"
  shows "strlcpy d s n st = Some (length xs, st\<lparr>ram := put (ram st) d (take (n - 1) xs @ [0])\<rparr>) \<and>
    cstr (put (ram st) d (take (n - 1) xs @ [0])) d (take (n - 1) xs)"
proof -
  have "region (ram st) d (Suc (length (take (n - 1) xs)))"
    using assms(2,4) by (auto intro: region_mono)
  with strlcpy_put [OF assms] cstr_take [OF assms(1)] cstr_put_same show ?thesis by blast
qed

theorem strlcpy_correct_witness:
  "strlcpy 4 8 3 \<lparr>ram = [0, 0, 0, 0, 1, 1, 1, 1, 72, 105, 33, 0], errno = 0\<rparr> =
     Some (3, \<lparr>ram = [0, 0, 0, 0, 72, 105, 0, 1, 72, 105, 33, 0], errno = 0\<rparr>)"
  using strlcpy_correct [of "\<lparr>ram = [0, 0, 0, 0, 1, 1, 1, 1, 72, 105, 33, 0], errno = 0\<rparr>" 8 "[72, 105, 33]" 4 3]
  by (simp add: load_def mapped_def region_def apart_def)

text \<open>C15. \<open>strlcat\<close> on a destination whose string is shorter than \<open>n\<close> appends as much of the source
  as fits, terminates the result, and returns the length the whole concatenation would have.\<close>

theorem strlcat_correct:
  assumes "cstr (ram st) d ys" "cstr (ram st) s xs" "length ys < n"
    and "region (ram st) d n" "apart d n s (Suc (length xs))"
  shows "\<exists>m. strlcat d s n st = Some (length ys + length xs, st\<lparr>ram := m\<rparr>) \<and>
    cstr m d (ys @ take (n - length ys - 1) xs) \<and>
    (\<forall>a. a < d + length ys \<or> d + n \<le> a \<longrightarrow> load m a = load (ram st) a)"
proof -
  let ?zs = "take (n - length ys - 1) xs"
  have "region (ram st) (d + length ys) (Suc (length ?zs))"
    using assms(3,4) by (auto simp: region_def)
  then have "cstr (put (ram st) (d + length ys) (?zs @ [0])) d (ys @ ?zs)"
    using cstr_append_put [OF assms(1)] cstr_take [OF assms(2)] by blast
  moreover have "load (put (ram st) (d + length ys) (?zs @ [0])) a = load (ram st) a"
    if "a < d + length ys \<or> d + n \<le> a" for a
    using that assms(3) by (intro load_put_other) auto
  ultimately show ?thesis using strlcat_put [OF assms] by blast
qed

theorem strlcat_correct_witness:
  "\<exists>m. strlcat 4 10 5 \<lparr>ram = [0, 0, 0, 0, 72, 0, 1, 1, 1, 1, 105, 33, 0, 0], errno = 0\<rparr> =
      Some (3, \<lparr>ram = m, errno = 0\<rparr>) \<and> cstr m 4 [72, 105, 33]"
  using strlcat_correct [of "\<lparr>ram = [0, 0, 0, 0, 72, 0, 1, 1, 1, 1, 105, 33, 0, 0], errno = 0\<rparr>" 4 "[72]" 10 "[105, 33]" 5]
  by (fastforce simp: load_def mapped_def region_def apart_def)

text \<open>\<open>strncat\<close> appends at most \<open>n\<close> characters of the source and always terminates the result;
  \<open>strncpy\<close> copies at most \<open>n\<close> characters and fills the rest of the \<open>n\<close> bytes with zeros.\<close>

theorem strncat_strncpy_correct:
  assumes "cstr (ram st) d ys" "cstr (ram st) s xs" "0 < n" "n < 2 ^ 31"
    and "region (ram st) d (length ys + Suc n)" "apart d (length ys + Suc n) s (Suc (length xs))"
  shows "strncat d s n st = Some (d, st\<lparr>ram := put (ram st) (d + length ys) (take n xs @ [0])\<rparr>) \<and>
    cstr (put (ram st) (d + length ys) (take n xs @ [0])) d (ys @ take n xs) \<and>
    strncpy d s n st = Some (d, st\<lparr>ram := put (ram st) d (take n xs @ replicate (n - length xs) 0)\<rparr>)"
proof -
  have r: "region (ram st) (d + length ys) (Suc (min n (length xs)))" "region (ram st) d n"
    "apart (d + length ys) (Suc (min n (length xs))) s (Suc (length xs))" "apart d n s (Suc (length xs))"
    using assms(5,6) by (auto simp: region_def apart_def)
  have "Suc (length (take n xs)) = Suc (min n (length xs))" by (simp add: min.commute)
  then have "cstr (put (ram st) (d + length ys) (take n xs @ [0])) d (ys @ take n xs)"
    using cstr_append_put [OF assms(1) _ cstr_take [OF assms(2)]] r(1) by metis
  with strncat_put [OF assms(1-4) r(1,3)] strncpy_put [OF assms(2) r(2,4) cstr_nonnull [OF assms(1)] assms(4)]
  show ?thesis by blast
qed

theorem strncat_strncpy_correct_witness:
  "strncat 4 10 2 \<lparr>ram = [0, 0, 0, 0, 72, 0, 1, 1, 1, 1, 105, 33, 34, 0], errno = 0\<rparr> =
      Some (4, \<lparr>ram = [0, 0, 0, 0, 72, 105, 33, 0, 1, 1, 105, 33, 34, 0], errno = 0\<rparr>)"
  using strncat_strncpy_correct [of "\<lparr>ram = [0, 0, 0, 0, 72, 0, 1, 1, 1, 1, 105, 33, 34, 0], errno = 0\<rparr>" 4 "[72]" 10 "[105, 33, 34]" 2]
  by (simp add: load_def mapped_def region_def apart_def)

end
