(* ===== verification/Ctype.thy ===== *)
theory Ctype
  imports CMem
begin

text \<open>
  The character functions of \<^verbatim>\<open>src/library/ctype\<close>. Each looks at the process's LC_CTYPE locale:
  if one is set, it asks the system's locale library, which is the argument \<open>Some L\<close> here; if none
  is set (the C locale), it uses the comparisons in the source.
\<close>

unbundle bit_operations_syntax

record ctype_locale =
  IsAlpha :: "int \<Rightarrow> bool"
  IsDigit :: "int \<Rightarrow> bool"
  IsAlNum :: "int \<Rightarrow> bool"
  IsCntrl :: "int \<Rightarrow> bool"
  IsGraph :: "int \<Rightarrow> bool"
  IsLower :: "int \<Rightarrow> bool"
  IsPrint :: "int \<Rightarrow> bool"
  IsPunct :: "int \<Rightarrow> bool"
  IsSpace :: "int \<Rightarrow> bool"
  IsUpper :: "int \<Rightarrow> bool"
  IsXDigit :: "int \<Rightarrow> bool"
  ConvToUpper :: "int \<Rightarrow> int"
  ConvToLower :: "int \<Rightarrow> int"

definition EOF :: int where "EOF = - 1"

text \<open>The guard in front of every call of the locale library; \<open>UCHAR_MAX\<close> is 255.\<close>

definition char_range :: "int \<Rightarrow> bool" where
  "char_range c \<longleftrightarrow> c \<noteq> EOF \<and> ((0 \<le> c \<and> c \<le> 255) \<or> c + 256 \<le> 255)"

definition isalpha :: "ctype_locale option \<Rightarrow> int \<Rightarrow> bool" where
  "isalpha loc c = (case loc of
     Some L \<Rightarrow> (if char_range c then IsAlpha L (c AND 255) else False)
   | None \<Rightarrow> 97 \<le> c \<and> c \<le> 122 \<or> 65 \<le> c \<and> c \<le> 90)"

definition isdigit :: "ctype_locale option \<Rightarrow> int \<Rightarrow> bool" where
  "isdigit loc c = (case loc of
     Some L \<Rightarrow> (if char_range c then IsDigit L (c AND 255) else False)
   | None \<Rightarrow> 48 \<le> c \<and> c \<le> 57)"

definition isalnum :: "ctype_locale option \<Rightarrow> int \<Rightarrow> bool" where
  "isalnum loc c = (case loc of
     Some L \<Rightarrow> (if char_range c then IsAlNum L (c AND 255) else False)
   | None \<Rightarrow> isalpha None c \<or> isdigit None c)"

definition iscntrl :: "ctype_locale option \<Rightarrow> int \<Rightarrow> bool" where
  "iscntrl loc c = (case loc of
     Some L \<Rightarrow> (if char_range c then IsCntrl L (c AND 255) else False)
   | None \<Rightarrow> 0 \<le> c \<and> c < 32 \<or> c = 127)"

definition isgraph :: "ctype_locale option \<Rightarrow> int \<Rightarrow> bool" where
  "isgraph loc c = (case loc of
     Some L \<Rightarrow> (if char_range c then IsGraph L (c AND 255) else False)
   | None \<Rightarrow> 32 < c \<and> c < 127)"

definition islower :: "ctype_locale option \<Rightarrow> int \<Rightarrow> bool" where
  "islower loc c = (case loc of
     Some L \<Rightarrow> (if char_range c then IsLower L (c AND 255) else False)
   | None \<Rightarrow> 97 \<le> c \<and> c \<le> 122)"

definition isprint :: "ctype_locale option \<Rightarrow> int \<Rightarrow> bool" where
  "isprint loc c = (case loc of
     Some L \<Rightarrow> (if char_range c then IsPrint L (c AND 255) else False)
   | None \<Rightarrow> 32 \<le> c \<and> c \<le> 126)"

definition ispunct :: "ctype_locale option \<Rightarrow> int \<Rightarrow> bool" where
  "ispunct loc c = (case loc of
     Some L \<Rightarrow> (if char_range c then IsPunct L (c AND 255) else False)
   | None \<Rightarrow> 33 \<le> c \<and> c \<le> 47 \<or> 58 \<le> c \<and> c \<le> 64 \<or> 91 \<le> c \<and> c \<le> 96 \<or> 123 \<le> c \<and> c \<le> 126)"

definition isspace :: "ctype_locale option \<Rightarrow> int \<Rightarrow> bool" where
  "isspace loc c = (case loc of
     Some L \<Rightarrow> (if char_range c then IsSpace L (c AND 255) else False)
   | None \<Rightarrow> c = 9 \<or> c = 13 \<or> c = 10 \<or> c = 11 \<or> c = 12 \<or> c = 32)"

definition isupper :: "ctype_locale option \<Rightarrow> int \<Rightarrow> bool" where
  "isupper loc c = (case loc of
     Some L \<Rightarrow> (if char_range c then IsUpper L (c AND 255) else False)
   | None \<Rightarrow> 65 \<le> c \<and> c \<le> 90)"

definition isxdigit :: "ctype_locale option \<Rightarrow> int \<Rightarrow> bool" where
  "isxdigit loc c = (case loc of
     Some L \<Rightarrow> (if char_range c then IsXDigit L (c AND 255) else False)
   | None \<Rightarrow> 48 \<le> c \<and> c \<le> 57 \<or> 97 \<le> c \<and> c \<le> 102 \<or> 65 \<le> c \<and> c \<le> 70)"

definition isascii :: "int \<Rightarrow> bool" where "isascii c \<longleftrightarrow> c \<ge> 0 \<and> c < 128"

definition isblank :: "int \<Rightarrow> bool" where "isblank c \<longleftrightarrow> c = 9 \<or> c = 32"

definition toascii :: "int \<Rightarrow> int" where "toascii c = c AND 127"

definition tolower :: "ctype_locale option \<Rightarrow> int \<Rightarrow> int" where
  "tolower loc c = (case loc of
     Some L \<Rightarrow> (if char_range c then ConvToLower L (c AND 255) else c)
   | None \<Rightarrow> (if 65 \<le> c \<and> c \<le> 90 then c + (97 - 65) else c))"

definition toupper :: "ctype_locale option \<Rightarrow> int \<Rightarrow> int" where
  "toupper loc c = (case loc of
     Some L \<Rightarrow> (if char_range c then ConvToUpper L (c AND 255) else c)
   | None \<Rightarrow> (if 97 \<le> c \<and> c \<le> 122 then c - (97 - 65) else c))"

lemmas ctype_defs = isalpha_def isdigit_def isalnum_def iscntrl_def isgraph_def islower_def isprint_def
  ispunct_def isspace_def isupper_def isxdigit_def isascii_def isblank_def tolower_def toupper_def

lemma EOF_in_no_class:
  "\<not> isalnum loc EOF" "\<not> isalpha loc EOF" "\<not> isdigit loc EOF" "\<not> isspace loc EOF" "toupper loc EOF = EOF"
  by (simp_all add: ctype_defs char_range_def EOF_def split: option.splits)

lemma c_locale_bool_facts:
  "isalpha None c \<longleftrightarrow> islower None c \<or> isupper None c"
  "isalnum None c \<longleftrightarrow> isalpha None c \<or> isdigit None c"
  "isgraph None c \<longleftrightarrow> isalnum None c \<or> ispunct None c"
  "\<not> (isalnum None c \<and> ispunct None c)"
  "isprint None c \<longleftrightarrow> isgraph None c \<or> c = 32"
  "isascii c \<Longrightarrow> iscntrl None c \<longleftrightarrow> \<not> isprint None c"
  by (auto simp: ctype_defs)

lemma case_conversion:
  "isupper None c \<Longrightarrow> islower None (tolower None c) \<and> toupper None (tolower None c) = c"
  "islower None c \<Longrightarrow> isupper None (toupper None c) \<and> tolower None (toupper None c) = c"
  "toupper None (tolower None c) = toupper None c"
  "tolower None (toupper None c) = tolower None c"
  by (auto simp: isupper_def islower_def tolower_def toupper_def)

lemma toupper_byte: "0 \<le> toupper None (uint b) \<and> toupper None (uint b) < 256" for b :: byte
  using uint_bounded [of b] by (auto simp: toupper_def)

lemma toupper_zero_iff: "toupper None (uint b) = 0 \<longleftrightarrow> b = 0" for b :: byte
  by (auto simp: toupper_def unsigned_eq_0_iff)

text \<open>In the C locale the classes fit together: letters are lower or upper case, \<open>isalnum\<close>
  and \<open>ispunct\<close> split the graphic characters, the printing ones are the graphic ones and the space,
  and an ASCII character is a control character exactly if it does not print.\<close>

theorem c_locale_classes:
  "(isalpha None c \<longleftrightarrow> islower None c \<or> isupper None c) \<and>
   (isgraph None c \<longleftrightarrow> isalnum None c \<or> ispunct None c) \<and> \<not> (isalnum None c \<and> ispunct None c) \<and>
   (isprint None c \<longleftrightarrow> isgraph None c \<or> c = 32) \<and>
   (isascii c \<and> iscntrl None c \<longleftrightarrow> isascii c \<and> \<not> isprint None c) \<and>
   toupper None (tolower None c) = toupper None c \<and> tolower None (toupper None c) = tolower None c"
  using c_locale_bool_facts [of c] case_conversion [of c] by blast

end
