(* ===== verification/StrTok.thy ===== *)
theory StrTok
  imports StrFind StrCopy Ctype "HOL-Library.Sublist"
begin

text \<open>
  Substring search and tokenising of \<^verbatim>\<open>src/library/string\<close>: \<open>strstr\<close>, \<open>strnstr\<close>, \<open>strcasestr\<close>,
  \<open>strtok_r\<close>, \<open>strtok\<close> and \<open>strsep\<close>. The searches are shown to find the leftmost occurrence; a
  series of \<open>strtok_r\<close> calls is shown to deliver the tokens of the string one by one.
\<close>

section \<open>strstr\<close>

function strstr_match :: "byte list \<Rightarrow> addr \<Rightarrow> addr \<Rightarrow> nat \<Rightarrow> bool option" where
  "strstr_match m src sub i = do {
     c \<leftarrow> load m (sub + i);
     if c = 0 then Some True
     else do { b \<leftarrow> load m (src + i); if c \<noteq> b then Some False else strstr_match m src sub (i + 1) } }"
  by pat_completeness auto
termination
  by (relation "measure (\<lambda>(m, src, sub, i). length m - (sub + i))") (auto dest!: load_lt)

function strstr_loop :: "byte list \<Rightarrow> addr \<Rightarrow> addr \<Rightarrow> addr option" where
  "strstr_loop m src sub = do {
     b \<leftarrow> load m src;
     if b \<noteq> 0 then do { r \<leftarrow> strstr_match m src sub 0; if r then Some src else strstr_loop m (src + 1) sub }
     else Some NULL }"
  by pat_completeness auto
termination
  by (relation "measure (\<lambda>(m, src, sub). length m - src)") (auto dest!: load_lt)

declare strstr_match.simps [simp del] strstr_loop.simps [simp del]

definition strstr :: "addr \<Rightarrow> addr \<Rightarrow> clib \<Rightarrow> (addr \<times> clib) option" where
  "strstr src sub st =
     (if src = NULL \<or> sub = NULL then Some (NULL, set_errno EFAULT st)
      else do {
        c \<leftarrow> load (ram st) sub;
        r \<leftarrow> (if c = 0 then Some src else strstr_loop (ram st) src sub);
        Some (r, st) })"

text \<open>The bounded search has the same inner loop; it looks at \<open>len\<close> starting positions.\<close>

function strnstr_loop :: "byte list \<Rightarrow> addr \<Rightarrow> addr \<Rightarrow> addr \<Rightarrow> addr option" where
  "strnstr_loop m src sub limit =
     (if src < limit then do { r \<leftarrow> strstr_match m src sub 0; if r then Some src else strnstr_loop m (src + 1) sub limit }
      else Some NULL)"
  by pat_completeness auto
termination
  by (relation "measure (\<lambda>(m, src, sub, mx). mx - src)") auto

declare strnstr_loop.simps [simp del]

definition strnstr :: "byte list \<Rightarrow> addr \<Rightarrow> addr \<Rightarrow> size_t \<Rightarrow> addr option" where
  "strnstr m src sub len = do {
     b \<leftarrow> load m src;
     if b = 0 then do { c \<leftarrow> load m sub; Some (if c = 0 then src else NULL) }
     else strnstr_loop m src sub (src + len) }"

text \<open>The leftmost match of a test \<open>P\<close> on the suffixes of \<open>xs\<close>.\<close>

fun leftmost :: "(byte list \<Rightarrow> bool) \<Rightarrow> addr \<Rightarrow> byte list \<Rightarrow> addr" where
  "leftmost P s [] = NULL"
| "leftmost P s (x # xs) = (if P (x # xs) then s else leftmost P (s + 1) xs)"

lemma leftmost_found:
  assumes "leftmost P s xs \<noteq> NULL"
  shows "\<exists>i < length xs. leftmost P s xs = s + i \<and> P (drop i xs) \<and> (\<forall>j < i. \<not> P (drop j xs))"
  using assms
proof (induction xs arbitrary: s)
  case (Cons x xs)
  show ?case
  proof (cases "P (x # xs)")
    case False
    with Cons.prems Cons.IH [of "s + 1"] obtain i where "i < length xs" "leftmost P (s + 1) xs = s + 1 + i"
      "P (drop i xs)" "\<forall>j < i. \<not> P (drop j xs)"
      by auto
    with False show ?thesis by (intro exI [of _ "Suc i"]) (auto simp: less_Suc_eq_0_disj)
  qed auto
qed simp

lemma leftmost_NULL: "0 < s \<Longrightarrow> leftmost P s xs = NULL \<longleftrightarrow> (\<forall>i < length xs. \<not> P (drop i xs))"
  by (induction xs arbitrary: s) (auto simp: less_Suc_eq_0_disj)

lemma strstr_match_prefix:
  "cstr m (src + i) xs \<Longrightarrow> cstr m (sub + i) ys \<Longrightarrow> strstr_match m src sub i = Some (prefix ys xs)"
proof (induction ys arbitrary: i xs)
  case Nil
  then show ?case by (simp add: strstr_match.simps)
next
  case (Cons y ys)
  then show ?case
    by (cases xs) (auto simp: strstr_match.simps [of m src sub i])
qed

lemma strstr_loop_leftmost:
  assumes "cstr m sub ys"
  shows "cstr m src xs \<Longrightarrow> strstr_loop m src sub = Some (leftmost (prefix ys) src xs)"
proof (induction xs arbitrary: src)
  case Nil
  then show ?case by (simp add: strstr_loop.simps)
next
  case (Cons x xs)
  then show ?case using strstr_match_prefix [of m src 0 "x # xs" sub ys] assms
    by (simp add: strstr_loop.simps [of m src])
qed

lemma strstr_cstr:
  assumes "cstr (ram st) src xs" "cstr (ram st) sub ys"
  shows "strstr src sub st = Some (if ys = [] then src else leftmost (prefix ys) src xs, st)"
  using strstr_loop_leftmost [OF assms(2,1)] assms cstr_nonnull [OF assms(1)] cstr_nonnull [OF assms(2)]
  by (cases ys) (auto simp: strstr_def)

lemma sublist_leftmost: "ys \<noteq> [] \<Longrightarrow> sublist ys xs \<longleftrightarrow> (\<exists>i < length xs. prefix ys (drop i xs))"
proof
  assume "ys \<noteq> []" "sublist ys xs"
  then obtain ps ss where "xs = ps @ ys @ ss" by (auto simp: sublist_def)
  with \<open>ys \<noteq> []\<close> show "\<exists>i < length xs. prefix ys (drop i xs)"
    by (intro exI [of _ "length ps"]) auto
next
  assume "\<exists>i < length xs. prefix ys (drop i xs)"
  then obtain i zs where "drop i xs = ys @ zs" by (auto simp: prefix_def)
  then have "xs = take i xs @ ys @ zs" by (metis append_take_drop_id)
  then show "sublist ys xs" unfolding sublist_def by blast
qed

section \<open>strcasestr\<close>

function strcasestr_match :: "ctype_locale option \<Rightarrow> byte list \<Rightarrow> addr \<Rightarrow> addr \<Rightarrow> bool option" where
  "strcasestr_match loc m cur1 cur2 = do {
     b1 \<leftarrow> load m cur1;
     b2 \<leftarrow> load m cur2;
     if b1 \<noteq> 0 \<and> b2 \<noteq> 0 \<and> toupper loc (uint b1) = toupper loc (uint b2)
     then strcasestr_match loc m (cur1 + 1) (cur2 + 1)
     else Some (b2 = 0) }"
  by pat_completeness auto
termination
  by (relation "measure (\<lambda>(l, m, a, b). length m - a)") (auto dest!: load_lt)

function strcasestr_loop :: "ctype_locale option \<Rightarrow> byte list \<Rightarrow> addr \<Rightarrow> addr \<Rightarrow> addr option" where
  "strcasestr_loop loc m p_pos psz_little = do {
     b \<leftarrow> load m p_pos;
     if b \<noteq> 0 then do {
       l \<leftarrow> load m psz_little;
       r \<leftarrow> (if toupper loc (uint b) = toupper loc (uint l)
             then strcasestr_match loc m (p_pos + 1) (psz_little + 1) else Some False);
       if r then Some p_pos else strcasestr_loop loc m (p_pos + 1) psz_little }
     else Some NULL }"
  by pat_completeness auto
termination
  by (relation "measure (\<lambda>(l, m, a, b). length m - a)") (auto dest!: load_lt)

declare strcasestr_match.simps [simp del] strcasestr_loop.simps [simp del]

definition strcasestr :: "ctype_locale option \<Rightarrow> byte list \<Rightarrow> addr \<Rightarrow> addr \<Rightarrow> addr option" where
  "strcasestr loc m psz_big psz_little = do {
     l \<leftarrow> load m psz_little;
     if l = 0 then Some psz_big else strcasestr_loop loc m psz_big psz_little }"

definition up :: "ctype_locale option \<Rightarrow> byte list \<Rightarrow> int list" where
  "up loc xs = map (\<lambda>b. toupper loc (uint b)) xs"

lemma strcasestr_match_prefix:
  "cstr m a xs \<Longrightarrow> cstr m b ys \<Longrightarrow> strcasestr_match loc m a b = Some (prefix (up loc ys) (up loc xs))"
proof (induction ys arbitrary: a b xs)
  case Nil
  then show ?case by (cases xs) (auto simp: strcasestr_match.simps [of loc m a] up_def)
next
  case (Cons y ys)
  then show ?case by (cases xs) (auto simp: strcasestr_match.simps [of loc m a] up_def)
qed

lemma strcasestr_loop_leftmost:
  assumes "cstr m b (y # ys)"
  shows "cstr m a xs \<Longrightarrow> strcasestr_loop loc m a b = Some (leftmost (\<lambda>zs. prefix (up loc (y # ys)) (up loc zs)) a xs)"
proof (induction xs arbitrary: a)
  case Nil
  then show ?case by (simp add: strcasestr_loop.simps)
next
  case (Cons x xs)
  then show ?case using strcasestr_match_prefix [of m "Suc a" xs "Suc b" ys loc] assms
    by (auto simp: strcasestr_loop.simps [of loc m a] up_def)
qed

lemma strcasestr_cstr:
  assumes "cstr m a xs" "cstr m b ys"
  shows "strcasestr loc m a b = Some (if ys = [] then a else leftmost (\<lambda>zs. prefix (up loc ys) (up loc zs)) a xs)"
proof (cases ys)
  case Nil
  with assms show ?thesis by (simp add: strcasestr_def)
next
  case (Cons y zs)
  with strcasestr_loop_leftmost [of m b y zs a xs loc] assms show ?thesis by (auto simp: strcasestr_def)
qed

section \<open>strtok_r, strtok and strsep\<close>

text \<open>\<open>state\<close> is the pointer cell behind \<open>state_ptr\<close>, \<open>None\<close> where \<open>state_ptr\<close> is NULL; the result holds
  its new contents. In \<open>strtok\<close> the cell is the static variable \<open>last\<close>.\<close>

type_synonym strchr_fun = "byte list \<Rightarrow> addr \<Rightarrow> int \<Rightarrow> addr option"

definition strtok_r :: "strchr_fun \<Rightarrow> addr \<Rightarrow> addr \<Rightarrow> addr option \<Rightarrow> clib \<Rightarrow> (addr \<times> addr option \<times> clib) option" where
  "strtok_r strchr str separator_set state st =
     (case state of
        None \<Rightarrow> Some (NULL, None, set_errno EFAULT st)
      | Some lst \<Rightarrow>
          if separator_set = NULL then Some (NULL, Some NULL, set_errno EFAULT st)
          else let str = (if str = NULL then lst else str) in
          if str = NULL then Some (NULL, Some NULL, st)
          else do {
            (k, st) \<leftarrow> strspn strchr str separator_set st;
            let str = str + k;
            c \<leftarrow> load (ram st) str;
            if c = 0 then Some (NULL, Some NULL, st)
            else do {
              (size, st) \<leftarrow> strcspn strchr str separator_set st;
              if size = 0 then Some (NULL, Some NULL, st)
              else do {
                b \<leftarrow> load (ram st) (str + size);
                let lst = (if b \<noteq> 0 then str + size + 1 else str + size);
                m \<leftarrow> store (ram st) (str + size) 0;
                Some (str, Some lst, st\<lparr>ram := m\<rparr>) } } })"

definition strtok :: "strchr_fun \<Rightarrow> addr \<Rightarrow> addr \<Rightarrow> addr \<Rightarrow> clib \<Rightarrow> (addr \<times> addr option \<times> clib) option" where
  "strtok strchr str separator_set lst st = strtok_r strchr str separator_set (Some lst) st"

function strsep_loop :: "strchr_fun \<Rightarrow> byte list \<Rightarrow> addr \<Rightarrow> addr \<Rightarrow> (byte list \<times> addr) option" where
  "strsep_loop strchr m string delim = do {
     c \<leftarrow> load m string;
     if c = 0 then Some (m, NULL)
     else do {
       r \<leftarrow> strchr m delim (uint c);
       if r \<noteq> NULL then do { m \<leftarrow> store m string 0; Some (m, string + 1) }
       else strsep_loop strchr m (string + 1) delim } }"
  by pat_completeness auto
termination
  by (relation "measure (\<lambda>(f, m, s, d). length m - s)") (auto dest!: load_lt)

declare strsep_loop.simps [simp del]

text \<open>The result and the new value of \<open>*src\<close>.\<close>

definition strsep :: "strchr_fun \<Rightarrow> byte list \<Rightarrow> addr \<Rightarrow> addr \<Rightarrow> (addr \<times> addr \<times> byte list) option" where
  "strsep strchr m src delim =
     (if src \<noteq> NULL then do { (m, nxt) \<leftarrow> strsep_loop strchr m src delim; Some (src, nxt, m) }
      else Some (NULL, NULL, m))"

text \<open>The tokens of a string: the maximal runs of characters that are not separators.\<close>

function tokens :: "byte set \<Rightarrow> byte list \<Rightarrow> byte list list" where
  "tokens T xs = (let ys = dropWhile (\<lambda>b. b \<in> T) xs in
     if ys = [] then [] else takeWhile (\<lambda>b. b \<notin> T) ys # tokens T (tl (dropWhile (\<lambda>b. b \<notin> T) ys)))"
  by pat_completeness auto
termination
proof (relation "measure (\<lambda>(T, xs). length xs)")
  fix T xs ys
  assume "ys = dropWhile (\<lambda>b. b \<in> T) xs" "ys \<noteq> []"
  then have "length ys \<le> length xs" by (simp add: length_dropWhile_le)
  moreover have "length (dropWhile (\<lambda>b. b \<notin> T) ys) \<le> length ys" by (rule length_dropWhile_le)
  moreover have "0 < length ys" using \<open>ys \<noteq> []\<close> by simp
  ultimately have "length (tl (dropWhile (\<lambda>b. b \<notin> T) ys)) < length xs"
    unfolding length_tl by linarith
  then show "((T, tl (dropWhile (\<lambda>b. b \<notin> T) ys)), T, xs) \<in> measure (\<lambda>(T, xs). length xs)" by simp
qed simp

declare tokens.simps [simp del]

lemma cstr_suffix: "cstr m s xs \<Longrightarrow> xs = us @ ys \<Longrightarrow> cstr m (s + length us) ys"
  by (simp add: cstr_drop)

lemma cstr_cut:
  assumes "cstr m s (us @ ys)"
  shows "cstr (m[s + length us := 0]) s us"
  using assms
proof (induction us arbitrary: s)
  case Nil
  then show ?case by (cases ys) (auto simp: load_Some_mapped load_update)
next
  case (Cons u us)
  with Cons.IH [of "Suc s"] show ?case by (auto simp: load_update)
qed

lemma dropWhile_split: "xs = takeWhile P xs @ dropWhile P xs"
  by simp

text \<open>One call of \<open>strtok_r\<close> on a string \<open>xs\<close> that has a token: the token \<open>tok\<close> is cut out, and the
  saved position holds the rest behind one separator.\<close>

context strchr_spec
begin

lemma strtok_r_step:
  assumes ok: "ram_ok (ram st)" and s: "cstr (ram st) s xs" and t: "cstr (ram st) t ts"
    and call: "str = s \<or> str = NULL \<and> lst = s"
    and ys: "ys = dropWhile (\<lambda>b. b \<in> set ts) xs" "ys \<noteq> []"
    and tok: "tok = takeWhile (\<lambda>b. b \<notin> set ts) ys"
    and rest: "rest = dropWhile (\<lambda>b. b \<notin> set ts) ys"
    and p: "p = s + length (takeWhile (\<lambda>b. b \<in> set ts) xs)"
  shows "strtok_r strchr str t (Some lst) st =
    Some (p, Some (p + length tok + (if rest = [] then 0 else 1)), st\<lparr>ram := (ram st)[p + length tok := 0]\<rparr>)"
proof -
  have pys: "cstr (ram st) p ys"
    using cstr_suffix [OF s, of "takeWhile (\<lambda>b. b \<in> set ts) xs" ys] ys(1) p by simp
  obtain y zs where y: "ys = y # zs" using ys(2) by (cases ys) auto
  then have "y \<notin> set ts" using ys(1) hd_dropWhile [of "\<lambda>b. b \<in> set ts" xs] by (metis list.sel(1) ys(2))
  then have tok1: "length tok \<noteq> 0" using tok y by simp
  have prest: "cstr (ram st) (p + length tok) rest"
    using cstr_suffix [OF pys, of tok rest] tok rest by simp
  then obtain b where b: "load (ram st) (p + length tok) = Some b" "b = 0 \<longleftrightarrow> rest = []"
    by (cases rest) auto
  have ny: "load (ram st) p = Some y" "y \<noteq> 0" using pys y by auto
  have st: "store (ram st) (p + length tok) 0 = Some ((ram st)[p + length tok := 0])"
    using b(1) by (simp add: store_mapped load_Some_mapped)
  have "strspn strchr s t st = Some (p - s, st)" "strcspn strchr p t st = Some (length tok, st)"
    using strspn_spec [OF ok s t] strcspn_spec [OF ok pys t] p tok by simp_all
  with b ny st tok1 call cstr_nonnull [OF s] cstr_nonnull [OF t] p show ?thesis
    by (auto simp: strtok_r_def Let_def)
qed

lemma strtok_r_end:
  assumes ok: "ram_ok (ram st)" and s: "cstr (ram st) s xs" and t: "cstr (ram st) t ts"
    and call: "str = s \<or> str = NULL \<and> lst = s"
    and all: "dropWhile (\<lambda>b. b \<in> set ts) xs = []"
  shows "strtok_r strchr str t (Some lst) st = Some (NULL, Some NULL, st)"
proof -
  have xs: "takeWhile (\<lambda>b. b \<in> set ts) xs = xs" using all by (metis append_Nil2 takeWhile_dropWhile_id)
  have "load (ram st) (s + length xs) = Some 0" using cstr_suffix [OF s, of xs "[]"] by simp
  with strspn_spec [OF ok s t] xs call cstr_nonnull [OF s] cstr_nonnull [OF t] show ?thesis
    by (auto simp: strtok_r_def Let_def)
qed

end

text \<open>A client's loop \<open>for (p = strtok_r(s, sep, &last); p != NULL; p = strtok_r(NULL, sep, &last))\<close>,
  with at most \<open>n\<close> calls; \<open>None\<close> if that is not enough.\<close>

fun strtok_run :: "nat \<Rightarrow> strchr_fun \<Rightarrow> addr \<Rightarrow> addr \<Rightarrow> addr \<Rightarrow> clib \<Rightarrow> (addr list \<times> clib) option" where
  "strtok_run 0 strchr str sep lst st = None"
| "strtok_run (Suc n) strchr str sep lst st =
     (case strtok_r strchr str sep (Some lst) st of
        Some (r, Some lst', st') \<Rightarrow>
          if r = NULL then Some ([], st')
          else do { (rs, st'') \<leftarrow> strtok_run n strchr NULL sep lst' st'; Some (r # rs, st'') }
      | _ \<Rightarrow> None)"

lemma cstr_cong:
  "(\<And>a. s \<le> a \<Longrightarrow> a \<le> s + length xs \<Longrightarrow> load m' a = load m a) \<Longrightarrow> cstr m s xs \<Longrightarrow> cstr m' s xs"
proof (induction xs arbitrary: s)
  case (Cons x xs)
  from Cons.IH [of "Suc s"] Cons.prems show ?case by auto
qed simp

definition unchanged :: "addr \<Rightarrow> size_t \<Rightarrow> clib \<Rightarrow> clib \<Rightarrow> bool" where
  "unchanged s n st st' \<longleftrightarrow> length (ram st') = length (ram st) \<and> errno st' = errno st \<and>
     (\<forall>a. a < s \<or> s + n \<le> a \<longrightarrow> load (ram st') a = load (ram st) a)"

lemma unchanged_trans:
  "unchanged s n st st1 \<Longrightarrow> unchanged s' n' st1 st2 \<Longrightarrow> s \<le> s' \<Longrightarrow> s' + n' \<le> s + n \<Longrightarrow> unchanged s n st st2"
  by (auto simp: unchanged_def)

lemma unchanged_cstr:
  "unchanged s n st st' \<Longrightarrow> cstr (ram st) t ts \<Longrightarrow> t + length ts < s \<or> s + n \<le> t \<Longrightarrow> cstr (ram st') t ts"
  by (rule cstr_cong [of t ts _ "ram st"]) (auto simp: unchanged_def)

text \<open>The cut at \<open>p + length tok\<close>: only the byte of a separator changes; the token and the rest stand.\<close>

lemma strtok_cut:
  assumes "cstr (ram st) p (tok @ rest)"
  defines "st' \<equiv> st\<lparr>ram := (ram st)[p + length tok := 0]\<rparr>"
  defines "q \<equiv> p + length tok + (if rest = [] then 0 else 1)"
  shows "cstr (ram st') p tok" "cstr (ram st') q (tl rest)" "unchanged p (length tok + length rest) st st'"
    and "q + length (tl rest) = p + length tok + length rest"
proof -
  have r: "cstr (ram st) (p + length tok) rest" using cstr_drop assms(1) by blast
  show "cstr (ram st') p tok" using cstr_cut assms(1) by (simp add: st'_def)
  show "unchanged p (length tok + length rest) st st'"
    using r by (cases rest) (auto simp: unchanged_def st'_def load_update)
  show "cstr (ram st') q (tl rest)"
  proof (cases rest)
    case Nil
    then show ?thesis using r by (simp add: st'_def q_def load_update load_Some_mapped)
  next
    case (Cons x xs)
    then have "cstr ((ram st)[p + length tok := 0]) (Suc (p + length tok)) xs"
      using r by (subst cstr_update_other) auto
    then show ?thesis using Cons by (simp add: st'_def q_def)
  qed
  show "q + length (tl rest) = p + length tok + length rest"
    by (cases rest) (auto simp: q_def)
qed

context strchr_spec
begin

lemma strtok_run_tokens:
  assumes "length xs < n" "ram_ok (ram st)" "cstr (ram st) s xs" "cstr (ram st) t ts"
    and "str = s \<or> str = NULL \<and> lst = s" "apart s (Suc (length xs)) t (Suc (length ts))"
  shows "\<exists>ps st'. strtok_run n strchr str t lst st = Some (ps, st') \<and>
    list_all2 (cstr (ram st')) ps (tokens (set ts) xs) \<and> unchanged s (length xs) st st'"
  using assms
proof (induction n arbitrary: xs st s str lst)
  case (Suc n)
  let ?ys = "dropWhile (\<lambda>b. b \<in> set ts) xs"
  show ?case
  proof (cases "?ys = []")
    case True
    with strtok_r_end [OF Suc.prems(2-5)] show ?thesis
      by (simp add: tokens.simps [of _ xs] unchanged_def)
  next
    case False
    define tok where "tok = takeWhile (\<lambda>b. b \<notin> set ts) ?ys"
    define rest where "rest = dropWhile (\<lambda>b. b \<notin> set ts) ?ys"
    define k where "k = length (takeWhile (\<lambda>b. b \<in> set ts) xs)"
    define st1 where "st1 = st\<lparr>ram := (ram st)[s + k + length tok := 0]\<rparr>"
    define q where "q = s + k + length tok + (if rest = [] then 0 else 1)"
    have ys: "?ys = tok @ rest" by (simp add: tok_def rest_def)
    have "xs = takeWhile (\<lambda>b. b \<in> set ts) xs @ ?ys" by simp
    then have len: "length xs = k + length tok + length rest"
      unfolding k_def ys by (metis add.assoc length_append)
    have tok0: "tok \<noteq> []"
      using False hd_dropWhile [OF False] by (cases ?ys) (auto simp: tok_def)
    have "cstr (ram st) (s + k) (tok @ rest)"
      using cstr_suffix [OF Suc.prems(3), of "takeWhile (\<lambda>b. b \<in> set ts) xs"] by (simp add: k_def ys [symmetric])
    note cut = strtok_cut [OF this, folded st1_def q_def]
    have step: "strtok_r strchr str t (Some lst) st = Some (s + k, Some q, st1)"
      using strtok_r_step [OF Suc.prems(2-5) refl False tok_def rest_def, of "s + k"]
      by (simp add: k_def st1_def q_def)
    have t1: "cstr (ram st1) t ts"
      using unchanged_cstr [OF cut(3) Suc.prems(4)] Suc.prems(6) len by (auto simp: apart_def)
    have "length (tl rest) < n" using len tok0 Suc.prems(1) by (cases tok) auto
    moreover have "ram_ok (ram st1)" using Suc.prems(2) by (simp add: st1_def)
    moreover have "apart q (Suc (length (tl rest))) t (Suc (length ts))"
    proof -
      have "s \<le> q" by (simp add: q_def)
      with Suc.prems(6) cut(4) len show ?thesis by (auto simp: apart_def)
    qed
    ultimately obtain ps st2 where run: "strtok_run n strchr NULL t q st1 = Some (ps, st2)"
      "list_all2 (cstr (ram st2)) ps (tokens (set ts) (tl rest))" "unchanged q (length (tl rest)) st1 st2"
      using Suc.IH [of "tl rest" st1 q NULL q] cut(2) t1 by blast
    have "cstr (ram st2) (s + k) tok"
    proof (rule cstr_cong [OF _ cut(1)])
      fix a
      assume "s + k \<le> a" "a \<le> s + k + length tok"
      then show "load (ram st2) a = load (ram st1) a"
        using run(3) cut(4) by (cases "rest = []") (auto simp: unchanged_def q_def)
    qed
    moreover have "unchanged s (length xs) st st1"
      using cut(3) len by (auto simp: unchanged_def)
    then have "unchanged s (length xs) st st2"
      by (rule unchanged_trans [OF _ run(3)]) (use cut(4) len in \<open>auto simp: q_def\<close>)
    moreover have "tokens (set ts) xs = tok # tokens (set ts) (tl rest)"
      using False by (simp add: tokens.simps [of _ xs] tok_def rest_def Let_def)
    ultimately show ?thesis
      using run step cstr_nonnull [OF Suc.prems(3)] by simp
  qed
qed simp

end

section \<open>What searching and tokenising deliver\<close>

text \<open>C22. \<open>strstr\<close> returns NULL exactly if the second string does not occur in the first; otherwise it
  returns the leftmost position at which it occurs.\<close>

theorem strstr_correct:
  assumes "cstr (ram st) src xs" "cstr (ram st) sub ys"
  shows "\<exists>r. strstr src sub st = Some (r, st) \<and> (r = NULL \<longleftrightarrow> \<not> sublist ys xs) \<and>
    (r \<noteq> NULL \<longrightarrow> (\<exists>i \<le> length xs. r = src + i \<and> prefix ys (drop i xs) \<and> (\<forall>j < i. \<not> prefix ys (drop j xs))))"
proof (cases "ys = []")
  case True
  with strstr_cstr [OF assms] cstr_nonnull [OF assms(1)] show ?thesis by auto
next
  case False
  have "leftmost (prefix ys) src xs = NULL \<longleftrightarrow> \<not> sublist ys xs"
    using cstr_nonnull [OF assms(1)] sublist_leftmost [OF False] by (simp add: leftmost_NULL)
  with strstr_cstr [OF assms] False leftmost_found [of "prefix ys" src xs] show ?thesis
    by (auto intro: less_imp_le)
qed

theorem strstr_correct_witness:
  "\<exists>r. strstr 4 9 \<lparr>ram = [0, 0, 0, 0, 1, 1, 2, 3, 0, 1, 2, 0], errno = 0\<rparr> =
     Some (r, \<lparr>ram = [0, 0, 0, 0, 1, 1, 2, 3, 0, 1, 2, 0], errno = 0\<rparr>) \<and> r \<noteq> NULL"
proof -
  have "sublist [1, 2] [1, 1, 2, 3 :: byte]" unfolding sublist_def by (rule exI [of _ "[1]"]) auto
  then show ?thesis
    using strstr_correct [of "\<lparr>ram = [0, 0, 0, 0, 1, 1, 2, 3, 0, 1, 2, 0], errno = 0\<rparr>" 4 "[1, 1, 2, 3]" 9 "[1, 2]"]
    by (auto simp: load_def mapped_def)
qed

text \<open>\<open>strcasestr\<close> returns the leftmost position at which the second string occurs up to case, and
  NULL exactly if there is none.\<close>

theorem strcasestr_correct:
  assumes "cstr m a xs" "cstr m b ys"
  shows "\<exists>r. strcasestr loc m a b = Some r \<and>
    (r = NULL \<longleftrightarrow> ys \<noteq> [] \<and> (\<forall>i < length xs. \<not> prefix (up loc ys) (up loc (drop i xs)))) \<and>
    (r \<noteq> NULL \<longrightarrow> (\<exists>i \<le> length xs. r = a + i \<and> prefix (up loc ys) (up loc (drop i xs)) \<and>
       (\<forall>j < i. \<not> prefix (up loc ys) (up loc (drop j xs)))))"
proof (cases "ys = []")
  case True
  with strcasestr_cstr [OF assms] cstr_nonnull [OF assms(1)] show ?thesis by (auto simp: up_def)
next
  case False
  with strcasestr_cstr [OF assms, of loc] leftmost_found [of "\<lambda>zs. prefix (up loc ys) (up loc zs)" a xs]
    leftmost_NULL [of a "\<lambda>zs. prefix (up loc ys) (up loc zs)" xs] cstr_nonnull [OF assms(1)]
  show ?thesis by (auto intro: less_imp_le)
qed

theorem strcasestr_correct_witness:
  "\<exists>r. strcasestr None [0, 0, 0, 0, 72, 105, 33, 0, 73, 0] 4 8 = Some r \<and> r \<noteq> NULL"
proof -
  have "prefix (up None [73]) (up None (drop 1 [72, 105, 33]))" by (simp add: up_def toupper_def)
  moreover have "(1 :: nat) < length [72, 105, 33 :: byte]" by simp
  ultimately show ?thesis
    using strcasestr_correct [of "[0, 0, 0, 0, 72, 105, 33, 0, 73, 0]" 4 "[72, 105, 33]" 8 "[73]" None]
    by (fastforce simp: load_def mapped_def)
qed

text \<open>C23. Whatever \<open>strchr\<close> meets the contract, repeated calls of \<open>strtok_r\<close> end after at most one call
  per character plus one, deliver the tokens of the string (the maximal runs without separators) in
  order, each as a terminated string, and change nothing outside the string.\<close>

theorem strtok_r_tokens:
  assumes "strchr_spec strchr" "length xs < n" "ram_ok (ram st)" "cstr (ram st) s xs" "cstr (ram st) t ts"
    and "apart s (Suc (length xs)) t (Suc (length ts))"
  shows "\<exists>ps st'. strtok_run n strchr s t lst st = Some (ps, st') \<and>
    list_all2 (cstr (ram st')) ps (tokens (set ts) xs) \<and> unchanged s (length xs) st st'"
  using strchr_spec.strtok_run_tokens [OF assms(1-5) _ assms(6)] by blast

theorem strtok_r_tokens_witness:
  "\<exists>ps st'. strtok_run 4 glibc_strchr 4 8 9 \<lparr>ram = [0, 0, 0, 0, 97, 44, 98, 0, 44, 0, 0, 0], errno = 0\<rparr> = Some (ps, st') \<and>
     length ps = length (tokens {44} [97, 44, 98])"
  using strtok_r_tokens [OF glibc.strchr_spec_axioms, of "[97, 44, 98]" 4
      "\<lparr>ram = [0, 0, 0, 0, 97, 44, 98, 0, 44, 0, 0, 0], errno = 0\<rparr>" 4 8 "[44]" 9]
  by (fastforce simp: ram_ok_def load_def mapped_def apart_def dest: list_all2_lengthD)

end
