(* ===== verification/Conv.thy ===== *)
theory Conv
  imports StrCopy Ctype
begin

text \<open>
  The number conversions of \<^verbatim>\<open>src/library/stdlib\<close> and \<^verbatim>\<open>src/library/inttypes\<close>: \<open>strtol\<close>,
  \<open>strtoll\<close>, \<open>strtoul\<close>, \<open>strtoull\<close>, \<open>strtoimax\<close>, \<open>strtoumax\<close>, \<open>atoi\<close>, \<open>atol\<close>, \<open>atoll\<close>, \<open>lltoa\<close>,
  \<open>a64l\<close>, \<open>l64a\<close>, and the small arithmetic functions \<open>abs\<close> and \<open>div\<close>.

  The six \<open>strto\<close> functions have one text and differ in the type of the sum. That type enters as the
  function \<open>wrap\<close> that brings a result back into the type's range; for the signed types this is
  the two's complement wrap-around of the target.
\<close>

unbundle bit_operations_syntax

section \<open>The strto functions\<close>

definition wrap_u :: "nat \<Rightarrow> int \<Rightarrow> int" where
  "wrap_u w x = x mod 2 ^ w"

definition wrap_s :: "nat \<Rightarrow> int \<Rightarrow> int" where
  "wrap_s w x = (x + 2 ^ (w - 1)) mod 2 ^ w - 2 ^ (w - 1)"

text \<open>The digit value the source computes from a character; \<open>None\<close>: not a digit in any base.\<close>

definition digit :: "byte \<Rightarrow> int option" where
  "digit b = (let c = uint b in
     if 48 \<le> c \<and> c \<le> 57 then Some (c - 48)
     else if 97 \<le> c then Some (c - (97 - 10))
     else if 65 \<le> c then Some (c - (65 - 10))
     else None)"

function skip_blanks :: "ctype_locale option \<Rightarrow> byte list \<Rightarrow> addr \<Rightarrow> addr option" where
  "skip_blanks loc m str = do {
     c \<leftarrow> load m str;
     if c \<noteq> 0 \<and> isspace loc (uint c) then skip_blanks loc m (str + 1) else Some str }"
  by pat_completeness auto
termination
  by (relation "measure (\<lambda>(l, m, s). length m - s)") (auto dest!: load_lt)

text \<open>The digit loop; \<open>Inl ()\<close> is the exit through the overflow test.\<close>

function strto_loop :: "(int \<Rightarrow> int) \<Rightarrow> int \<Rightarrow> byte list \<Rightarrow> addr \<Rightarrow> int \<Rightarrow> nat \<Rightarrow> (unit + addr \<times> int \<times> nat) option" where
  "strto_loop wrap base m str acc num_digits_converted = do {
     c \<leftarrow> load m str;
     if c \<noteq> 0 then
       (case digit c of
          None \<Rightarrow> Some (Inr (str, acc, num_digits_converted))
        | Some d \<Rightarrow>
            if d \<ge> base then Some (Inr (str, acc, num_digits_converted))
            else let new_sum = wrap (base * acc + d) in
              if new_sum < acc then Some (Inl ())
              else strto_loop wrap base m (str + 1) new_sum (num_digits_converted + 1))
     else Some (Inr (str, acc, num_digits_converted)) }"
  by pat_completeness auto
termination
  by (relation "measure (\<lambda>(w, b, m, s, t, n). length m - s)") (auto dest!: load_lt)

declare skip_blanks.simps [simp del] strto_loop.simps [simp del]

text \<open>The common text: the result, the value for \<open>*ptr\<close>, and the state. \<open>limit neg\<close> is the result after
  an overflow.\<close>

definition strto :: "(int \<Rightarrow> int) \<Rightarrow> (bool \<Rightarrow> int) \<Rightarrow> ctype_locale option \<Rightarrow> addr \<Rightarrow> int \<Rightarrow> clib \<Rightarrow> (int \<times> addr \<times> clib) option" where
  "strto wrap limit loc str base st =
     (if str = NULL then Some (0, str, set_errno EFAULT st)
      else if base < 0 then Some (0, str, set_errno ERANGE st)
      else do {
        p \<leftarrow> skip_blanks loc (ram st) str;
        c \<leftarrow> load (ram st) p;
        let is_negative = (c = 45);
        let p = (if c = 45 \<or> c = 43 then p + 1 else p);
        c \<leftarrow> load (ram st) p;
        (base, p) \<leftarrow>
          (if (base = 0 \<or> base = 16) \<and> c = 48
           then do { x \<leftarrow> load (ram st) (p + 1);
                     Some (if x = 120 \<or> x = 88 then (16, p + 2) else (base, p)) }
           else Some (base, p));
        c \<leftarrow> load (ram st) p;
        let base = (if base = 0 then (if c = 48 then 8 else 10) else base);
        r \<leftarrow> (if 1 \<le> base \<and> base \<le> 36 then strto_loop wrap base (ram st) p 0 0 else Some (Inr (p, 0, 0)));
        (case r of
           Inl _ \<Rightarrow> Some (limit is_negative, str, set_errno ERANGE st)
         | Inr (p, acc, num_digits_converted) \<Rightarrow>
             if num_digits_converted = 0 then Some (0, str, st)
             else Some (if is_negative then wrap (- acc) else acc, p, st)) })"

definition strtol :: "ctype_locale option \<Rightarrow> addr \<Rightarrow> int \<Rightarrow> clib \<Rightarrow> (int \<times> addr \<times> clib) option" where
  "strtol = strto (wrap_s 32) (\<lambda>neg. if neg then - (2 ^ 31) else 2 ^ 31 - 1)"

definition strtoll :: "ctype_locale option \<Rightarrow> addr \<Rightarrow> int \<Rightarrow> clib \<Rightarrow> (int \<times> addr \<times> clib) option" where
  "strtoll = strto (wrap_s 64) (\<lambda>neg. if neg then - (2 ^ 63) else 2 ^ 63 - 1)"

definition strtoul :: "ctype_locale option \<Rightarrow> addr \<Rightarrow> int \<Rightarrow> clib \<Rightarrow> (int \<times> addr \<times> clib) option" where
  "strtoul = strto (wrap_u 32) (\<lambda>neg. 2 ^ 32 - 1)"

definition strtoull :: "ctype_locale option \<Rightarrow> addr \<Rightarrow> int \<Rightarrow> clib \<Rightarrow> (int \<times> addr \<times> clib) option" where
  "strtoull = strto (wrap_u 64) (\<lambda>neg. 2 ^ 64 - 1)"

text \<open>\<open>intmax_t\<close> and \<open>uintmax_t\<close> are \<open>long long\<close> on the target.\<close>

definition strtoimax :: "ctype_locale option \<Rightarrow> addr \<Rightarrow> int \<Rightarrow> clib \<Rightarrow> (int \<times> addr \<times> clib) option" where
  "strtoimax = strto (wrap_s 64) (\<lambda>neg. if neg then - (2 ^ 63) else 2 ^ 63 - 1)"

definition strtoumax :: "ctype_locale option \<Rightarrow> addr \<Rightarrow> int \<Rightarrow> clib \<Rightarrow> (int \<times> addr \<times> clib) option" where
  "strtoumax = strto (wrap_u 64) (\<lambda>neg. 2 ^ 64 - 1)"

definition atoi :: "ctype_locale option \<Rightarrow> addr \<Rightarrow> clib \<Rightarrow> (int \<times> clib) option" where
  "atoi loc str st =
     (if str = NULL then Some (0, set_errno EFAULT st)
      else do { (r, _, st) \<leftarrow> strtol loc str 10 st; Some (r, st) })"

definition atol :: "ctype_locale option \<Rightarrow> addr \<Rightarrow> clib \<Rightarrow> (int \<times> clib) option" where
  "atol loc str st =
     (if str = NULL then Some (0, set_errno EFAULT st)
      else do { (r, _, st) \<leftarrow> strtol loc str 10 st; Some (r, st) })"

definition atoll :: "ctype_locale option \<Rightarrow> addr \<Rightarrow> clib \<Rightarrow> (int \<times> clib) option" where
  "atoll loc str st =
     (if str = NULL then Some (0, set_errno EFAULT st)
      else do { (r, _, st) \<leftarrow> strtoll loc str 10 st; Some (r, st) })"




lemma digit_nonzero: "digit c = Some d \<Longrightarrow> c \<noteq> 0"
  by (auto simp: digit_def Let_def split: if_splits)








section \<open>lltoa\<close>













section \<open>a64l and l64a\<close>



















section \<open>abs and div\<close>

text \<open>\<open>abs\<close> and \<open>div\<close> on \<open>int\<close>; \<open>-x\<close> of the least number wraps on the target. A division by zero has no
  result.\<close>

definition abs_int :: "int \<Rightarrow> int" where
  "abs_int x = (if x < 0 then wrap_s 32 (- x) else x)"

definition div_int :: "int \<Rightarrow> int \<Rightarrow> (int \<times> int) option" where
  "div_int n d = (if d = 0 then None else Some (wrap_s 32 (cdiv n d), cmod n d))"

section \<open>What the conversions deliver\<close>

lemma strto_loop_step:
  "load m p = Some c \<Longrightarrow> digit c = Some d \<Longrightarrow> d < b \<Longrightarrow> s \<le> wrap (b * s + d) \<Longrightarrow>
   strto_loop wrap b m p s n = strto_loop wrap b m (Suc p) (wrap (b * s + d)) (Suc n)"
  using digit_nonzero [of c d] by (simp add: strto_loop.simps [of wrap b m p] Let_def)

lemma strto_loop_nul: "load m p = Some 0 \<Longrightarrow> strto_loop wrap b m p s n = Some (Inr (p, s, n))"
  by (simp add: strto_loop.simps)



text \<open>C25. The overflow test \<open>new_sum < sum\<close> misses overflows: on \<open>9999999999\<close> the function \<open>strtoul\<close>
  returns 1410065407, the value modulo \<open>2 ^ 32\<close>, and does not set \<open>errno\<close>.\<close>

theorem strtoul_misses_overflow:
  assumes "cstr (ram st) p [57, 57, 57, 57, 57, 57, 57, 57, 57, 57]"
  shows "strtoul None p 10 st = Some (1410065407, p + 10, st)"
proof -
  have sk: "skip_blanks None (ram st) p = Some p"
    using assms by (simp add: skip_blanks.simps isspace_def)
  have d: "digit 57 = Some 9" by (simp add: digit_def)
  have lp: "strto_loop (wrap_u 32) 10 (ram st) p 0 0 = Some (Inr (p + 10, 1410065407, 10))"
    using assms by (simp add: strto_loop_step [OF _ d] strto_loop_nul wrap_u_def)
  show ?thesis
    using sk lp assms cstr_nonnull [OF assms] by (simp add: strtoul_def strto_def Let_def)
qed

theorem strtoul_misses_overflow_witness:
  "strtoul None 4 10 \<lparr>ram = [0, 0, 0, 0, 57, 57, 57, 57, 57, 57, 57, 57, 57, 57, 0, 0], errno = 0\<rparr> =
     Some (1410065407, 14, \<lparr>ram = [0, 0, 0, 0, 57, 57, 57, 57, 57, 57, 57, 57, 57, 57, 0, 0], errno = 0\<rparr>)"
  using strtoul_misses_overflow [of "\<lparr>ram = [0, 0, 0, 0, 57, 57, 57, 57, 57, 57, 57, 57, 57, 57, 0, 0], errno = 0\<rparr>" 4]
  by (simp add: load_def mapped_def)





end
