(* ===== verification/Calendar.thy ===== *)
theory Calendar
  imports CMem
begin

text \<open>
  The calendar of \<^verbatim>\<open>src/library/time\<close>: \<open>__month_to_secs\<close>, \<open>__year_to_secs\<close>, \<open>__tm_to_secs\<close>,
  \<open>__secs_to_tm\<close>, \<open>timegm\<close>, \<open>__calculate_days_per_date\<close> and \<open>__calculate_weekday\<close>. The conversions
  are related to one count of days with the leap years of the Gregorian calendar.

  The C types are wide enough for every value the functions compute from the times they accept, so
  the model uses integers; C's truncating division is \<open>cdiv\<close> and \<open>cmod\<close>.
\<close>

section \<open>The conversions\<close>

definition INT_MIN :: int where "INT_MIN = - (2 ^ 31)"
definition INT_MAX :: int where "INT_MAX = 2 ^ 31 - 1"

record tm =
  tm_sec :: int
  tm_min :: int
  tm_hour :: int
  tm_mday :: int
  tm_mon :: int
  tm_year :: int
  tm_wday :: int
  tm_yday :: int

definition secs_through_month :: "int list" where
  "secs_through_month =
     [0, 31 * 86400, 59 * 86400, 90 * 86400, 120 * 86400, 151 * 86400, 181 * 86400, 212 * 86400,
      243 * 86400, 273 * 86400, 304 * 86400, 334 * 86400]"

definition month_to_secs :: "int \<Rightarrow> bool \<Rightarrow> int option" where
  "month_to_secs month is_leap = do {
     t \<leftarrow> at_int secs_through_month month;
     Some (if is_leap \<and> month \<ge> 2 then t + 86400 else t) }"

text \<open>The result and \<open>*is_leap\<close>. The test \<open>year - 2ULL <= 136\<close> is unsigned.\<close>

definition year_to_secs :: "int \<Rightarrow> int \<times> bool" where
  "year_to_secs year =
     (if 0 \<le> year - 2 \<and> year - 2 \<le> 136 then
        let y = year; leaps = (y - 68) div 4; leap = ((y - 68) mod 4 = 0);
            leaps = (if leap then leaps - 1 else leaps)
        in (31536000 * (y - 70) + 86400 * leaps, leap)
      else
        let cycles = cdiv (year - 100) 400; rem = cmod (year - 100) 400;
            (cycles, rem) = (if rem < 0 then (cycles - 1, rem + 400) else (cycles, rem));
            (leap, centuries, leaps) =
              (if rem = 0 then (True, 0, 0)
               else
                 let (centuries, rem) =
                   (if rem \<ge> 200 then (if rem \<ge> 300 then (3, rem - 300) else (2, rem - 200))
                    else (if rem \<ge> 100 then (1, rem - 100) else (0, rem)))
                 in if rem = 0 then (False, centuries, 0)
                    else (rem mod 4 = 0, centuries, rem div 4));
            leaps = leaps + 97 * cycles + 24 * centuries - of_bool leap
        in ((year - 100) * 31536000 + leaps * 86400 + 946684800 + 86400, leap))"

definition tm_to_secs :: "tm \<Rightarrow> int option" where
  "tm_to_secs tm =
     (let year = tm_year tm; month = tm_mon tm;
          (year, month) =
            (if month \<ge> 12 \<or> month < 0 then
               let adj = cdiv month 12; month = cmod month 12;
                   (adj, month) = (if month < 0 then (adj - 1, month + 12) else (adj, month))
               in (year + adj, month)
             else (year, month));
          (t, is_leap) = year_to_secs year
      in do {
        s \<leftarrow> month_to_secs month is_leap;
        Some (t + s + 86400 * (tm_mday tm - 1) + 3600 * tm_hour tm + 60 * tm_min tm + tm_sec tm) })"

definition LEAPOCH :: int where "LEAPOCH = 946684800 + 86400 * (31 + 29)"
definition DAYS_PER_400Y :: int where "DAYS_PER_400Y = 365 * 400 + 97"
definition DAYS_PER_100Y :: int where "DAYS_PER_100Y = 365 * 100 + 24"
definition DAYS_PER_4Y :: int where "DAYS_PER_4Y = 365 * 4 + 1"

definition days_in_month :: "int list" where
  "days_in_month = [31, 30, 31, 30, 31, 31, 30, 31, 30, 31, 31, 29]"

text \<open>\<open>for (months = 0; days_in_month[months] <= remdays; months++) remdays -= days_in_month[months]\<close>; an
  index past the table is a fault.\<close>

fun month_loop :: "int list \<Rightarrow> int \<Rightarrow> int \<Rightarrow> (int \<times> int) option" where
  "month_loop [] months remdays = None"
| "month_loop (d # ds) months remdays =
     (if d \<le> remdays then month_loop ds (months + 1) (remdays - d) else Some (months, remdays))"

text \<open>\<open>None\<close> in the outer type is a fault, \<open>Some None\<close> the result \<open>-1\<close>.\<close>

definition secs_to_tm :: "int \<Rightarrow> tm option option" where
  "secs_to_tm t =
     (if t < INT_MIN * 31622400 \<or> t > INT_MAX * 31622400 then Some None
      else
        let secs = t - LEAPOCH;
            days = cdiv secs 86400; remsecs = cmod secs 86400;
            (remsecs, days) = (if remsecs < 0 then (remsecs + 86400, days - 1) else (remsecs, days));
            wday = cmod (3 + days) 7;
            wday = (if wday < 0 then wday + 7 else wday);
            qc_cycles = cdiv days DAYS_PER_400Y; remdays = cmod days DAYS_PER_400Y;
            (remdays, qc_cycles) = (if remdays < 0 then (remdays + DAYS_PER_400Y, qc_cycles - 1) else (remdays, qc_cycles));
            c_cycles = cdiv remdays DAYS_PER_100Y;
            c_cycles = (if c_cycles = 4 then c_cycles - 1 else c_cycles);
            remdays = remdays - c_cycles * DAYS_PER_100Y;
            q_cycles = cdiv remdays DAYS_PER_4Y;
            q_cycles = (if q_cycles = 25 then q_cycles - 1 else q_cycles);
            remdays = remdays - q_cycles * DAYS_PER_4Y;
            remyears = cdiv remdays 365;
            remyears = (if remyears = 4 then remyears - 1 else remyears);
            remdays = remdays - remyears * 365;
            leap = of_bool (remyears = 0 \<and> (q_cycles \<noteq> 0 \<or> c_cycles = 0));
            yday = remdays + 31 + 28 + leap;
            yday = (if yday \<ge> 365 + leap then yday - (365 + leap) else yday);
            years = remyears + 4 * q_cycles + 100 * c_cycles + 400 * qc_cycles
        in do {
          (months, remdays) \<leftarrow> month_loop days_in_month 0 remdays;
          let (months, years) = (if months \<ge> 10 then (months - 12, years + 1) else (months, years));
          if years + 100 > INT_MAX \<or> years + 100 < INT_MIN then Some None
          else Some (Some \<lparr>tm_sec = cmod remsecs 60, tm_min = cmod (cdiv remsecs 60) 60, tm_hour = cdiv remsecs 3600,
                 tm_mday = remdays + 1, tm_mon = months + 2, tm_year = years + 100,
                 tm_wday = wday, tm_yday = yday\<rparr>) })"

text \<open>The conversions neither read nor write \<open>tm_isdst\<close> and the zone, which \<open>timegm\<close> sets to constants; the record
  leaves them out. \<open>timegm\<close> returns the time and the normalised fields, or \<open>-1\<close> with \<open>EOVERFLOW\<close> and the fields
  as they were.\<close>

definition timegm :: "tm \<Rightarrow> clib \<Rightarrow> (int \<times> tm \<times> clib) option" where
  "timegm tm st = do {
     t \<leftarrow> tm_to_secs tm;
     new \<leftarrow> secs_to_tm t;
     (case new of
        None \<Rightarrow> Some (-1, tm, set_errno EOVERFLOW st)
      | Some tm' \<Rightarrow> Some (t, tm', st)) }"

definition calculate_days_per_date :: "int \<Rightarrow> int \<Rightarrow> int \<Rightarrow> int" where
  "calculate_days_per_date year month day =
     (let month = month + 9;
          year = year - 1 + cdiv month 12;
          month = cmod month 12 * 306 + 5
      in year * 365 + cdiv year 4 - cdiv year 100 + cdiv year 400 + cdiv month 10 + day - 1)"

definition month_skew :: "int list" where
  "month_skew = [0, 3, 3, 6, 1, 4, 6, 2, 5, 0, 3, 5]"

definition calculate_weekday :: "int \<Rightarrow> int \<Rightarrow> int \<Rightarrow> int option" where
  "calculate_weekday year month day =
     (let sum = year - 1900;
          sum = sum + cdiv sum 4;
          leap_year_adjust =
            (if cmod year 4 \<noteq> 0 then 0 else if cmod year 400 = 0 then 1
             else if cmod year 100 = 0 then 0 else 1);
          sum = (if month = 1 \<or> month = 2 then sum - leap_year_adjust else sum)
      in do { k \<leftarrow> at_int month_skew (month - 1); Some (cmod (sum + (day + k)) 7) })"

section \<open>The reference calendar\<close>

text \<open>\<open>jan1 z\<close>: days from 1 January 2000 to 1 January of year \<open>2000 + z\<close>; \<open>mar1 z\<close>: days from 1 March 2000 to
  1 March of that year. Both count the years divisible by 4, not those by 100, but those by 400.\<close>

definition leap_year :: "int \<Rightarrow> bool" where
  "leap_year z \<longleftrightarrow> z mod 4 = 0 \<and> (z mod 100 \<noteq> 0 \<or> z mod 400 = 0)"

definition jan1 :: "int \<Rightarrow> int" where
  "jan1 z = 365 * z + (z + 3) div 4 - (z + 99) div 100 + (z + 399) div 400"

definition mar1 :: "int \<Rightarrow> int" where
  "mar1 z = 365 * z + z div 4 - z div 100 + z div 400"

text \<open>Every year is \<open>400 * q + 100 * c + 4 * k + y\<close> in one way.\<close>

lemma year_decomp:
  obtains q c k y :: int
  where "z = 400 * q + 100 * c + 4 * k + y" "0 \<le> c" "c \<le> 3" "0 \<le> k" "k \<le> 24" "0 \<le> y" "y \<le> 3"
proof
  have *: "z = 400 * (z div 400) + z mod 400" "z mod 400 = 100 * (z mod 400 div 100) + z mod 400 mod 100"
    "z mod 400 mod 100 = 4 * (z mod 400 mod 100 div 4) + z mod 400 mod 100 mod 4" by simp_all
  then show "z = 400 * (z div 400) + 100 * (z mod 400 div 100) + 4 * (z mod 400 mod 100 div 4) + z mod 400 mod 100 mod 4"
    by linarith
  show "0 \<le> z mod 400 div 100" "0 \<le> z mod 400 mod 100 div 4" "0 \<le> z mod 400 mod 100 mod 4" by simp_all
  show "z mod 400 div 100 \<le> 3" "z mod 400 mod 100 div 4 \<le> 24" "z mod 400 mod 100 mod 4 \<le> 3"
    using pos_mod_bound [of 400 z] pos_mod_bound [of 100 "z mod 400"] by linarith+
qed

lemma decomp_div:
  assumes "0 \<le> c" "c \<le> 3" "0 \<le> k" "k \<le> 24" "0 \<le> y" "y \<le> (3 :: int)"
    and z: "z = 400 * q + 100 * c + 4 * k + y"
  shows "z div 4 = 100 * q + 25 * c + k" "z div 100 = 4 * q + c" "z div 400 = q"
    and "z mod 4 = y" "z mod 100 = 4 * k + y" "z mod 400 = 100 * c + 4 * k + y"
proof -
  have e: "z = 4 * (100 * q + 25 * c + k) + y" "z = 100 * (4 * q + c) + (4 * k + y)"
    "z = 400 * q + (100 * c + 4 * k + y)" by (simp_all add: z)
  have b: "y < 4" "4 * k + y < 100" "100 * c + 4 * k + y < 400" "0 \<le> 4 * k + y" "0 \<le> 100 * c + 4 * k + y"
    using assms by linarith+
  show "z div 4 = 100 * q + 25 * c + k" "z mod 4 = y"
    using int_div_pos_eq [OF e(1) assms(5) b(1)] int_mod_pos_eq [OF e(1) assms(5) b(1)] by simp_all
  show "z div 100 = 4 * q + c" "z mod 100 = 4 * k + y"
    using int_div_pos_eq [OF e(2) b(4,2)] int_mod_pos_eq [OF e(2) b(4,2)] by simp_all
  show "z div 400 = q" "z mod 400 = 100 * c + 4 * k + y"
    using int_div_pos_eq [OF e(3) b(5,3)] int_mod_pos_eq [OF e(3) b(5,3)] by simp_all
qed

lemma decomp_zero:
  assumes "0 \<le> c" "c \<le> 3" "0 \<le> k" "k \<le> 24" "0 \<le> y" "y \<le> (3 :: int)"
  shows "4 * k + y = 0 \<longleftrightarrow> k = 0 \<and> y = 0" "100 * c + 4 * k + y = 0 \<longleftrightarrow> c = 0 \<and> k = 0 \<and> y = 0"
  using assms by linarith+

lemma mar1_decomp:
  assumes "0 \<le> c" "c \<le> 3" "0 \<le> k" "k \<le> 24" "0 \<le> y" "y \<le> (3 :: int)"
  shows "mar1 (400 * q + 100 * c + 4 * k + y) = 146097 * q + 36524 * c + 1461 * k + 365 * y"
  unfolding mar1_def decomp_div [OF assms refl] by simp

lemma leap_decomp:
  assumes "0 \<le> c" "c \<le> 3" "0 \<le> k" "k \<le> 24" "0 \<le> y" "y \<le> (3 :: int)"
  shows "leap_year (400 * q + 100 * c + 4 * k + y) \<longleftrightarrow> y = 0 \<and> (k \<noteq> 0 \<or> c = 0)"
  unfolding leap_year_def decomp_div [OF assms refl] decomp_zero [OF assms] by auto

text \<open>A rounded-up quotient: one more than the quotient unless the division is exact.\<close>

lemma ceil_div: "0 < m \<Longrightarrow> w = m - 1 \<Longrightarrow> (z + w) div m = z div m + of_bool (z mod m \<noteq> 0)" for z m w :: int
proof -
  assume m: "0 < m" and w: "w = m - 1"
  have z: "z = m * (z div m) + z mod m" "0 \<le> z mod m" "z mod m < m" using m by simp_all
  show ?thesis
  proof (cases "z mod m = 0")
    case True
    have "z + (m - 1) = m * (z div m) + (m - 1)" using z(1) True by simp
    from int_div_pos_eq [OF this] m True show ?thesis by (simp add: w)
  next
    case False
    have "z + (m - 1) = m * (z div m + 1) + (z mod m - 1)" using z(1) by (simp add: algebra_simps)
    from int_div_pos_eq [OF this] m False z(2,3) show ?thesis by (simp add: w)
  qed
qed

lemma jan1_mar1: "jan1 z = mar1 z + 1 - of_bool (leap_year z)"
proof -
  have c: "(z + 3) div 4 = z div 4 + of_bool (z mod 4 \<noteq> 0)" "(z + 99) div 100 = z div 100 + of_bool (z mod 100 \<noteq> 0)"
    "(z + 399) div 400 = z div 400 + of_bool (z mod 400 \<noteq> 0)"
    by (rule ceil_div; simp)+
  obtain q c k y where d: "z = 400 * q + 100 * c + 4 * k + y" "0 \<le> c" "c \<le> 3" "0 \<le> k" "k \<le> 24" "0 \<le> y" "y \<le> 3"
    by (rule year_decomp)
  have m: "z mod 4 = y" "z mod 100 = 4 * k + y" "z mod 400 = 100 * c + 4 * k + y"
    using decomp_div [OF d(2-7,1)] by simp_all
  show ?thesis unfolding jan1_def mar1_def c leap_year_def m decomp_zero [OF d(2-7)] by auto
qed

lemma Suc_div: "0 < m \<Longrightarrow> (z + 1) div m = z div m + of_bool ((z + 1) mod m = 0)" for z m :: int
proof -
  assume m: "0 < m"
  have z: "z = m * (z div m) + z mod m" "0 \<le> z mod m" "z mod m < m" using m by simp_all
  show ?thesis
  proof (cases "z mod m = m - 1")
    case True
    have "z + 1 = m * (z div m + 1) + 0" using z(1) True by (simp add: algebra_simps)
    from int_div_pos_eq [OF this] int_mod_pos_eq [OF this] m show ?thesis by simp
  next
    case False
    have "z + 1 = m * (z div m) + (z mod m + 1)" using z(1) by simp
    from int_div_pos_eq [OF this] int_mod_pos_eq [OF this] m z(2,3) False show ?thesis by simp
  qed
qed

lemma mar1_Suc: "mar1 (z + 1) = mar1 z + 365 + of_bool (leap_year (z + 1))"
proof -
  have c: "(z + 1) div 4 = z div 4 + of_bool ((z + 1) mod 4 = 0)" "(z + 1) div 100 = z div 100 + of_bool ((z + 1) mod 100 = 0)"
    "(z + 1) div 400 = z div 400 + of_bool ((z + 1) mod 400 = 0)"
    by (rule Suc_div, simp)+
  obtain q c k y where d: "z + 1 = 400 * q + 100 * c + 4 * k + y" "0 \<le> c" "c \<le> 3" "0 \<le> k" "k \<le> 24" "0 \<le> y" "y \<le> 3"
    by (rule year_decomp)
  have m: "(z + 1) mod 4 = y" "(z + 1) mod 100 = 4 * k + y" "(z + 1) mod 400 = 100 * c + 4 * k + y"
    using decomp_div [OF d(2-7,1)] by simp_all
  show ?thesis unfolding mar1_def c leap_year_def m decomp_zero [OF d(2-7)] by auto
qed

section \<open>Years and months in seconds\<close>

text \<open>Both branches of \<open>__year_to_secs\<close> compute the days before 1 January and the leap flag.\<close>

lemma year_to_secs_near:
  assumes "2 \<le> year" "year \<le> 138"
  shows "year_to_secs year = (946684800 + 86400 * jan1 (year - 100), leap_year (year - 100))"
proof -
  let ?z = "year - 100"
  have m: "(year - 68) mod 4 = ?z mod 4" "(year - 68) div 4 = ?z div 4 + 8"
    using div_mult_self1 [of 4 ?z 8] mod_mult_self1 [of ?z 8 4] by (simp_all add: add.commute)
  have c0: "?z div 100 = - of_bool (year < 100) \<and> ?z div 400 = - of_bool (year < 100) \<and>
    (?z mod 100 = 0 \<longleftrightarrow> year = 100) \<and> (?z mod 400 = 0 \<longleftrightarrow> year = 100)"
  proof (cases "year < 100")
    case True
    have "?z = 100 * (-1) + year" "?z = 400 * (-1) + (year + 300)" by simp_all
    from int_div_pos_eq [OF this(1)] int_mod_pos_eq [OF this(1)] int_div_pos_eq [OF this(2)] int_mod_pos_eq [OF this(2)]
    have "?z div 100 = -1" "?z mod 100 = year" "?z div 400 = -1" "?z mod 400 = year + 300"
      using assms True by simp_all
    then show ?thesis using assms True by simp
  next
    case False
    then have "?z div 100 = 0" "?z mod 100 = ?z" "?z div 400 = 0" "?z mod 400 = ?z"
      using assms by (intro div_pos_pos_trivial mod_pos_pos_trivial; simp)+
    then show ?thesis using False by simp
  qed
  note c = c0 [THEN conjunct1] c0 [THEN conjunct2, THEN conjunct1]
    c0 [THEN conjunct2, THEN conjunct2, THEN conjunct1] c0 [THEN conjunct2, THEN conjunct2, THEN conjunct2]
  have l: "leap_year ?z \<longleftrightarrow> ?z mod 4 = 0" unfolding leap_year_def c by auto
  show ?thesis
    using assms unfolding year_to_secs_def jan1_mar1 mar1_def l c Let_def m by auto
qed

lemma cdiv_cmod_floor:
  assumes "0 < b"
  shows "(if cmod a b < 0 then (cdiv a b - 1, cmod a b + b) else (cdiv a b, cmod a b)) = (a div b, a mod b)"
proof (cases "0 \<le> a")
  case True
  then show ?thesis using assms pos_mod_sign [of b a] by (simp add: cdiv_nonneg cmod_nonneg not_less)
next
  case False
  have a: "- a = b * ((- a) div b) + (- a) mod b" "0 \<le> (- a) mod b" "(- a) mod b < b" using assms by simp_all
  show ?thesis
  proof (cases "(- a) mod b = 0")
    case True
    have "a = b * (- ((- a) div b)) + 0" using a(1) True by linarith
    from int_div_pos_eq [OF this] int_mod_pos_eq [OF this] assms True False show ?thesis
      by (simp add: cdiv_neg cmod_neg)
  next
    case nz: False
    have "a = b * (- ((- a) div b) - 1) + (b - (- a) mod b)" using a(1) by (simp add: algebra_simps)
    from int_div_pos_eq [OF this] int_mod_pos_eq [OF this] assms nz False a(2,3) show ?thesis
      by (simp add: cdiv_neg cmod_neg)
  qed
qed

lemma year_to_secs_far:
  assumes "\<not> (2 \<le> year \<and> year \<le> 138)"
  shows "year_to_secs year = (946684800 + 86400 * jan1 (year - 100), leap_year (year - 100))"
proof -
  obtain q c k y where d: "year - 100 = 400 * q + 100 * c + 4 * k + y" "0 \<le> c" "c \<le> 3" "0 \<le> k" "k \<le> 24" "0 \<le> y" "y \<le> 3"
    by (rule year_decomp)
  have f: "(if cmod (year - 100) 400 < 0 then (cdiv (year - 100) 400 - 1, cmod (year - 100) 400 + 400)
      else (cdiv (year - 100) 400, cmod (year - 100) 400)) = (q, 100 * c + 4 * k + y)"
    using cdiv_cmod_floor [of 400 "year - 100"] decomp_div(3,6) [OF d(2-7,1)] by simp
  have r: "(4 * k + y) mod 4 = y" "(4 * k + y) div 4 = k"
    using int_mod_pos_eq [of "4 * k + y" 4 k y] int_div_pos_eq [of "4 * k + y" 4 k y] d(6,7) by simp_all
  let ?rem = "100 * c + 4 * k + y"
  have cent: "(if ?rem \<ge> 200 then (if ?rem \<ge> 300 then (3, ?rem - 300) else (2, ?rem - 200))
      else (if ?rem \<ge> 100 then (1, ?rem - 100) else (0, ?rem))) = (c, 4 * k + y)"
  proof -
    have "c = 0 \<or> c = 1 \<or> c = 2 \<or> c = 3" using d(2,3) by linarith
    then show ?thesis using d(4-7) by auto
  qed
  have mid: "(if ?rem = 0 then (True, 0, 0)
      else let (centuries, rem) =
             (if ?rem \<ge> 200 then (if ?rem \<ge> 300 then (3, ?rem - 300) else (2, ?rem - 200))
              else (if ?rem \<ge> 100 then (1, ?rem - 100) else (0, ?rem)))
           in if rem = 0 then (False, centuries, 0) else (rem mod 4 = 0, centuries, rem div 4))
    = (y = 0 \<and> (k \<noteq> 0 \<or> c = 0), c, k)"
    unfolding cent Let_def split decomp_zero [OF d(2-7)] r by simp blast
  define L where "L \<longleftrightarrow> y = 0 \<and> (k \<noteq> 0 \<or> c = 0)"
  have far: "\<not> (0 \<le> year - 2 \<and> year - 2 \<le> 136)" using assms by linarith
  show ?thesis
    unfolding year_to_secs_def if_not_P [OF far] Let_def f split mid [unfolded Let_def, folded L_def]
    unfolding jan1_mar1 d(1) mar1_decomp [OF d(2-7)] leap_decomp [OF d(2-7), folded L_def] by simp
qed

lemma year_to_secs_eq: "year_to_secs year = (946684800 + 86400 * jan1 (year - 100), leap_year (year - 100))"
  using year_to_secs_near year_to_secs_far by blast


text \<open>The days of a year before its month \<open>m\<close> (0 is January), and the days of that month.\<close>

definition month_start :: "int \<Rightarrow> bool \<Rightarrow> int" where
  "month_start m leap = [0, 31, 59, 90, 120, 151, 181, 212, 243, 273, 304, 334] ! nat m + of_bool (leap \<and> 2 \<le> m)"

definition month_length :: "int \<Rightarrow> bool \<Rightarrow> int" where
  "month_length m leap = [31, if leap then 29 else 28, 31, 30, 31, 30, 31, 31, 30, 31, 30, 31] ! nat m"

lemma months_cases:
  assumes "0 \<le> m" "m \<le> (11 :: int)"
  obtains "m = 0" | "m = 1" | "m = 2" | "m = 3" | "m = 4" | "m = 5" | "m = 6" | "m = 7" | "m = 8" | "m = 9" | "m = 10" | "m = 11"
proof -
  have "m = 0 \<or> m = 1 \<or> m = 2 \<or> m = 3 \<or> m = 4 \<or> m = 5 \<or> m = 6 \<or> m = 7 \<or> m = 8 \<or> m = 9 \<or> m = 10 \<or> m = 11"
    using assms by presburger
  then show thesis using that by blast
qed

lemma month_to_secs_eq:
  assumes "0 \<le> m" "m \<le> 11"
  shows "month_to_secs m leap = Some (86400 * month_start m leap)"
  using assms by (rule months_cases)
    (simp_all add: month_to_secs_def month_start_def at_int_def at_def secs_through_month_def)

text \<open>Day \<open>0\<close> is 1 January 2000; months outside the year carry into it.\<close>

definition day_number :: "int \<Rightarrow> int \<Rightarrow> int \<Rightarrow> int" where
  "day_number z m d = jan1 z + month_start m (leap_year z) + d - 1"

definition tm_seconds :: "tm \<Rightarrow> int" where
  "tm_seconds tm = 946684800 +
     86400 * day_number (tm_year tm - 100 + tm_mon tm div 12) (tm_mon tm mod 12) (tm_mday tm) +
     3600 * tm_hour tm + 60 * tm_min tm + tm_sec tm"

lemma tm_to_secs_eq: "tm_to_secs tm = Some (tm_seconds tm)"
proof -
  let ?m = "tm_mon tm" let ?y = "tm_year tm"
  have f: "(if ?m \<ge> 12 \<or> ?m < 0 then
              (case (if cmod ?m 12 < 0 then (cdiv ?m 12 - 1, cmod ?m 12 + 12) else (cdiv ?m 12, cmod ?m 12)) of
                (adj, month) \<Rightarrow> (?y + adj, month))
            else (?y, ?m)) = (?y + ?m div 12, ?m mod 12)"
    unfolding cdiv_cmod_floor [of 12, simplified] by (simp add: div_pos_pos_trivial mod_pos_pos_trivial)
  have "0 \<le> ?m mod 12" "?m mod 12 \<le> 11" using pos_mod_bound [of 12 ?m] by simp_all
  then show ?thesis
    unfolding tm_to_secs_def Let_def f split year_to_secs_eq
    by (simp add: month_to_secs_eq tm_seconds_def day_number_def algebra_simps)
qed


section \<open>Days back to dates\<close>

text \<open>The quotient by a period, with the last day of the last period kept in that period.\<close>

lemma clamp_cycle:
  fixes r p n c :: int
  assumes "0 \<le> r" "r \<le> n * p" "0 < p" "0 < n"
    and c: "c = (if cdiv r p = n then cdiv r p - 1 else cdiv r p)"
  shows "0 \<le> c \<and> c \<le> n - 1 \<and> 0 \<le> r - c * p \<and> r - c * p \<le> p \<and> (r - c * p = p \<longrightarrow> r = n * p)"
proof -
  have q: "cdiv r p = r div p" using assms by (simp add: cdiv_nonneg)
  have d: "r = p * (r div p) + r mod p" "0 \<le> r mod p" "r mod p < p" using assms by simp_all
  have le: "0 \<le> r div p" "r div p \<le> n"
    using assms zdiv_mono1 [of r "n * p" p] by (simp_all add: pos_imp_zdiv_nonneg_iff)
  show ?thesis
  proof (cases "r div p = n")
    case True
    then have r: "r = n * p" using d assms(2) by (simp add: mult.commute)
    have n: "c = n - 1" using True c q by simp
    have "r - c * p = p" unfolding n r by (simp add: left_diff_distrib)
    then show ?thesis using r n assms by simp
  next
    case False
    then have "r - c * p = r mod p" using d c q by (simp add: algebra_simps)
    then show ?thesis using False c q le d by simp
  qed
qed

lemma leap_next:
  assumes "0 \<le> c" "c \<le> 3" "0 \<le> k" "k \<le> 24" "y = (3 :: int)" "k = 24 \<longrightarrow> c = 3"
  shows "leap_year (400 * q + 100 * c + 4 * k + y + 1)"
proof (cases "k = 24")
  case True
  then have e: "400 * q + 100 * c + 4 * k + y + 1 = 400 * (q + 1) + 100 * 0 + 4 * 0 + (0 :: int)" using assms by simp
  show ?thesis unfolding e by (subst leap_decomp) simp_all
next
  case False
  then have e: "400 * q + 100 * c + 4 * k + y + 1 = 400 * q + 100 * c + 4 * (k + 1) + (0 :: int)" using assms by simp
  show ?thesis unfolding e using assms False by (subst leap_decomp) simp_all
qed

text \<open>The cycle computation of \<open>__secs_to_tm\<close> on the days since 1 March 2000: the year that starts in
  March, and the days into it.\<close>

lemma cycles_correct:
  assumes r: "0 \<le> r" "r < 146097" and N: "N = 146097 * q + r"
    and c: "c = (if cdiv r 36524 = 4 then cdiv r 36524 - 1 else cdiv r 36524)" and r1: "r1 = r - c * 36524"
    and k: "k = (if cdiv r1 1461 = 25 then cdiv r1 1461 - 1 else cdiv r1 1461)" and r2: "r2 = r1 - k * 1461"
    and y: "y = (if cdiv r2 365 = 4 then cdiv r2 365 - 1 else cdiv r2 365)" and R: "R = r2 - y * 365"
    and Y: "Y = y + 4 * k + 100 * c + 400 * q"
  shows "N = mar1 Y + R \<and> 0 \<le> R \<and> R < 365 + of_bool (leap_year (Y + 1)) \<and>
    (leap_year Y \<longleftrightarrow> y = 0 \<and> (k \<noteq> 0 \<or> c = 0))"
proof -
  have C: "0 \<le> c" "c \<le> 3" "0 \<le> r1" "r1 \<le> 36524" "r1 = 36524 \<longrightarrow> r = 146096"
    using clamp_cycle [OF _ _ _ _ c] r by (simp_all add: r1)
  have K: "0 \<le> k" "k \<le> 24" "0 \<le> r2" "r2 \<le> 1461" "r2 = 1461 \<longrightarrow> r1 = 36525"
    using clamp_cycle [OF _ _ _ _ k] C by (simp_all add: r2)
  have Y': "0 \<le> y" "y \<le> 3" "0 \<le> R" "R \<le> 365" "R = 365 \<longrightarrow> r2 = 1460"
    using clamp_cycle [OF _ _ _ _ y] K C by (simp_all add: R)
  note b = C(1,2) K(1,2) Y'(1,2)
  have e: "Y = 400 * q + 100 * c + 4 * k + y" by (simp add: Y)
  have "N = mar1 Y + R" unfolding e mar1_decomp [OF b] using N r1 r2 R by simp
  moreover have "R < 365 + of_bool (leap_year (Y + 1))"
  proof (cases "R = 365")
    case True
    then have y3: "y = 3" using Y' R by simp
    moreover have "k = 24 \<longrightarrow> c = 3" using True Y'(5) r1 r2 C(5) by auto
    ultimately show ?thesis using leap_next [OF b(1-4) y3] True unfolding e by simp
  qed (use Y'(4) in simp)
  ultimately show ?thesis using Y'(3) leap_decomp [OF b] unfolding e by blast
qed

text \<open>The days of a March-based year before its month: the loop over \<open>days_in_month\<close> finds the month.\<close>

definition march_start :: "int \<Rightarrow> int" where
  "march_start m = [0, 31, 61, 92, 122, 153, 184, 214, 245, 275, 306, 337] ! nat m"

lemma month_loop_correct:
  assumes "0 \<le> R" "R < 366"
  shows "\<exists>m d. month_loop days_in_month 0 R = Some (m, d) \<and> 0 \<le> m \<and> m \<le> 11 \<and> R = march_start m + d \<and>
    0 \<le> d \<and> d < days_in_month ! nat m"
  using assms unfolding days_in_month_def by (simp add: march_start_def)


text \<open>A time by its March-based date: year \<open>2000 + Y\<close>, month \<open>M\<close> after March, day \<open>d\<close> and second \<open>s\<close> of it.\<close>

definition march_ok :: "int \<Rightarrow> int \<Rightarrow> int \<Rightarrow> int \<Rightarrow> bool" where
  "march_ok Y M d s \<longleftrightarrow> 0 \<le> M \<and> M \<le> 11 \<and> 0 \<le> d \<and> d < days_in_month ! nat M \<and>
     march_start M + d < 365 + of_bool (leap_year (Y + 1)) \<and> 0 \<le> s \<and> s < 86400"

definition march_days :: "int \<Rightarrow> int \<Rightarrow> int \<Rightarrow> int" where
  "march_days Y M d = mar1 Y + march_start M + d"

definition march_tm :: "int \<Rightarrow> int \<Rightarrow> int \<Rightarrow> int \<Rightarrow> tm" where
  "march_tm Y M d s =
     \<lparr>tm_sec = s mod 60, tm_min = s div 60 mod 60, tm_hour = s div 3600, tm_mday = d + 1,
      tm_mon = (if 10 \<le> M then M - 10 else M + 2), tm_year = Y + of_bool (10 \<le> M) + 100,
      tm_wday = (3 + march_days Y M d) mod 7,
      tm_yday = (if 10 \<le> M then march_start M + d - 306 else march_start M + d + 59 + of_bool (leap_year Y))\<rparr>"

lemma march_start_10: "0 \<le> M \<Longrightarrow> M \<le> 11 \<Longrightarrow> 10 \<le> M \<longleftrightarrow> 306 \<le> march_start M"
  by (erule months_cases) (simp_all add: march_start_def)

lemma march_start_end: "0 \<le> M \<Longrightarrow> M < 10 \<Longrightarrow> d < days_in_month ! nat M \<Longrightarrow> march_start M + d < 306"
  by (rule months_cases [of M]) (simp_all add: march_start_def days_in_month_def)

lemma yday_march:
  assumes "march_ok Y M d s"
  shows "(if march_start M + d + 31 + 28 + of_bool L \<ge> 365 + of_bool L
          then march_start M + d + 31 + 28 + of_bool L - (365 + of_bool L)
          else march_start M + d + 31 + 28 + of_bool L) =
    (if 10 \<le> M then march_start M + d - 306 else march_start M + d + 59 + of_bool L)"
proof (cases "10 \<le> M")
  case True
  then show ?thesis using assms march_start_10 [of M] by (simp add: march_ok_def)
next
  case False
  then show ?thesis using assms march_start_end [of M d] by (simp add: march_ok_def)
qed

lemma floor_mod: "0 < b \<Longrightarrow> (if cmod a b < 0 then cmod a b + b else cmod a b) = a mod b"
  using arg_cong [OF cdiv_cmod_floor [of b a], of snd] by (simp split: if_splits)

lemma floor_swap:
  "0 < b \<Longrightarrow> (if cmod a b < 0 then (cmod a b + b, cdiv a b - 1) else (cmod a b, cdiv a b)) = (a mod b, a div b)"
  using cdiv_cmod_floor [of b a] by (simp split: if_splits)

lemma secs_to_tm_march:
  assumes t: "INT_MIN * 31622400 \<le> t" "t \<le> INT_MAX * 31622400"
  shows "\<exists>Y M d s. t = LEAPOCH + 86400 * march_days Y M d + s \<and> march_ok Y M d s \<and>
    secs_to_tm t = (let tm = march_tm Y M d s in
      if INT_MIN \<le> tm_year tm \<and> tm_year tm \<le> INT_MAX then Some (Some tm) else Some None)"
proof -
  define N s where "N = (t - LEAPOCH) div 86400" and "s = (t - LEAPOCH) mod 86400"
  define q r where "q = N div 146097" and "r = N mod 146097"
  define c where "c = (if cdiv r 36524 = 4 then cdiv r 36524 - 1 else cdiv r 36524)"
  define r1 where "r1 = r - c * 36524"
  define k where "k = (if cdiv r1 1461 = 25 then cdiv r1 1461 - 1 else cdiv r1 1461)"
  define r2 where "r2 = r1 - k * 1461"
  define y where "y = (if cdiv r2 365 = 4 then cdiv r2 365 - 1 else cdiv r2 365)"
  define R where "R = r2 - y * 365"
  define Y where "Y = y + 4 * k + 100 * c + 400 * q"
  have s: "0 \<le> s" "s < 86400" and t_eq: "t = LEAPOCH + 86400 * N + s"
    using pos_mod_bound [of 86400 "t - LEAPOCH"] by (simp_all add: s_def N_def)
  have "0 \<le> r" "r < 146097" "N = 146097 * q + r" by (simp_all add: q_def r_def)
  from cycles_correct [OF this c_def r1_def k_def r2_def y_def R_def Y_def]
  have Y: "N = mar1 Y + R" "0 \<le> R" "R < 365 + of_bool (leap_year (Y + 1))" "(y = 0 \<and> (k \<noteq> 0 \<or> c = 0)) = leap_year Y"
    by simp_all
  then have "R < 366" by (cases "leap_year (Y + 1)") simp_all
  from month_loop_correct [OF Y(2) this] obtain M d where
    M: "month_loop days_in_month 0 R = Some (M, d)" "0 \<le> M" "M \<le> 11" "R = march_start M + d" "0 \<le> d"
      "d < days_in_month ! nat M" by blast
  have ok: "march_ok Y M d s" using M Y(3) s by (simp add: march_ok_def)
  have N: "N = march_days Y M d" using Y(1) M(4) by (simp add: march_days_def)
  have cs: "cmod s 60 = s mod 60" "cmod (cdiv s 60) 60 = s div 60 mod 60" "cdiv s 3600 = s div 3600"
    using s by (simp_all add: cdiv_nonneg cmod_nonneg pos_imp_zdiv_nonneg_iff)
  have rng: "\<not> (t < INT_MIN * 31622400 \<or> t > INT_MAX * 31622400)" using t by simp
  have D: "DAYS_PER_400Y = 146097" "DAYS_PER_100Y = 36524" "DAYS_PER_4Y = 1461"
    by (simp_all add: DAYS_PER_400Y_def DAYS_PER_100Y_def DAYS_PER_4Y_def)
  have "secs_to_tm t = (let tm = march_tm Y M d s in
      if INT_MIN \<le> tm_year tm \<and> tm_year tm \<le> INT_MAX then Some (Some tm) else Some None)"
    unfolding secs_to_tm_def if_not_P [OF rng] Let_def D floor_swap [of 86400, simplified] split
    unfolding s_def [symmetric] N_def [symmetric] floor_swap [of 146097, simplified] floor_mod [of 7, simplified] split
    unfolding q_def [symmetric] r_def [symmetric]
    unfolding c_def [symmetric]
    unfolding r1_def [symmetric]
    unfolding k_def [symmetric]
    unfolding r2_def [symmetric]
    unfolding y_def [symmetric]
    unfolding R_def [symmetric] Y_def [symmetric] Y(4) M(1)
    unfolding M(4) yday_march [OF ok] N cs bind.bind_lunit split
    by (auto simp: march_tm_def)
  then show ?thesis using t_eq N ok by blast
qed


section \<open>Dates and times\<close>

definition valid_tm :: "tm \<Rightarrow> bool" where
  "valid_tm tm \<longleftrightarrow>
     (let z = tm_year tm - 100; leap = leap_year z in
      0 \<le> tm_sec tm \<and> tm_sec tm \<le> 59 \<and> 0 \<le> tm_min tm \<and> tm_min tm \<le> 59 \<and> 0 \<le> tm_hour tm \<and> tm_hour tm \<le> 23 \<and>
      0 \<le> tm_mon tm \<and> tm_mon tm \<le> 11 \<and> 1 \<le> tm_mday tm \<and> tm_mday tm \<le> month_length (tm_mon tm) leap \<and>
      tm_yday tm = month_start (tm_mon tm) leap + tm_mday tm - 1 \<and>
      tm_wday tm = (6 + day_number z (tm_mon tm) (tm_mday tm)) mod 7)"

lemma march_month:
  assumes "0 \<le> M" "M \<le> 11"
    and m_def: "m = (if 10 \<le> M then M - 10 else M + 2)" and z_def: "z = Y + of_bool (10 \<le> M)"
  shows "day_number z m (d + 1) = 60 + march_days Y M d"
    and "month_length m (leap_year z) = (if M = 11 then 28 + of_bool (leap_year (Y + 1)) else days_in_month ! nat M)"
    and "month_start m (leap_year z) = (if 10 \<le> M then march_start M - 306 else march_start M + 59 + of_bool (leap_year Y))"
  unfolding m_def z_def
  using assms(1,2)
  by (rule months_cases; simp add: day_number_def march_days_def month_start_def month_length_def march_start_def
      days_in_month_def jan1_mar1 mar1_Suc)+

lemma time_of_day:
  assumes "0 \<le> s" "s < (86400 :: int)"
  shows "3600 * (s div 3600) + 60 * (s div 60 mod 60) + s mod 60 = s" "s div 3600 \<le> 23"
proof -
  have "s div 3600 = s div 60 div 60" using zdiv_zmult2_eq [of 60 s 60] by simp
  then show "3600 * (s div 3600) + 60 * (s div 60 mod 60) + s mod 60 = s"
    using mult_div_mod_eq [of 60 s] mult_div_mod_eq [of 60 "s div 60"] by linarith
  show "s div 3600 \<le> 23" using assms by linarith
qed

lemma month_mod: "0 \<le> m \<Longrightarrow> m \<le> 11 \<Longrightarrow> m div 12 = 0 \<and> m mod 12 = (m :: int)"
  by (simp add: div_pos_pos_trivial mod_pos_pos_trivial)

lemma march_tm_seconds:
  assumes "march_ok Y M d s"
  shows "tm_seconds (march_tm Y M d s) = LEAPOCH + 86400 * march_days Y M d + s"
proof -
  let ?m = "if 10 \<le> M then M - 10 else M + 2"
  have M: "0 \<le> M" "M \<le> 11" and s: "0 \<le> s" "s < 86400" using assms by (simp_all add: march_ok_def)
  have m: "?m div 12 = 0 \<and> ?m mod 12 = ?m" using M by (intro month_mod) simp_all
  have "day_number (tm_year (march_tm Y M d s) - 100 + tm_mon (march_tm Y M d s) div 12) (tm_mon (march_tm Y M d s) mod 12)
      (tm_mday (march_tm Y M d s)) = 60 + march_days Y M d"
    unfolding march_tm_def tm.simps m [THEN conjunct1] m [THEN conjunct2] add_diff_cancel_right' add_0_right
    by (rule march_month(1) [OF M refl refl])
  note day = this
  have sum: "946684800 + 86400 * (60 + N) + 3600 * h + 60 * mi + x = 946684800 + 86400 * (31 + 29) + 86400 * N + s"
    if "3600 * h + 60 * mi + x = s" for N h mi x :: int using that by simp
  have f: "tm_hour (march_tm Y M d s) = s div 3600" "tm_min (march_tm Y M d s) = s div 60 mod 60"
    "tm_sec (march_tm Y M d s) = s mod 60" by (simp_all add: march_tm_def)
  show ?thesis unfolding tm_seconds_def day f LEAPOCH_def by (rule sum [OF time_of_day(1) [OF s]])
qed

lemma march_tm_valid:
  assumes "march_ok Y M d s"
  shows "valid_tm (march_tm Y M d s)"
proof -
  have M: "0 \<le> M" "M \<le> 11" and s: "0 \<le> s" "s < 86400" using assms by (simp_all add: march_ok_def)
  have d: "1 \<le> d + 1" "d + 1 \<le> (if M = 11 then 28 + of_bool (leap_year (Y + 1)) else days_in_month ! nat M)"
    using assms by (auto simp: march_ok_def march_start_def)
  have w: "(3 + march_days Y M d) mod 7 = (6 + (60 + march_days Y M d)) mod 7"
    using mod_mult_self1 [of "3 + march_days Y M d" 9 7] by (simp add: algebra_simps)
  have t: "0 \<le> s mod 60" "s mod 60 \<le> 59" "0 \<le> s div 60 mod 60" "s div 60 mod 60 \<le> 59" "0 \<le> s div 3600"
    using pos_mod_bound [of 60 s] pos_mod_bound [of 60 "s div 60"] s by (simp_all add: pos_imp_zdiv_nonneg_iff)
  have m: "0 \<le> (if 10 \<le> M then M - 10 else M + 2)" "(if 10 \<le> M then M - 10 else M + 2) \<le> 11" using M by simp_all
  show ?thesis
    unfolding valid_tm_def Let_def march_tm_def tm.simps add_diff_cancel_right' march_month [OF M refl refl]
    by (intro conjI t time_of_day(2) [OF s] m d w) simp
qed


lemma split_time:
  assumes "0 \<le> x" "x \<le> 59" "0 \<le> mi" "mi \<le> 59" "0 \<le> h" "h \<le> 23" and s: "s = 3600 * h + 60 * mi + (x :: int)"
  shows "s mod 60 = x" "s div 60 mod 60 = mi" "s div 3600 = h" "0 \<le> s" "s < 86400"
proof -
  have e: "s = 60 * (60 * h + mi) + x" "s = 3600 * h + (60 * mi + x)" using s by simp_all
  have "s div 60 = 60 * h + mi" using int_div_pos_eq [OF e(1)] assms by simp
  then show "s div 60 mod 60 = mi" using int_mod_pos_eq [of "s div 60" 60 h mi] assms by simp
  show "s mod 60 = x" using int_mod_pos_eq [OF e(1)] assms by simp
  show "s div 3600 = h" using int_div_pos_eq [OF e(2)] assms by simp
  show "0 \<le> s" "s < 86400" using assms by simp_all
qed

lemma march_bounds:
  assumes "0 \<le> M" "M \<le> 11" "0 \<le> d"
    "d < (if M = 11 then 28 + of_bool (leap_year (Y + 1)) else days_in_month ! nat M)"
  shows "d < days_in_month ! nat M \<and> march_start M + d < 365 + of_bool (leap_year (Y + 1))"
  by (insert assms(3,4), rule months_cases [OF assms(1,2)])
    (auto simp: march_start_def days_in_month_def of_bool_def split: if_splits)

lemma valid_tm_march:
  assumes v: "valid_tm tm"
  obtains Y M d s where "march_ok Y M d s" "tm = march_tm Y M d s"
proof
  define M where "M = (if tm_mon tm < 2 then tm_mon tm + 10 else tm_mon tm - 2)"
  define Y where "Y = tm_year tm - 100 - of_bool (10 \<le> M)"
  define d where "d = tm_mday tm - 1"
  define s where "s = 3600 * tm_hour tm + 60 * tm_min tm + tm_sec tm"
  note v' = v [unfolded valid_tm_def Let_def]
  have M: "0 \<le> M" "M \<le> 11" using v' by (auto simp: M_def)
  have m: "tm_mon tm = (if 10 \<le> M then M - 10 else M + 2)" using v' by (simp add: M_def)
  have z: "tm_year tm - 100 = Y + of_bool (10 \<le> M)" by (simp add: Y_def)
  have d: "tm_mday tm = d + 1" by (simp add: d_def)
  have s: "s mod 60 = tm_sec tm" "s div 60 mod 60 = tm_min tm" "s div 3600 = tm_hour tm" "0 \<le> s" "s < 86400"
    using v' by (intro split_time [OF _ _ _ _ _ _ s_def]; simp)+
  note w = v' [unfolded z march_month [OF M m refl] d]
  have "0 \<le> d" "d < (if M = 11 then 28 + of_bool (leap_year (Y + 1)) else days_in_month ! nat M)"
    using w by simp_all
  from march_bounds [OF M this] this(1) show "march_ok Y M d s" using M s(4,5) by (simp add: march_ok_def)
  have "(6 + (60 + march_days Y M d)) mod 7 = (3 + march_days Y M d) mod 7"
    using mod_mult_self1 [of "3 + march_days Y M d" 9 7] by (simp add: algebra_simps)
  with w have "tm_wday tm = (3 + march_days Y M d) mod 7"
    "tm_yday tm = (if 10 \<le> M then march_start M + d - 306 else march_start M + d + 59 + of_bool (leap_year Y))"
    by simp_all
  then show "tm = march_tm Y M d s"
    using m d s z by (simp add: march_tm_def)
qed

lemma mar1_mono: "Y < Y' \<Longrightarrow> mar1 (Y + 1) \<le> mar1 Y'"
proof (induction Y' rule: int_gr_induct)
  case (step i)
  then show ?case using mar1_Suc [of i] by simp
qed simp

lemma march_days_unique:
  assumes "march_ok Y M d s" "march_ok Y' M' d' s'" "march_days Y M d = march_days Y' M' d'"
  shows "Y = Y' \<and> M = M' \<and> d = d'"
proof -
  have *: False if "march_ok Y M d s" "march_ok Y' M' d' s'" "march_days Y M d = march_days Y' M' d'" "Y < Y'"
    for Y M d s Y' M' d' s'
  proof -
    have "0 \<le> march_start M'" using that(2) by (auto simp: march_ok_def march_start_def elim!: months_cases [of M'])
    then show False using that mar1_mono [of Y Y'] mar1_Suc [of Y] by (simp add: march_ok_def march_days_def)
  qed
  then have Y: "Y = Y'" using * [OF assms] * [OF assms(2,1) assms(3) [symmetric]] by (meson linorder_neqE)
  have loop: "month_loop days_in_month 0 (march_start m + x) = Some (m, x)"
    if "0 \<le> m" "m \<le> 11" "0 \<le> x" "x < days_in_month ! nat m" for m x
    by (insert that(3,4), rule months_cases [OF that(1,2)]) (simp_all add: march_start_def days_in_month_def)
  have e: "march_start M' + d' = march_start M + d" using assms(3) Y by (simp add: march_days_def)
  have l: "month_loop days_in_month 0 (march_start M + d) = Some (M, d)"
    "month_loop days_in_month 0 (march_start M' + d') = Some (M', d')"
    using assms(1,2) by (auto intro!: loop simp: march_ok_def)
  have "Some (M, d) = Some (M', d')" by (rule trans [OF l(1) [symmetric] l(2) [unfolded e]])
  with Y show ?thesis by simp
qed


lemma march_range:
  assumes ok: "march_ok Y M d s" and y: "INT_MIN \<le> tm_year (march_tm Y M d s)" "tm_year (march_tm Y M d s) \<le> INT_MAX"
    and t: "t = LEAPOCH + 86400 * march_days Y M d + s"
  shows "INT_MIN * 31622400 \<le> t \<and> t \<le> INT_MAX * 31622400"
proof -
  obtain q c k y where e: "Y = 400 * q + 100 * c + 4 * k + y" "0 \<le> c" "c \<le> 3" "0 \<le> k" "k \<le> 24" "0 \<le> y" "y \<le> 3"
    by (rule year_decomp)
  have m: "mar1 Y = 146097 * q + 36524 * c + 1461 * k + 365 * y" unfolding e(1) by (rule mar1_decomp [OF e(2-7)])
  have Y: "- 2147483749 \<le> Y" "Y \<le> 2147483547"
    using y by (cases "10 \<le> M"; simp add: march_tm_def INT_MIN_def INT_MAX_def)+
  have "0 \<le> march_start M" using ok by (auto simp: march_ok_def march_start_def elim!: months_cases [of M])
  then have d: "0 \<le> march_start M + d" "march_start M + d \<le> 365" "0 \<le> s" "s < 86400"
    using ok by (cases "leap_year (Y + 1)"; simp add: march_ok_def)+
  define r where "r = march_start M + d"
  have N: "march_days Y M d = 146097 * q + 36524 * c + 1461 * k + 365 * y + r" by (simp add: march_days_def m r_def)
  have "INT_MIN * 366 + 1 \<le> march_days Y M d" "march_days Y M d \<le> INT_MAX * 366 - 20000"
    unfolding N INT_MIN_def INT_MAX_def using Y [unfolded e(1)] e(2-7) d(1,2) [folded r_def] by simp_all
  then show ?thesis using d(3,4) unfolding t LEAPOCH_def INT_MIN_def INT_MAX_def by simp
qed

lemma secs_to_tm_cases:
  "secs_to_tm t = Some None \<or>
   (\<exists>tm. secs_to_tm t = Some (Some tm) \<and> valid_tm tm \<and> tm_seconds tm = t \<and> INT_MIN \<le> tm_year tm \<and> tm_year tm \<le> INT_MAX)"
proof (cases "INT_MIN * 31622400 \<le> t \<and> t \<le> INT_MAX * 31622400")
  case True
  then obtain Y M d s where "t = LEAPOCH + 86400 * march_days Y M d + s" "march_ok Y M d s"
    "secs_to_tm t = (let tm = march_tm Y M d s in
      if INT_MIN \<le> tm_year tm \<and> tm_year tm \<le> INT_MAX then Some (Some tm) else Some None)"
    using secs_to_tm_march [of t] by blast
  then show ?thesis using march_tm_valid [of Y M d s] march_tm_seconds [of Y M d s] unfolding Let_def by metis
next
  case False
  then have "secs_to_tm t = Some None" unfolding secs_to_tm_def by (intro if_P) linarith
  then show ?thesis ..
qed

lemma secs_to_tm_seconds:
  assumes v: "valid_tm tm" and y: "INT_MIN \<le> tm_year tm" "tm_year tm \<le> INT_MAX"
  shows "secs_to_tm (tm_seconds tm) = Some (Some tm)"
proof -
  obtain Y M d s where ok: "march_ok Y M d s" and tm: "tm = march_tm Y M d s" using valid_tm_march [OF v] .
  have t: "tm_seconds tm = LEAPOCH + 86400 * march_days Y M d + s" using march_tm_seconds [OF ok] tm by simp
  from march_range [OF ok _ _ t] y tm
  obtain Y' M' d' s' where t': "tm_seconds tm = LEAPOCH + 86400 * march_days Y' M' d' + s'" and ok': "march_ok Y' M' d' s'"
    and r: "secs_to_tm (tm_seconds tm) = (let tm = march_tm Y' M' d' s' in
      if INT_MIN \<le> tm_year tm \<and> tm_year tm \<le> INT_MAX then Some (Some tm) else Some None)"
    using secs_to_tm_march [of "tm_seconds tm"] by blast
  have e: "86400 * march_days Y M d + s = 86400 * march_days Y' M' d' + s'" using t t' by simp
  have s: "0 \<le> s" "s < 86400" "0 \<le> s'" "s' < 86400" using ok ok' by (simp_all add: march_ok_def)
  have "march_days Y M d = march_days Y' M' d'"
    using int_div_pos_eq [OF e s(3,4)] int_div_pos_eq [OF refl s(1,2), of "march_days Y M d"] by simp
  then have "Y = Y' \<and> M = M' \<and> d = d'" "s = s'" using march_days_unique [OF ok ok'] e by simp_all
  then show ?thesis using r tm y by (simp add: Let_def)
qed

text \<open>The day after a date, by the calendar's rules.\<close>

definition next_day :: "tm \<Rightarrow> tm" where
  "next_day tm =
     (let tm = tm\<lparr>tm_wday := (tm_wday tm + 1) mod 7\<rparr> in
      if tm_mday tm < month_length (tm_mon tm) (leap_year (tm_year tm - 100))
      then tm\<lparr>tm_mday := tm_mday tm + 1, tm_yday := tm_yday tm + 1\<rparr>
      else if tm_mon tm < 11 then tm\<lparr>tm_mday := 1, tm_mon := tm_mon tm + 1, tm_yday := tm_yday tm + 1\<rparr>
      else tm\<lparr>tm_mday := 1, tm_mon := 0, tm_year := tm_year tm + 1, tm_yday := 0\<rparr>)"

lemma month_start_Suc: "0 \<le> m \<Longrightarrow> m < 11 \<Longrightarrow> month_start (m + 1) leap = month_start m leap + month_length m leap"
  by (rule months_cases [of m]) (simp_all add: month_start_def month_length_def)

lemma month_length_pos: "0 \<le> m \<Longrightarrow> m \<le> 11 \<Longrightarrow> 1 \<le> month_length m leap"
  by (rule months_cases [of m]) (simp_all add: month_length_def)

lemma jan1_Suc: "jan1 (z + 1) = jan1 z + 365 + of_bool (leap_year z)"
  by (simp add: jan1_mar1 mar1_Suc)

lemma day_number_next:
  assumes m: "0 \<le> tm_mon tm" "tm_mon tm \<le> 11" and d: "tm_mday tm \<le> month_length (tm_mon tm) (leap_year (tm_year tm - 100))"
  shows "day_number (tm_year (next_day tm) - 100) (tm_mon (next_day tm)) (tm_mday (next_day tm)) =
    day_number (tm_year tm - 100) (tm_mon tm) (tm_mday tm) + 1"
proof -
  have "11 = tm_mon tm" if "\<not> tm_mon tm < 11" using that m by simp
  moreover have "tm_year tm - 99 = tm_year tm - 100 + 1" by simp
  ultimately show ?thesis using m d jan1_Suc [of "tm_year tm - 100"] month_start_Suc [of "tm_mon tm" "leap_year (tm_year tm - 100)"]
    by (auto simp: next_day_def Let_def day_number_def month_start_def month_length_def)
qed


lemma next_day_valid: "valid_tm tm \<Longrightarrow> valid_tm (next_day tm) \<and> tm_seconds (next_day tm) = tm_seconds tm + 86400"
proof -
  assume v: "valid_tm tm"
  note v' = v [unfolded valid_tm_def Let_def]
  let ?l = "leap_year (tm_year tm - 100)"
  have m: "0 \<le> tm_mon tm" "tm_mon tm \<le> 11" using v' by simp_all
  have m': "0 \<le> tm_mon (next_day tm)" "tm_mon (next_day tm) \<le> 11" using m by (auto simp: next_day_def Let_def)
  have n: "day_number (tm_year (next_day tm) - 100) (tm_mon (next_day tm)) (tm_mday (next_day tm)) =
      day_number (tm_year tm - 100) (tm_mon tm) (tm_mday tm) + 1"
    using v' by (intro day_number_next) simp_all
  have f: "tm_sec (next_day tm) = tm_sec tm" "tm_min (next_day tm) = tm_min tm" "tm_hour (next_day tm) = tm_hour tm"
    by (simp_all add: next_day_def Let_def)
  have d: "1 \<le> tm_mday (next_day tm) \<and>
      tm_mday (next_day tm) \<le> month_length (tm_mon (next_day tm)) (leap_year (tm_year (next_day tm) - 100)) \<and>
      tm_yday (next_day tm) = month_start (tm_mon (next_day tm)) (leap_year (tm_year (next_day tm) - 100)) + tm_mday (next_day tm) - 1"
    using v' month_start_Suc [of "tm_mon tm" ?l] month_length_pos [of "tm_mon tm + 1" ?l]
    by (auto simp: next_day_def Let_def month_start_def [of 0] month_length_def [of 0])
  have "tm_wday (next_day tm) = (tm_wday tm + 1) mod 7" by (simp add: next_day_def Let_def)
  then have w: "tm_wday (next_day tm) = (6 + (day_number (tm_year tm - 100) (tm_mon tm) (tm_mday tm) + 1)) mod 7"
    using v' by (simp add: mod_add_left_eq)
  have "valid_tm (next_day tm)"
    unfolding valid_tm_def Let_def f n using v' m' d w by (intro conjI) blast+
  moreover have "tm_seconds (next_day tm) = tm_seconds tm + 86400"
    unfolding tm_seconds_def f month_mod [OF m, THEN conjunct1] month_mod [OF m, THEN conjunct2]
      month_mod [OF m', THEN conjunct1] month_mod [OF m', THEN conjunct2] add_0_right n by simp
  ultimately show ?thesis ..
qed

section \<open>The other counts of days\<close>

lemma days_per_date_day_number:
  assumes "1 \<le> year" "1 \<le> month" "month \<le> 12"
  shows "calculate_days_per_date year month day = day_number (year - 2000) (month - 1) day + 730425"
proof -
  define M where "M = (if 3 \<le> month then month - 3 else month + 9)"
  define y where "y = year - of_bool (month < 3)"
  have M: "0 \<le> M" "M \<le> 11" "month - 1 = (if 10 \<le> M then M - 10 else M + 2)" using assms by (auto simp: M_def)
  have z: "year - 2000 = (y - 2000) + of_bool (10 \<le> M)" using assms by (auto simp: M_def y_def)
  have y: "0 \<le> y" using assms by (simp add: y_def)
  have c: "cdiv (month + 9) 12 = of_bool (3 \<le> month)" "cmod (month + 9) 12 = M"
    using assms int_div_pos_eq [of "month + 9" 12 1 "month - 3"] int_mod_pos_eq [of "month + 9" 12 1 "month - 3"]
    by (auto simp: cdiv_nonneg cmod_nonneg M_def div_pos_pos_trivial mod_pos_pos_trivial)
  have s: "cdiv (M * 306 + 5) 10 = march_start M"
    using M(1,2) by (rule months_cases) (simp_all add: cdiv_nonneg march_start_def)
  have q: "(y - 2000) div 4 = y div 4 - 500" "(y - 2000) div 100 = y div 100 - 20" "(y - 2000) div 400 = y div 400 - 5"
    using div_mult_self1 [of 4 "y - 2000" 500] div_mult_self1 [of 100 "y - 2000" 20] div_mult_self1 [of 400 "y - 2000" 5]
    by (simp_all only: diff_add_cancel mult_numeral_left_semiring_numeral num_double mult_num_simps eval_nat_numeral)
  have mar: "mar1 (y - 2000) = y * 365 + y div 4 - y div 100 + y div 400 - 730485" unfolding mar1_def q by simp
  have y': "year - 1 + of_bool (3 \<le> month) = y" by (simp add: y_def)
  have "calculate_days_per_date year month day = y * 365 + y div 4 - y div 100 + y div 400 + march_start M + day - 1"
    unfolding calculate_days_per_date_def Let_def c s y' using y by (simp add: cdiv_nonneg)
  also have "\<dots> = day_number (year - 2000) (month - 1) (day - 1 + 1) + 730425"
    unfolding march_month(1) [OF M z] march_days_def mar by simp
  finally show ?thesis by simp
qed

lemma jan1_near: "- 100 \<le> z \<Longrightarrow> z < 100 \<Longrightarrow> jan1 z + of_bool (leap_year z) = 365 * z + z div 4 + 1"
proof -
  assume z: "- 100 \<le> z" "z < 100"
  have "mar1 z = 365 * z + z div 4"
  proof (cases "z < 0")
    case True
    have "z = 100 * (-1) + (z + 100)" "z = 400 * (-1) + (z + 400)" by simp_all
    from int_div_pos_eq [OF this(1)] int_div_pos_eq [OF this(2)] show ?thesis using z True by (simp add: mar1_def)
  next
    case False
    then show ?thesis using z by (simp add: mar1_def div_pos_pos_trivial)
  qed
  then show ?thesis by (simp add: jan1_mar1)
qed

text \<open>The skew of a month and its days before agree modulo 7.\<close>

lemma month_skew_eq:
  assumes "0 \<le> m" "m \<le> 11"
  shows "at_int month_skew m = Some (month_skew ! nat m) \<and> 0 \<le> month_skew ! nat m \<and>
    month_start m leap =
      month_skew ! nat m + 7 * ([0, 4, 8, 12, 17, 21, 25, 30, 34, 39, 43, 47] ! nat m) + of_bool (leap \<and> 2 \<le> m)"
  using assms by (rule months_cases) (simp_all add: at_int_def at_def month_skew_def month_start_def)

lemma calculate_weekday_day_number:
  assumes y: "1900 \<le> year" "year \<le> 2099" and m: "1 \<le> month" "month \<le> 12" and d: "1 \<le> day"
  shows "calculate_weekday year month day = Some ((6 + day_number (year - 2000) (month - 1) day) mod 7)"
proof -
  let ?z = "year - 2000"
  let ?L = "leap_year ?z"
  have "0 \<le> month - 1" "month - 1 \<le> 11" using m by simp_all
  from month_skew_eq [OF this] obtain k w where k: "at_int month_skew (month - 1) = Some k" "0 \<le> k"
    "month_start (month - 1) ?L = k + 7 * w + of_bool (?L \<and> 2 \<le> month - 1)" by blast
  have mods: "year mod 4 = ?z mod 4" "year mod 100 = ?z mod 100" "year mod 400 = ?z mod 400"
    using mod_mult_self1 [of ?z 500 4] mod_mult_self1 [of ?z 20 100] mod_mult_self1 [of ?z 5 400] by simp_all
  have "?z mod 400 = 0 \<Longrightarrow> ?z mod 100 = 0" using mod_mod_cancel [of 100 400 ?z] by simp
  then have adj: "(if cmod year 4 \<noteq> 0 then 0 else if cmod year 400 = 0 then 1
      else if cmod year 100 = 0 then 0 else 1) = (of_bool ?L :: int)"
    using y by (auto simp: cmod_nonneg leap_year_def mods)
  have q: "cdiv (year - 1900) 4 = ?z div 4 + 25"
    using y div_mult_self1 [of 4 ?z 25] by (simp add: cdiv_nonneg)
  define S where "S = year - 1900 + (?z div 4 + 25) - of_bool (?L \<and> month < 3) + (day + k)"
  have nn: "0 \<le> S"
  proof -
    have "- 25 \<le> ?z div 4" using y zdiv_mono1 [of "- 100" ?z 4] by simp
    then show ?thesis using y d k(2) by (simp add: S_def)
  qed
  have j: "jan1 ?z = 365 * ?z + ?z div 4 + 1 - of_bool ?L" using jan1_near [of ?z] y by simp
  have "6 + day_number ?z (month - 1) day = S + 7 * (w + 52 * ?z - 17)"
    unfolding day_number_def k(3) j S_def by simp
  then have "(6 + day_number ?z (month - 1) day) mod 7 = S mod 7" using mod_mult_self2 by metis
  moreover have "calculate_weekday year month day = Some (cmod S 7)"
    using m unfolding calculate_weekday_def Let_def adj q k(1) S_def by auto
  ultimately show ?thesis using nn by (simp add: cmod_nonneg)
qed


section \<open>Properties\<close>

text \<open>C28. \<open>__secs_to_tm\<close> stays inside its month table for every time, and delivers a broken-down time exactly
  when it is the date of that time: its fields are in range, day of the year and weekday included, its year fits an
  \<open>int\<close>, and \<open>__tm_to_secs\<close> converts it back.\<close>

theorem secs_to_tm_correct:
  "secs_to_tm t \<noteq> None \<and>
   (secs_to_tm t = Some (Some tm) \<longleftrightarrow>
      valid_tm tm \<and> INT_MIN \<le> tm_year tm \<and> tm_year tm \<le> INT_MAX \<and> tm_to_secs tm = Some t)"
proof
  show "secs_to_tm t \<noteq> None" using secs_to_tm_cases [of t] by auto
  show "secs_to_tm t = Some (Some tm) \<longleftrightarrow>
      valid_tm tm \<and> INT_MIN \<le> tm_year tm \<and> tm_year tm \<le> INT_MAX \<and> tm_to_secs tm = Some t"
  proof
    assume s: "secs_to_tm t = Some (Some tm)"
    have "\<exists>tm'. tm = tm' \<and> valid_tm tm' \<and> tm_seconds tm' = t \<and> INT_MIN \<le> tm_year tm' \<and> tm_year tm' \<le> INT_MAX"
      using secs_to_tm_cases [of t] unfolding s by blast
    then show "valid_tm tm \<and> INT_MIN \<le> tm_year tm \<and> tm_year tm \<le> INT_MAX \<and> tm_to_secs tm = Some t"
      unfolding tm_to_secs_eq by blast
  next
    assume "valid_tm tm \<and> INT_MIN \<le> tm_year tm \<and> tm_year tm \<le> INT_MAX \<and> tm_to_secs tm = Some t"
    then show "secs_to_tm t = Some (Some tm)" using secs_to_tm_seconds [of tm] unfolding tm_to_secs_eq by blast
  qed
qed

text \<open>C29. Adding the seconds of a day to a time steps \<open>__secs_to_tm\<close> to the next day of the Gregorian calendar:
  over the ends of months, leap days and the ends of years, with weekday and day of the year.\<close>

theorem secs_to_tm_next_day:
  assumes "secs_to_tm t = Some (Some tm)" "tm_year tm < INT_MAX"
  shows "secs_to_tm (t + 86400) = Some (Some (next_day tm))"
proof -
  have v: "valid_tm tm" "tm_seconds tm = t" "INT_MIN \<le> tm_year tm"
    using secs_to_tm_cases [of t] assms(1) by auto
  have "tm_year tm \<le> tm_year (next_day tm)" "tm_year (next_day tm) \<le> tm_year tm + 1"
    by (simp_all add: next_day_def Let_def)
  then show ?thesis using secs_to_tm_seconds [of "next_day tm"] next_day_valid [OF v(1)] v assms(2) by simp
qed

lemmas secs_to_tm_eval = secs_to_tm_def INT_MIN_def INT_MAX_def LEAPOCH_def DAYS_PER_400Y_def DAYS_PER_100Y_def
  DAYS_PER_4Y_def days_in_month_def cdiv_nonneg cmod_nonneg cdiv_neg cmod_neg Let_def

theorem secs_to_tm_next_day_witness:
  "secs_to_tm (951782400 + 86400) = Some (Some
     \<lparr>tm_sec = 0, tm_min = 0, tm_hour = 0, tm_mday = 1, tm_mon = 2, tm_year = 100, tm_wday = 3, tm_yday = 60\<rparr>)"
proof -
  have "secs_to_tm 951782400 = Some (Some
     \<lparr>tm_sec = 0, tm_min = 0, tm_hour = 0, tm_mday = 29, tm_mon = 1, tm_year = 100, tm_wday = 2, tm_yday = 59\<rparr>)"
    by (simp add: secs_to_tm_eval)
  from secs_to_tm_next_day [OF this] show ?thesis
    by (simp add: INT_MAX_def next_day_def month_length_def leap_year_def Let_def)
qed

text \<open>C30. \<open>timegm\<close> returns for all field values, without a fault: either the time of the fields, with the
  fields replaced by the valid date of the same time, or \<open>-1\<close> with \<open>EOVERFLOW\<close> and the fields untouched, and then no
  valid date with an \<open>int\<close> year has that time.\<close>

theorem timegm_correct:
  "\<exists>t. tm_to_secs tm = Some t \<and>
     ((\<exists>tm'. timegm tm st = Some (t, tm', st) \<and> valid_tm tm' \<and> tm_to_secs tm' = Some t) \<or>
      (timegm tm st = Some (- 1, tm, set_errno EOVERFLOW st) \<and>
       (\<nexists>tm'. valid_tm tm' \<and> tm_to_secs tm' = Some t \<and> INT_MIN \<le> tm_year tm' \<and> tm_year tm' \<le> INT_MAX)))"
proof (cases "secs_to_tm (tm_seconds tm) = Some None")
  case True
  have "tm_seconds tm' \<noteq> tm_seconds tm" if "valid_tm tm'" "INT_MIN \<le> tm_year tm'" "tm_year tm' \<le> INT_MAX" for tm'
    using secs_to_tm_seconds [OF that] True by force
  then show ?thesis using True by (auto simp: timegm_def tm_to_secs_eq)
next
  case False
  then obtain tm' where "secs_to_tm (tm_seconds tm) = Some (Some tm')" "valid_tm tm'" "tm_seconds tm' = tm_seconds tm"
    using secs_to_tm_cases [of "tm_seconds tm"] by blast
  then show ?thesis by (simp add: timegm_def tm_to_secs_eq)
qed

text \<open>The day count \<open>__calculate_days_per_date\<close> agrees with \<open>__tm_to_secs\<close>: for every month and year from
  year 1 on, the seconds of a date are the days since 1 January 1970 times 86400.\<close>

theorem days_per_date_tm_to_secs:
  assumes "1 \<le> year" "1 \<le> month" "month \<le> 12"
    and "tm_year tm = year - 1900" "tm_mon tm = month - 1" "tm_mday tm = day"
  shows "tm_to_secs tm = Some (86400 * (calculate_days_per_date year month day - calculate_days_per_date 1970 1 1) +
    3600 * tm_hour tm + 60 * tm_min tm + tm_sec tm)"
proof -
  have m: "(month - 1) div 12 = 0 \<and> (month - 1) mod 12 = month - 1" using assms by (intro month_mod) simp_all
  have e: "day_number (1970 - 2000) (1 - 1) 1 = - 10957" by (simp add: day_number_def jan1_def month_start_def)
  have y: "year - 1900 - 100 + 0 = year - 2000" by simp
  show ?thesis
    unfolding tm_to_secs_eq tm_seconds_def assms(4-6) m [THEN conjunct1] m [THEN conjunct2] y
      days_per_date_day_number [OF assms(1-3)] days_per_date_day_number [of 1970 1 1, simplified] by (simp add: e [simplified])
qed

theorem days_per_date_tm_to_secs_witness:
  "tm_to_secs \<lparr>tm_sec = 5, tm_min = 4, tm_hour = 3, tm_mday = 29, tm_mon = 1, tm_year = 124, tm_wday = 0, tm_yday = 0\<rparr> =
   Some (86400 * (calculate_days_per_date 2024 2 29 - calculate_days_per_date 1970 1 1) + 3600 * 3 + 60 * 4 + 5)"
  using days_per_date_tm_to_secs [of 2024 2
    "\<lparr>tm_sec = 5, tm_min = 4, tm_hour = 3, tm_mday = 29, tm_mon = 1, tm_year = 124, tm_wday = 0, tm_yday = 0\<rparr>" 29] by simp

text \<open>C31. \<open>__calculate_weekday\<close> gives the weekday that \<open>__secs_to_tm\<close> gives for every date of the years
  1900 to 2099. It does not correct for 2100: 1 January 2100 is a Friday, and it answers Saturday.\<close>

theorem calculate_weekday_correct:
  assumes "secs_to_tm t = Some (Some tm)" "0 \<le> tm_year tm" "tm_year tm \<le> 199"
  shows "calculate_weekday (tm_year tm + 1900) (tm_mon tm + 1) (tm_mday tm) = Some (tm_wday tm) \<and>
    calculate_weekday 2100 1 1 = Some 6 \<and>
    (\<exists>tm. secs_to_tm 4102444800 = Some (Some tm) \<and> tm_year tm = 200 \<and> tm_mon tm = 0 \<and> tm_mday tm = 1 \<and> tm_wday tm = 5)"
proof (intro conjI)
  have "valid_tm tm" using secs_to_tm_cases [of t] assms(1) by auto
  note v = this [unfolded valid_tm_def Let_def]
  then have "calculate_weekday (tm_year tm + 1900) (tm_mon tm + 1) (tm_mday tm) =
      Some ((6 + day_number (tm_year tm + 1900 - 2000) (tm_mon tm + 1 - 1) (tm_mday tm)) mod 7)"
    using assms by (intro calculate_weekday_day_number) simp_all
  then show "calculate_weekday (tm_year tm + 1900) (tm_mon tm + 1) (tm_mday tm) = Some (tm_wday tm)"
    using v by simp
  show "calculate_weekday 2100 1 1 = Some 6"
    by (simp add: calculate_weekday_def cdiv_nonneg cmod_nonneg at_int_def at_def month_skew_def)
  show "\<exists>tm. secs_to_tm 4102444800 = Some (Some tm) \<and> tm_year tm = 200 \<and> tm_mon tm = 0 \<and> tm_mday tm = 1 \<and> tm_wday tm = 5"
    by (simp add: secs_to_tm_eval)
qed

theorem calculate_weekday_correct_witness: "calculate_weekday 1970 1 1 = Some 4"
proof -
  have "secs_to_tm 0 = Some (Some
     \<lparr>tm_sec = 0, tm_min = 0, tm_hour = 0, tm_mday = 1, tm_mon = 0, tm_year = 70, tm_wday = 4, tm_yday = 0\<rparr>)"
    by (simp add: secs_to_tm_eval)
  from calculate_weekday_correct [OF this] show ?thesis by simp
qed

end
