(* ===== verification/StrCmp.thy ===== *)
theory StrCmp
  imports StrCopy Ctype
begin

text \<open>
  The comparison routines of \<^verbatim>\<open>src/library/string\<close>: \<open>memcmp\<close> (which aligns its pointers and compares
  words), \<open>bcmp\<close>, \<open>strcmp\<close>, \<open>strncmp\<close>, \<open>strcasecmp\<close>, \<open>strncasecmp\<close> and the state machine of
  \<open>strverscmp\<close>. The lemmas relate each to the lexicographic comparison of the unsigned bytes.
\<close>

unbundle bit_operations_syntax

section \<open>The reference comparison\<close>

text \<open>The difference of the first two bytes that differ.\<close>

fun bytecmp :: "byte list \<Rightarrow> byte list \<Rightarrow> int" where
  "bytecmp (x # xs) (y # ys) = (if x = y then bytecmp xs ys else uint x - uint y)"
| "bytecmp _ _ = 0"

lemma bytecmp_zero: "length xs = length ys \<Longrightarrow> bytecmp xs ys = 0 \<longleftrightarrow> xs = ys"
  by (induction xs ys rule: list_induct2) (auto simp: word_uint_eq_iff)

lemma bytecmp_antisym: "bytecmp ys xs = - bytecmp xs ys"
  by (induction xs ys rule: bytecmp.induct) auto

lemma bytecmp_less:
  "length xs = length ys \<Longrightarrow> bytecmp xs ys < 0 \<longleftrightarrow> ord_class.lexordp xs ys"
  by (induction xs ys rule: list_induct2) (auto simp: word_less_def word_uint_eq_iff)

lemma uint_nonzero: "b \<noteq> 0 \<Longrightarrow> 0 < uint b" for b :: byte
  using uint_ge_0 [of b] by (simp add: word_uint_eq_iff less_le)

lemma bytecmp_cstr_zero:
  "0 \<notin> set xs \<Longrightarrow> 0 \<notin> set ys \<Longrightarrow> bytecmp (xs @ [0]) (ys @ [0]) = 0 \<longleftrightarrow> xs = ys"
proof (induction xs arbitrary: ys)
  case Nil
  then show ?case by (cases ys) (auto dest!: uint_nonzero)
next
  case (Cons x xs)
  then show ?case by (cases ys) (auto dest!: uint_nonzero simp: word_uint_eq_iff)
qed

lemma bytecmp_cstr_less:
  "0 \<notin> set xs \<Longrightarrow> 0 \<notin> set ys \<Longrightarrow> bytecmp (xs @ [0]) (ys @ [0]) < 0 \<longleftrightarrow> ord_class.lexordp xs ys"
proof (induction xs arbitrary: ys)
  case Nil
  then show ?case by (cases ys) (auto dest!: uint_nonzero)
next
  case (Cons x xs)
  then show ?case by (cases ys) (auto dest!: uint_nonzero simp: word_less_def word_uint_eq_iff)
qed

section \<open>memcmp\<close>

definition be16 :: "byte \<Rightarrow> byte \<Rightarrow> u16" where
  "be16 b0 b1 = push_bit 8 (ucast b0) OR ucast b1"

definition load16 :: "byte list \<Rightarrow> addr \<Rightarrow> u16 option" where
  "load16 m a = do { b0 \<leftarrow> load m a; b1 \<leftarrow> load m (a + 1); Some (be16 b0 b1) }"

lemma be16_eq: "be16 a0 a1 = be16 b0 b1 \<longleftrightarrow> a0 = b0 \<and> a1 = b1"
proof -
  have "ucast (be16 a b) = b" for a b
    by (rule bit_word_eqI) (auto simp: be16_def bit_simps dest: bit_imp_le_length)
  moreover have "ucast (drop_bit 8 (be16 a b)) = a" for a b
    by (rule bit_word_eqI) (auto simp: be16_def bit_simps dest: bit_imp_le_length)
  ultimately show ?thesis by metis
qed

fun memcmp_tail :: "byte list \<Rightarrow> addr \<Rightarrow> addr \<Rightarrow> size_t \<Rightarrow> int \<Rightarrow> int option" where
  "memcmp_tail m m1 m2 0 result = Some result"
| "memcmp_tail m m1 m2 (Suc len) result = do {
     b1 \<leftarrow> load m m1;
     b2 \<leftarrow> load m m2;
     if b1 \<noteq> b2 then Some (uint b1 - uint b2) else memcmp_tail m (m1 + 1) (m2 + 1) len result }"

text \<open>The \<open>do ... while (len >= sizeof(long))\<close> loop; it stops at the first two words that differ.\<close>

function memcmp_longs :: "byte list \<Rightarrow> addr \<Rightarrow> addr \<Rightarrow> size_t \<Rightarrow> (addr \<times> addr \<times> size_t) option" where
  "memcmp_longs m m1 m2 len = do {
     w1 \<leftarrow> load32 m m1;
     w2 \<leftarrow> load32 m m2;
     if w1 \<noteq> w2 then Some (m1, m2, len)
     else if 4 \<le> len - 4 then memcmp_longs m (m1 + 4) (m2 + 4) (len - 4)
     else Some (m1 + 4, m2 + 4, len - 4) }"
  by pat_completeness auto
termination
  by (relation "measure (\<lambda>(m, a, b, n). n)") auto

declare memcmp_longs.simps [simp del]

text \<open>The alignment steps: a byte to reach an even address, a short to reach a word address. The
  flag is set where the source jumps to the byte loop.\<close>

definition memcmp_even :: "byte list \<Rightarrow> addr \<Rightarrow> addr \<Rightarrow> size_t \<Rightarrow> (addr \<times> addr \<times> size_t \<times> int \<times> bool) option" where
  "memcmp_even m m1 m2 len =
     (if m1 mod 2 \<noteq> 0 \<and> m2 mod 2 \<noteq> 0 then do {
        b1 \<leftarrow> load m m1;
        b2 \<leftarrow> load m m2;
        if b1 \<noteq> b2 then Some (m1, m2, len - 1, uint b1 - uint b2, True)
        else Some (m1 + 1, m2 + 1, len - 1, 0, False) }
      else Some (m1, m2, len, 0, False))"

definition memcmp_short :: "byte list \<Rightarrow> addr \<Rightarrow> addr \<Rightarrow> size_t \<Rightarrow> (addr \<times> addr \<times> size_t \<times> bool) option" where
  "memcmp_short m m1 m2 len =
     (if 2 \<le> len \<and> m1 mod 4 = 2 \<and> m2 mod 4 = 2 then do {
        w1 \<leftarrow> load16 m m1;
        w2 \<leftarrow> load16 m m2;
        if w1 \<noteq> w2 then Some (m1, m2, len, True) else Some (m1 + 2, m2 + 2, len - 2, False) }
      else Some (m1, m2, len, False))"

definition memcmp_impl :: "byte list \<Rightarrow> addr \<Rightarrow> addr \<Rightarrow> size_t \<Rightarrow> int option" where
  "memcmp_impl m m1 m2 len =
     (if 4 * 4 < len then do {
        (m1, m2, len, result, stop) \<leftarrow> memcmp_even m m1 m2 len;
        (m1, m2, len, stop) \<leftarrow> (if stop then Some (m1, m2, len, stop) else memcmp_short m m1 m2 len);
        (m1, m2, len) \<leftarrow>
          (if \<not> stop \<and> 4 \<le> len \<and> m1 mod 4 = 0 \<and> m2 mod 4 = 0 then memcmp_longs m m1 m2 len
           else Some (m1, m2, len));
        memcmp_tail m m1 m2 len result }
      else memcmp_tail m m1 m2 len 0)"

definition memcmp :: "addr \<Rightarrow> addr \<Rightarrow> size_t \<Rightarrow> clib \<Rightarrow> (int \<times> clib) option" where
  "memcmp ptr1 ptr2 len st =
     (if ptr1 \<noteq> ptr2 \<and> 0 < len then do { r \<leftarrow> memcmp_impl (ram st) ptr1 ptr2 len; Some (r, st) }
      else Some (0, set_errno EFAULT st))"

definition bcmp :: "addr \<Rightarrow> addr \<Rightarrow> size_t \<Rightarrow> clib \<Rightarrow> (int \<times> clib) option" where
  "bcmp a b len st = memcmp a b len st"

text \<open>\<open>same m a b n (a', b', k)\<close>: the first \<open>n - k\<close> bytes at \<open>a\<close> and \<open>b\<close> agree; the comparison
  continues at \<open>a'\<close> and \<open>b'\<close> with \<open>k\<close> bytes.\<close>

definition same :: "byte list \<Rightarrow> addr \<Rightarrow> addr \<Rightarrow> size_t \<Rightarrow> addr \<times> addr \<times> size_t \<Rightarrow> bool" where
  "same m a b n r \<longleftrightarrow> (case r of (a', b', k) \<Rightarrow> region m a' k \<and> region m b' k \<and>
     bytecmp (slice m a n) (slice m b n) = bytecmp (slice m a' k) (slice m b' k))"

lemma same_start: "region m a n \<Longrightarrow> region m b n \<Longrightarrow> same m a b n (a, b, n)"
  by (simp add: same_def)

lemma bytecmp_append: "length xs = length ys \<Longrightarrow>
    bytecmp (xs @ us) (ys @ vs) = (if xs = ys then bytecmp us vs else bytecmp xs ys)"
  by (induction xs ys rule: list_induct2) auto

lemma same_step:
  assumes "same m a b n (a', b', k)" "j \<le> k" "slice m a' j = slice m b' j"
  shows "same m a b n (a' + j, b' + j, k - j)"
proof -
  have k: "k = j + (k - j)" using assms(2) by simp
  then have "slice m a' k = slice m a' j @ slice m (a' + j) (k - j)" for a'
    using slice_append by metis
  moreover have "region m x j \<and> region m (x + j) (k - j)" if "region m x k" for x
    using that k region_append by metis
  ultimately show ?thesis
    using assms by (simp add: same_def bytecmp_append)
qed

lemma memcmp_tail_same:
  "region m a n \<Longrightarrow> region m b n \<Longrightarrow> r = 0 \<or> bytecmp (slice m a n) (slice m b n) \<noteq> 0 \<Longrightarrow>
   memcmp_tail m a b n r = Some (bytecmp (slice m a n) (slice m b n))"
  by (induction n arbitrary: a b) (auto simp: region_Suc slice_Suc load_def)

lemma memcmp_longs_same:
  "same m a b n (a', b', k) \<Longrightarrow> 4 \<le> k \<Longrightarrow>
   \<exists>r. memcmp_longs m a' b' k = Some r \<and> same m a b n r"
proof (induction m a' b' k rule: memcmp_longs.induct)
  case (1 m a' b' k)
  have r: "region m a' 4" "region m b' 4"
    using "1.prems" by (auto simp: same_def intro: region_mono)
  let ?w = "\<lambda>a. be32 (m ! a) (m ! (a + 1)) (m ! (a + 2)) (m ! (a + 3))"
  have w: "load32 m a' = Some (?w a')" "load32 m b' = Some (?w b')"
    using r by (simp_all add: load32_def load_def region_def mapped_def)
  show ?case
  proof (cases "?w a' = ?w b'")
    case False
    with w "1.prems" show ?thesis by (simp add: memcmp_longs.simps [of m a'])
  next
    case True
    have "slice m x 4 = [m ! x, m ! (x + 1), m ! (x + 2), m ! (x + 3)]" if "region m x 4" for x
      using that slice_Suc [of m x 3] slice_Suc [of m "Suc x" 2] slice_Suc [of m "Suc (Suc x)" 1]
        slice_Suc [of m "Suc (Suc (Suc x))" 0]
      by (simp add: region_def mapped_def eval_nat_numeral)
    then have "slice m a' 4 = slice m b' 4" using True r by (simp add: be32_eq)
    then have s: "same m a b n (a' + 4, b' + 4, k - 4)" using same_step "1.prems" by blast
    with "1.IH" [OF w] True w "1.prems" show ?thesis by (simp add: memcmp_longs.simps [of m a'])
  qed
qed

lemma memcmp_even_same:
  assumes "region m a n" "region m b n" "1 < n"
  shows "\<exists>a' b' k r f. memcmp_even m a b n = Some (a', b', k, r, f) \<and> same m a b n (a', b', k) \<and>
    (r = 0 \<or> bytecmp (slice m a n) (slice m b n) \<noteq> 0)"
proof -
  obtain k where n: "n = Suc (Suc k)" using assms(3) less_iff_Suc_add [of 1 n] by auto
  show ?thesis
  proof (cases "a mod 2 \<noteq> 0 \<and> b mod 2 \<noteq> 0")
    case True
    have mp: "mapped m a" "mapped m b" using assms n by (simp_all add: region_Suc)
    have "m ! a = m ! b \<Longrightarrow> same m a b n (a + 1, b + 1, n - 1)"
      using same_step [OF same_start [OF assms(1,2)], of 1] mp n by (simp add: slice_Suc)
    moreover have "m ! a \<noteq> m ! b \<Longrightarrow> same m a b n (a, b, n - 1) \<and> uint (m ! a) \<noteq> uint (m ! b)"
      using assms n mp region_mono [of m _ n "Suc k"] by (simp add: same_def slice_Suc word_uint_eq_iff)
    ultimately show ?thesis
      using True assms n by (auto simp: memcmp_even_def region_Suc slice_Suc load_def)
  next
    case False
    with same_start [OF assms(1,2)] show ?thesis by (auto simp: memcmp_even_def)
  qed
qed

lemma memcmp_short_same:
  assumes "same m a b n (a', b', k)"
  shows "\<exists>a2 b2 k2 f. memcmp_short m a' b' k = Some (a2, b2, k2, f) \<and> same m a b n (a2, b2, k2)"
proof (cases "2 \<le> k \<and> a' mod 4 = 2 \<and> b' mod 4 = 2")
  case True
  then have r: "region m a' (Suc (Suc 0))" "region m b' (Suc (Suc 0))"
    using assms by (auto simp: same_def intro: region_mono)
  then have "same m a b n (a' + 2, b' + 2, k - 2)" if "m ! a' = m ! b'" "m ! Suc a' = m ! Suc b'"
    using same_step [OF assms, of "Suc (Suc 0)"] True that by (simp add: region_Suc slice_Suc numeral_2_eq_2)
  with True assms r show ?thesis
    by (auto simp: memcmp_short_def load16_def load_def region_Suc be16_eq)
qed (use assms in \<open>auto simp: memcmp_short_def\<close>)

lemma memcmp_impl_spec:
  assumes "region m a n" "region m b n"
  shows "memcmp_impl m a b n = Some (bytecmp (slice m a n) (slice m b n))"
proof (cases "4 * 4 < n")
  case False
  with memcmp_tail_same [OF assms, of 0] show ?thesis by (simp add: memcmp_impl_def)
next
  case True
  then have "1 < n" by simp
  from memcmp_even_same [OF assms this] obtain a1 b1 k1 r f where
    e: "memcmp_even m a b n = Some (a1, b1, k1, r, f)" "same m a b n (a1, b1, k1)"
      "r = 0 \<or> bytecmp (slice m a n) (slice m b n) \<noteq> 0" by blast
  obtain a2 b2 k2 g where
    h: "(if f then Some (a1, b1, k1, f) else memcmp_short m a1 b1 k1) = Some (a2, b2, k2, g)" "same m a b n (a2, b2, k2)"
    using memcmp_short_same [OF e(2)] e(2) by (cases f) auto
  obtain a3 b3 k3 where
    l: "(if \<not> g \<and> 4 \<le> k2 \<and> a2 mod 4 = 0 \<and> b2 mod 4 = 0 then memcmp_longs m a2 b2 k2 else Some (a2, b2, k2)) = Some (a3, b3, k3)"
      "same m a b n (a3, b3, k3)"
    using memcmp_longs_same [OF h(2)] h(2) by (cases "\<not> g \<and> 4 \<le> k2 \<and> a2 mod 4 = 0 \<and> b2 mod 4 = 0") auto
  have "memcmp_tail m a3 b3 k3 r = Some (bytecmp (slice m a n) (slice m b n))"
    using l(2) e(3) memcmp_tail_same [of m a3 k3 b3 r] by (simp add: same_def)
  with True e(1) h(1) l(1) show ?thesis by (simp add: memcmp_impl_def)
qed

section \<open>strcmp and strncmp\<close>

function strcmp_loop :: "byte list \<Rightarrow> addr \<Rightarrow> addr \<Rightarrow> int option" where
  "strcmp_loop m s1 s2 = do {
     c1 \<leftarrow> load m s1;
     c2 \<leftarrow> load m s2;
     if c1 = c2 \<and> c1 \<noteq> 0 then strcmp_loop m (s1 + 1) (s2 + 1) else Some (uint c1 - uint c2) }"
  by pat_completeness auto
termination
  by (relation "measure (\<lambda>(m, a, b). length m - a)") (auto dest!: load_lt)

declare strcmp_loop.simps [simp del]

definition strcmp :: "byte list \<Rightarrow> addr \<Rightarrow> addr \<Rightarrow> int option" where
  "strcmp m s1 s2 = (if s1 \<noteq> s2 then strcmp_loop m s1 s2 else Some 0)"

fun strncmp_loop :: "byte list \<Rightarrow> addr \<Rightarrow> addr \<Rightarrow> size_t \<Rightarrow> int option" where
  "strncmp_loop m s1 s2 0 = Some 0"
| "strncmp_loop m s1 s2 (Suc n) = do {
     c1 \<leftarrow> load m s1;
     c2 \<leftarrow> load m s2;
     if c1 = c2 then (if c1 = 0 then Some 0 else strncmp_loop m (s1 + 1) (s2 + 1) n)
     else Some (uint c1 - uint c2) }"

definition strncmp :: "addr \<Rightarrow> addr \<Rightarrow> size_t \<Rightarrow> clib \<Rightarrow> (int \<times> clib) option" where
  "strncmp s1 s2 n st =
     (if s1 = NULL \<or> s2 = NULL then Some (0, set_errno EFAULT st)
      else if s1 \<noteq> s2 \<and> 0 < int_of_size n
      then do { r \<leftarrow> strncmp_loop (ram st) s1 s2 n; Some (r, st) }
      else Some (0, st))"

lemma strcmp_loop_cstr:
  "cstr m a xs \<Longrightarrow> cstr m b ys \<Longrightarrow> strcmp_loop m a b = Some (bytecmp (xs @ [0]) (ys @ [0]))"
proof (induction xs arbitrary: a b ys)
  case Nil
  then show ?case by (cases ys) (auto simp: strcmp_loop.simps [of m a])
next
  case (Cons x xs)
  then show ?case by (cases ys) (auto simp: strcmp_loop.simps [of m a])
qed

lemma bytecmp_refl [simp]: "bytecmp xs xs = 0"
  by (simp add: bytecmp_zero)

lemma strcmp_cstr:
  assumes "cstr m a xs" "cstr m b ys"
  shows "strcmp m a b = Some (bytecmp (xs @ [0]) (ys @ [0]))"
  using strcmp_loop_cstr [OF assms] cstr_unique [OF assms(1)] assms(2) by (auto simp: strcmp_def)

lemma strncmp_loop_cstr:
  "cstr m a xs \<Longrightarrow> cstr m b ys \<Longrightarrow>
   strncmp_loop m a b n = Some (bytecmp (take n (xs @ [0])) (take n (ys @ [0])))"
proof (induction n arbitrary: a b xs ys)
  case (Suc n)
  then show ?case by (cases xs; cases ys) auto
qed simp

lemma strncmp_cstr:
  assumes "cstr (ram st) a xs" "cstr (ram st) b ys" "n < 2 ^ 31"
  shows "strncmp a b n st = Some (bytecmp (take n (xs @ [0])) (take n (ys @ [0])), st)"
  using strncmp_loop_cstr [OF assms(1,2)] cstr_unique [OF assms(1), of ys] assms(2,3)
    cstr_nonnull [OF assms(1)] cstr_nonnull [OF assms(2)]
  by (auto simp: strncmp_def int_of_size_small)

text \<open>A count of \<open>2 ^ 31\<close> or more is negative as an \<open>int\<close>, and nothing is compared.\<close>

lemma strncmp_huge_count:
  assumes "2 ^ 31 \<le> n" "n < 2 ^ 32" "4 \<le> a" "4 \<le> b"
  shows "strncmp a b n st = Some (0, st)"
proof -
  have "int n mod 2 ^ 32 = int n" using assms(2) by (intro mod_pos_pos_trivial) simp_all
  with assms show ?thesis by (simp add: strncmp_def int_of_size_def Let_def)
qed

section \<open>Comparison without regard to case\<close>

text \<open>The conversion \<open>(unsigned char) toupper(b)\<close>.\<close>

definition fold_case :: "ctype_locale option \<Rightarrow> byte \<Rightarrow> byte" where
  "fold_case loc b = word_of_int (toupper loc (uint b))"

function strcasecmp_loop :: "ctype_locale option \<Rightarrow> byte list \<Rightarrow> addr \<Rightarrow> addr \<Rightarrow> int option" where
  "strcasecmp_loop loc m s1 s2 = do {
     b1 \<leftarrow> load m s1;
     b2 \<leftarrow> load m s2;
     let c1 = fold_case loc b1;
     let c2 = fold_case loc b2;
     if c1 = c2 \<and> c1 \<noteq> 0 then strcasecmp_loop loc m (s1 + 1) (s2 + 1) else Some (uint c1 - uint c2) }"
  by pat_completeness auto
termination
  by (relation "measure (\<lambda>(l, m, a, b). length m - a)") (auto dest!: load_lt)

declare strcasecmp_loop.simps [simp del]

definition strcasecmp :: "ctype_locale option \<Rightarrow> addr \<Rightarrow> addr \<Rightarrow> clib \<Rightarrow> (int \<times> clib) option" where
  "strcasecmp loc s1 s2 st =
     (if s1 = NULL \<or> s2 = NULL then Some (0, set_errno EFAULT st)
      else if s1 \<noteq> s2 then do { r \<leftarrow> strcasecmp_loop loc (ram st) s1 s2; Some (r, st) }
      else Some (0, st))"

fun strncasecmp_loop :: "ctype_locale option \<Rightarrow> byte list \<Rightarrow> addr \<Rightarrow> addr \<Rightarrow> size_t \<Rightarrow> int option" where
  "strncasecmp_loop loc m s1 s2 0 = Some 0"
| "strncasecmp_loop loc m s1 s2 (Suc n) = do {
     b1 \<leftarrow> load m s1;
     b2 \<leftarrow> load m s2;
     let c1 = fold_case loc b1;
     let c2 = fold_case loc b2;
     if c1 = c2 then (if c1 = 0 then Some 0 else strncasecmp_loop loc m (s1 + 1) (s2 + 1) n)
     else Some (uint c1 - uint c2) }"

definition strncasecmp :: "ctype_locale option \<Rightarrow> addr \<Rightarrow> addr \<Rightarrow> size_t \<Rightarrow> clib \<Rightarrow> (int \<times> clib) option" where
  "strncasecmp loc s1 s2 n st =
     (if s1 = NULL \<or> s2 = NULL then Some (0, set_errno EFAULT st)
      else if s1 \<noteq> s2 then do { r \<leftarrow> strncasecmp_loop loc (ram st) s1 s2 n; Some (r, st) }
      else Some (0, st))"

text \<open>A locale whose upper-case map keeps NUL apart from the other characters.\<close>

definition keeps_nul :: "ctype_locale option \<Rightarrow> bool" where
  "keeps_nul loc \<longleftrightarrow> (\<forall>b. fold_case loc b = 0 \<longleftrightarrow> b = 0)"

lemma c_locale_keeps_nul: "keeps_nul None"
proof -
  have "uint (fold_case None b) = toupper None (uint b)" for b
    using toupper_byte [of b] unfolding fold_case_def by (simp add: uint_word_of_int)
  then have "fold_case None b = 0 \<longleftrightarrow> toupper None (uint b) = 0" for b
    using word_uint_eq_iff [of "fold_case None b" 0] by simp
  then show ?thesis by (simp add: keeps_nul_def toupper_zero_iff)
qed

lemma keeps_nul_zero: "keeps_nul loc \<Longrightarrow> fold_case loc 0 = 0"
  by (simp add: keeps_nul_def)

lemma keeps_nul_nonzero: "keeps_nul loc \<Longrightarrow> x \<noteq> 0 \<Longrightarrow> fold_case loc x \<noteq> 0"
  by (simp add: keeps_nul_def)

lemma strcasecmp_loop_cstr:
  assumes k: "keeps_nul loc"
  shows "cstr m a xs \<Longrightarrow> cstr m b ys \<Longrightarrow>
    strcasecmp_loop loc m a b = Some (bytecmp (map (fold_case loc) xs @ [0]) (map (fold_case loc) ys @ [0]))"
proof (induction xs arbitrary: a b ys)
  case Nil
  then show ?case
    by (cases ys) (simp_all add: strcasecmp_loop.simps [of loc m a] keeps_nul_zero [OF k] keeps_nul_nonzero [OF k] Let_def)
next
  case (Cons x xs)
  then show ?case
    by (cases ys) (simp_all add: strcasecmp_loop.simps [of loc m a] keeps_nul_zero [OF k] keeps_nul_nonzero [OF k] Let_def)
qed

lemma strcasecmp_cstr:
  assumes "keeps_nul loc" "cstr (ram st) a xs" "cstr (ram st) b ys"
  shows "strcasecmp loc a b st = Some (bytecmp (map (fold_case loc) xs @ [0]) (map (fold_case loc) ys @ [0]), st)"
  using strcasecmp_loop_cstr [OF assms] cstr_unique [OF assms(2), of ys] assms(3)
    cstr_nonnull [OF assms(2)] cstr_nonnull [OF assms(3)]
  by (auto simp: strcasecmp_def)

lemma strncasecmp_loop_cstr:
  assumes k: "keeps_nul loc"
  shows "cstr m a xs \<Longrightarrow> cstr m b ys \<Longrightarrow> strncasecmp_loop loc m a b n =
    Some (bytecmp (take n (map (fold_case loc) xs @ [0])) (take n (map (fold_case loc) ys @ [0])))"
proof (induction n arbitrary: a b xs ys)
  case (Suc n)
  then show ?case
    by (cases xs; cases ys) (simp_all add: keeps_nul_zero [OF k] keeps_nul_nonzero [OF k] Let_def)
qed simp

lemma strncasecmp_cstr:
  assumes "keeps_nul loc" "cstr (ram st) a xs" "cstr (ram st) b ys"
  shows "strncasecmp loc a b n st =
    Some (bytecmp (take n (map (fold_case loc) xs @ [0])) (take n (map (fold_case loc) ys @ [0])), st)"
  using strncasecmp_loop_cstr [OF assms] cstr_unique [OF assms(2), of ys] assms(3)
    cstr_nonnull [OF assms(2)] cstr_nonnull [OF assms(3)]
  by (auto simp: strncasecmp_def)

section \<open>strverscmp\<close>

text \<open>The states \<open>S_N\<close>, \<open>S_I\<close>, \<open>S_F\<close>, \<open>S_Z\<close> are 0, 3, 6, 9; the results \<open>CMP\<close> and \<open>LEN\<close> are 2 and 3.
  An index outside a table has no value.\<close>

definition next_state :: "nat list" where
  "next_state = [0, 3, 9,  0, 3, 3,  0, 6, 6,  0, 6, 9]"

definition result_type :: "int list" where
  "result_type =
     [2, 2, 2, 2, 3, 2, 2, 2, 2,
      2, -1, -1, 1, 3, 3, 1, 3, 3,
      2, 2, 2, 2, 2, 2, 2, 2, 2,
      2, 1, 1, -1, 2, 2, -1, 2, 2]"

text \<open>\<open>(c == '0') + (isdigit(c) != 0)\<close>\<close>

definition symbol :: "ctype_locale option \<Rightarrow> byte \<Rightarrow> nat" where
  "symbol loc c = of_bool (c = 48) + of_bool (isdigit loc (uint c))"

function strverscmp_loop :: "ctype_locale option \<Rightarrow> byte list \<Rightarrow> addr \<Rightarrow> addr \<Rightarrow> byte \<Rightarrow> byte \<Rightarrow> nat \<Rightarrow>
    (addr \<times> addr \<times> byte \<times> byte \<times> nat) option" where
  "strverscmp_loop loc m p1 p2 c1 c2 state =
     (if uint c1 - uint c2 = 0 \<and> c1 \<noteq> 0 then do {
        state \<leftarrow> at next_state state;
        c1 \<leftarrow> load m p1;
        c2 \<leftarrow> load m p2;
        strverscmp_loop loc m (p1 + 1) (p2 + 1) c1 c2 (state + symbol loc c1) }
      else Some (p1, p2, c1, c2, state))"
  by pat_completeness auto
termination
  by (relation "measure (\<lambda>(l, m, p, q, c, d, s). length m - p)") (auto dest!: load_lt)

function strverscmp_len :: "ctype_locale option \<Rightarrow> byte list \<Rightarrow> addr \<Rightarrow> addr \<Rightarrow> int \<Rightarrow> int option" where
  "strverscmp_len loc m p1 p2 diff = do {
     b1 \<leftarrow> load m p1;
     b2 \<leftarrow> load m p2;
     if isdigit loc (uint b1)
     then if \<not> isdigit loc (uint b2) then Some 1 else strverscmp_len loc m (p1 + 1) (p2 + 1) diff
     else Some (if isdigit loc (uint b2) then -1 else diff) }"
  by pat_completeness auto
termination
  by (relation "measure (\<lambda>(l, m, p, q, d). length m - p)") (auto dest!: load_lt)

declare strverscmp_loop.simps [simp del] strverscmp_len.simps [simp del]

definition strverscmp :: "ctype_locale option \<Rightarrow> byte list \<Rightarrow> addr \<Rightarrow> addr \<Rightarrow> int option" where
  "strverscmp loc m s1 s2 =
     (if s1 = s2 then Some 0 else do {
        c1 \<leftarrow> load m s1;
        c2 \<leftarrow> load m s2;
        (p1, p2, c1, c2, state) \<leftarrow> strverscmp_loop loc m (s1 + 1) (s2 + 1) c1 c2 (symbol loc c1);
        let diff = uint c1 - uint c2;
        if diff = 0 then Some diff else do {
          r \<leftarrow> at result_type (state * 3 + symbol loc c2);
          if r = 2 then Some diff
          else if r = 3 then strverscmp_len loc m p1 p2 diff
          else Some r } })"

lemma symbol_le: "symbol loc c \<le> 2"
  by (simp add: symbol_def)

lemma symbol_nul: "\<not> isdigit loc 0 \<Longrightarrow> symbol loc 0 = 0"
  by (simp add: symbol_def)

lemma next_state_ok:
  assumes "b \<in> {0, 3, 6, 9}" "i \<le> 2"
  shows "\<exists>b' \<in> {0, 3, 6, 9}. at next_state (b + i) = Some b'"
proof -
  have "i = 0 \<or> i = 1 \<or> i = 2" using assms(2) by linarith
  with assms(1) show ?thesis by (auto simp: at_def next_state_def)
qed

lemma result_type_ok:
  assumes "b \<in> {0, 3, 6, 9}" "i \<le> 2" "j \<le> 2"
  shows "\<exists>r. at result_type ((b + i) * 3 + j) = Some r \<and> r \<noteq> 0 \<and> (r = 3 \<longrightarrow> 0 < i \<and> 0 < j)"
proof -
  have "i = 0 \<or> i = 1 \<or> i = 2" "j = 0 \<or> j = 1 \<or> j = 2" using assms(2,3) by linarith+
  with assms(1) show ?thesis by (auto simp: at_def result_type_def)
qed

lemma strverscmp_len_nonzero:
  assumes "\<not> isdigit loc 0" "d \<noteq> 0"
  shows "cstr m p xs \<Longrightarrow> cstr m q ys \<Longrightarrow> \<exists>r. strverscmp_len loc m p q d = Some r \<and> r \<noteq> 0"
proof (induction xs arbitrary: p q ys)
  case Nil
  with assms show ?case by (cases ys) (auto simp: strverscmp_len.simps [of loc m p])
next
  case (Cons x xs)
  with assms show ?case by (cases ys) (auto simp: strverscmp_len.simps [of loc m p])
qed

text \<open>The loop runs over the common prefix; both strings continue behind the characters it ends with.\<close>

lemma strverscmp_loop_prefix:
  assumes "\<not> isdigit loc 0"
  shows "cstr m a xs \<Longrightarrow> cstr m b ys \<Longrightarrow> load m a = Some c \<Longrightarrow> load m b = Some d \<Longrightarrow>
    k \<in> {0, 3, 6, 9} \<Longrightarrow>
    \<exists>p q c' d' k'. strverscmp_loop loc m (a + 1) (b + 1) c d (k + symbol loc c) = Some (p, q, c', d', k' + symbol loc c') \<and>
      k' \<in> {0, 3, 6, 9} \<and> (c' = d' \<longleftrightarrow> xs = ys) \<and>
      (c' \<noteq> 0 \<longrightarrow> (\<exists>us. cstr m p us)) \<and> (d' \<noteq> 0 \<longrightarrow> (\<exists>vs. cstr m q vs))"
proof (induction xs arbitrary: a b ys c d k)
  case Nil
  then show ?case
    by (cases ys) (auto simp: strverscmp_loop.simps [of loc m "a + 1"] strverscmp_loop.simps [of loc m "Suc a"])
next
  case (Cons x xs)
  show ?case
  proof (cases "c = d")
    case True
    then obtain zs where zs: "ys = x # zs" "cstr m (Suc b) zs" "c = x" "x \<noteq> 0" "cstr m (Suc a) xs"
      using Cons.prems by (cases ys) auto
    obtain c2 d2 where l: "load m (Suc a) = Some c2" "load m (Suc b) = Some d2"
      using zs by (cases xs; cases zs) auto
    obtain k2 where k2: "at next_state (k + symbol loc c) = Some k2" "k2 \<in> {0, 3, 6, 9}"
      using next_state_ok [OF Cons.prems(5) symbol_le] by blast
    show ?thesis
      using Cons.IH [OF zs(5,2) l k2(2)] True zs l k2(1)
      by (simp add: strverscmp_loop.simps [of loc m "Suc a"])
  next
    case False
    then have "uint c \<noteq> uint d" by (simp add: word_uint_eq_iff)
    then show ?thesis using False Cons.prems
      by (cases ys) (auto simp: strverscmp_loop.simps [of loc m "Suc a"])
  qed
qed

lemma strverscmp_total:
  assumes dig: "\<not> isdigit loc 0" and s: "cstr m a xs" "cstr m b ys"
  shows "\<exists>r. strverscmp loc m a b = Some r \<and> (r = 0 \<longleftrightarrow> xs = ys)"
proof (cases "a = b")
  case True
  with cstr_unique s show ?thesis by (auto simp: strverscmp_def)
next
  case False
  obtain c d where l: "load m a = Some c" "load m b = Some d" using s by (cases xs; cases ys) auto
  from strverscmp_loop_prefix [OF dig s l, of 0, OF insertI1, unfolded add_0] obtain p q c' d' k' where
    r: "strverscmp_loop loc m (a + 1) (b + 1) c d (symbol loc c) = Some (p, q, c', d', k' + symbol loc c')"
      "k' \<in> {0, 3, 6, 9}" "c' = d' \<longleftrightarrow> xs = ys"
      "c' \<noteq> 0 \<longrightarrow> (\<exists>us. cstr m p us)" "d' \<noteq> 0 \<longrightarrow> (\<exists>vs. cstr m q vs)" by blast
  show ?thesis
  proof (cases "c' = d'")
    case True
    with False l r show ?thesis by (auto simp: strverscmp_def Let_def)
  next
    case ne: False
    obtain t where t: "at result_type ((k' + symbol loc c') * 3 + symbol loc d') = Some t" "t \<noteq> 0"
      "t = 3 \<longrightarrow> 0 < symbol loc c' \<and> 0 < symbol loc d'"
      using result_type_ok [OF r(2) symbol_le symbol_le] by blast
    have d: "uint c' - uint d' \<noteq> 0" using ne by (simp add: word_uint_eq_iff)
    have "\<exists>r. strverscmp_len loc m p q (uint c' - uint d') = Some r \<and> r \<noteq> 0" if "t = 3"
      using that t(3) r(4,5) symbol_nul [OF dig] strverscmp_len_nonzero [OF dig d] by (metis less_irrefl)
    with False l r(1,3) ne d t(1,2) show ?thesis by (auto simp: strverscmp_def Let_def)
  qed
qed

section \<open>What the comparisons decide\<close>

text \<open>C18. \<open>memcmp\<close>, through its byte, short and word steps, returns zero exactly for equal blocks and a
  negative number exactly where the first block is lexicographically smaller as unsigned bytes.\<close>

theorem memcmp_correct:
  assumes "region (ram st) a n" "region (ram st) b n" "a \<noteq> b" "0 < n"
  shows "\<exists>r. memcmp a b n st = Some (r, st) \<and>
    (r = 0 \<longleftrightarrow> slice (ram st) a n = slice (ram st) b n) \<and>
    (r < 0 \<longleftrightarrow> ord_class.lexordp (slice (ram st) a n) (slice (ram st) b n))"
proof -
  have "length (slice (ram st) a n) = length (slice (ram st) b n)" using assms by (simp add: length_slice)
  with memcmp_impl_spec [OF assms(1,2)] assms(3,4) show ?thesis
    by (simp add: memcmp_def bytecmp_zero bytecmp_less)
qed

theorem memcmp_correct_witness:
  "\<exists>r. memcmp 4 8 4 \<lparr>ram = [0, 0, 0, 0, 1, 2, 200, 4, 1, 2, 100, 4], errno = 0\<rparr> =
     Some (r, \<lparr>ram = [0, 0, 0, 0, 1, 2, 200, 4, 1, 2, 100, 4], errno = 0\<rparr>) \<and> \<not> r < 0 \<and> r \<noteq> 0"
  using memcmp_correct [of "\<lparr>ram = [0, 0, 0, 0, 1, 2, 200, 4, 1, 2, 100, 4], errno = 0\<rparr>" 4 4 8]
  by (auto simp: region_def slice_def)

text \<open>C19. On strings, \<open>strcmp\<close> decides equality and the lexicographic order of the unsigned characters,
  and exchanging the arguments changes the sign; \<open>strncmp\<close> compares the first \<open>n\<close> characters.\<close>

theorem strcmp_correct:
  assumes "cstr (ram st) a xs" "cstr (ram st) b ys" "n < 2 ^ 31"
  shows "\<exists>r. strcmp (ram st) a b = Some r \<and> strcmp (ram st) b a = Some (- r) \<and>
    (r = 0 \<longleftrightarrow> xs = ys) \<and> (r < 0 \<longleftrightarrow> ord_class.lexordp xs ys) \<and>
    strncmp a b n st = Some (bytecmp (take n (xs @ [0])) (take n (ys @ [0])), st)"
  using strcmp_cstr [OF assms(1,2)] strcmp_cstr [OF assms(2,1)] bytecmp_antisym [of "ys @ [0]" "xs @ [0]"]
    bytecmp_cstr_zero [OF cstr_nonzero [OF assms(1)] cstr_nonzero [OF assms(2)]]
    bytecmp_cstr_less [OF cstr_nonzero [OF assms(1)] cstr_nonzero [OF assms(2)]] strncmp_cstr [OF assms]
  by simp

theorem strcmp_correct_witness:
  "\<exists>r. strcmp [0, 0, 0, 0, 1, 200, 0, 1, 2, 0] 4 7 = Some r \<and> \<not> r < 0 \<and> r \<noteq> 0"
  using strcmp_correct [of "\<lparr>ram = [0, 0, 0, 0, 1, 200, 0, 1, 2, 0], errno = 0\<rparr>" 4 "[1, 200]" 7 "[1, 2]" 1]
  by (auto simp: load_def mapped_def)

text \<open>A count from \<open>2 ^ 31\<close> up, such as the largest \<open>size_t\<close>, makes \<open>strncmp\<close> report any two strings
  as equal: the source tests \<open>(int) n > 0\<close>.\<close>

theorem strncmp_large_count:
  assumes "cstr (ram st) a xs" "cstr (ram st) b ys" "2 ^ 31 \<le> n" "n < 2 ^ 32"
  shows "strncmp a b n st = Some (0, st)"
  using strncmp_huge_count [OF assms(3,4)] cstr_nonnull [OF assms(1)] cstr_nonnull [OF assms(2)] by simp

theorem strncmp_large_count_witness:
  "strncmp 4 6 4294967295 \<lparr>ram = [0, 0, 0, 0, 1, 0, 2, 0], errno = 0\<rparr> = Some (0, \<lparr>ram = [0, 0, 0, 0, 1, 0, 2, 0], errno = 0\<rparr>)"
  using strncmp_large_count [of "\<lparr>ram = [0, 0, 0, 0, 1, 0, 2, 0], errno = 0\<rparr>" 4 "[1]" 6 "[2]" 4294967295]
  by (simp add: load_def mapped_def)

text \<open>C20. Under a locale that keeps NUL apart (the C locale does), \<open>strcasecmp\<close> and \<open>strncasecmp\<close>
  compare the strings with every character replaced by its upper-case form.\<close>

theorem strcasecmp_correct:
  assumes "keeps_nul loc" "cstr (ram st) a xs" "cstr (ram st) b ys"
  shows "strcasecmp loc a b st = Some (bytecmp (map (fold_case loc) xs @ [0]) (map (fold_case loc) ys @ [0]), st) \<and>
    strncasecmp loc a b n st =
      Some (bytecmp (take n (map (fold_case loc) xs @ [0])) (take n (map (fold_case loc) ys @ [0])), st)"
  using strcasecmp_cstr [OF assms] strncasecmp_cstr [OF assms] by blast

theorem strcasecmp_correct_witness:
  "strcasecmp None 4 7 \<lparr>ram = [0, 0, 0, 0, 72, 105, 0, 104, 73, 0], errno = 0\<rparr> =
     Some (0, \<lparr>ram = [0, 0, 0, 0, 72, 105, 0, 104, 73, 0], errno = 0\<rparr>)"
  using strcasecmp_correct [OF c_locale_keeps_nul,
      of "\<lparr>ram = [0, 0, 0, 0, 72, 105, 0, 104, 73, 0], errno = 0\<rparr>" 4 "[72, 105]" 7 "[104, 73]" 1]
  by (simp add: load_def mapped_def fold_case_def toupper_def)

text \<open>C21. \<open>strverscmp\<close> returns on all strings: its state never leaves the two tables and the digit scan
  never passes a terminator; and it returns zero exactly for equal strings.\<close>

theorem strverscmp_correct:
  assumes "\<not> isdigit loc 0" "cstr m a xs" "cstr m b ys"
  shows "\<exists>r. strverscmp loc m a b = Some r \<and> (r = 0 \<longleftrightarrow> xs = ys)"
  using assms by (rule strverscmp_total)

theorem strverscmp_correct_witness:
  "\<exists>r. strverscmp None [0, 0, 0, 0, 97, 49, 48, 0, 97, 57, 0, 0] 4 8 = Some r \<and> r \<noteq> 0"
  using strverscmp_correct [of None "[0, 0, 0, 0, 97, 49, 48, 0, 97, 57, 0, 0]" 4 "[97, 49, 48]" 8 "[97, 57]"]
  by (auto simp: load_def mapped_def isdigit_def)

end
