(* ===== verification/Compare.thy ===== *)
theory Compare
  imports StrCmp
begin

text \<open>
  The contract of the comparison functions that \<open>tsearch\<close>, \<open>bsearch\<close>, \<open>qsort\<close> and the sorted lists take as an
  argument, and the proof that \<open>strcmp\<close> meets it on the strings of a memory.
\<close>

locale compare_spec =
  fixes cmp :: "'k \<Rightarrow> 'k \<Rightarrow> int" and ok :: "'k \<Rightarrow> bool"
  assumes cmp_sym: "ok x \<Longrightarrow> ok y \<Longrightarrow> cmp x y < 0 \<longleftrightarrow> 0 < cmp y x"
    and cmp_trans: "ok x \<Longrightarrow> ok y \<Longrightarrow> ok z \<Longrightarrow> cmp x y \<le> 0 \<Longrightarrow> cmp y z \<le> 0 \<Longrightarrow> cmp x z \<le> 0"
begin

lemma cmp_refl: "ok x \<Longrightarrow> cmp x x = 0"
  using cmp_sym [of x x] by linarith

lemma cmp_eq_sym: "ok x \<Longrightarrow> ok y \<Longrightarrow> cmp x y = 0 \<longleftrightarrow> cmp y x = 0"
  using cmp_sym [of x y] cmp_sym [of y x] by linarith

lemma cmp_ge: "ok x \<Longrightarrow> ok y \<Longrightarrow> 0 \<le> cmp x y \<longleftrightarrow> cmp y x \<le> 0"
  using cmp_sym [of x y] by linarith

lemma cmp_less_le: "ok x \<Longrightarrow> ok y \<Longrightarrow> ok z \<Longrightarrow> cmp x y < 0 \<Longrightarrow> cmp y z \<le> 0 \<Longrightarrow> cmp x z < 0"
  using cmp_trans [of y z x] cmp_sym [of x y] cmp_ge [of x z] by linarith

lemma cmp_le_less: "ok x \<Longrightarrow> ok y \<Longrightarrow> ok z \<Longrightarrow> cmp x y \<le> 0 \<Longrightarrow> cmp y z < 0 \<Longrightarrow> cmp x z < 0"
  using cmp_trans [of z x y] cmp_sym [of y z] cmp_ge [of x z] by linarith

lemma cmp_eq_less: "ok x \<Longrightarrow> ok y \<Longrightarrow> ok z \<Longrightarrow> cmp x y = 0 \<Longrightarrow> cmp x z < 0 \<longleftrightarrow> cmp y z < 0"
  using cmp_le_less [of x y z] cmp_le_less [of y x z] cmp_eq_sym [of x y] by linarith

lemma cmp_eq_greater: "ok x \<Longrightarrow> ok y \<Longrightarrow> ok z \<Longrightarrow> cmp x y = 0 \<Longrightarrow> 0 < cmp x z \<longleftrightarrow> 0 < cmp y z"
  using cmp_less_le [of z x y] cmp_less_le [of z y x] cmp_eq_sym [of x y] cmp_sym [of z x] cmp_sym [of z y] by linarith

lemma cmp_eq_eq: "ok x \<Longrightarrow> ok y \<Longrightarrow> ok z \<Longrightarrow> cmp x y = 0 \<Longrightarrow> cmp x z = 0 \<longleftrightarrow> cmp y z = 0"
  using cmp_eq_less [of x y z] cmp_eq_greater [of x y z] by linarith

end

text \<open>The value of \<open>strcmp\<close> on two addresses, and the addresses of strings.\<close>

definition strcmp_value :: "byte list \<Rightarrow> addr \<Rightarrow> addr \<Rightarrow> int" where
  "strcmp_value m a b = (case strcmp m a b of Some r \<Rightarrow> r | None \<Rightarrow> 0)"

definition is_string :: "byte list \<Rightarrow> addr \<Rightarrow> bool" where
  "is_string m a \<longleftrightarrow> (\<exists>xs. cstr m a xs)"

lemma strcmp_value_cstr:
  assumes "cstr m a xs" "cstr m b ys"
  shows "strcmp_value m a b < 0 \<longleftrightarrow> ord_class.lexordp xs ys" "0 < strcmp_value m a b \<longleftrightarrow> ord_class.lexordp ys xs"
    "strcmp_value m a b = 0 \<longleftrightarrow> xs = ys"
proof -
  note nz = cstr_nonzero [OF assms(1)] cstr_nonzero [OF assms(2)]
  have v: "strcmp_value m a b = bytecmp (xs @ [0]) (ys @ [0])"
    using strcmp_cstr [OF assms] by (simp add: strcmp_value_def)
  show "strcmp_value m a b < 0 \<longleftrightarrow> ord_class.lexordp xs ys" "strcmp_value m a b = 0 \<longleftrightarrow> xs = ys"
    unfolding v using bytecmp_cstr_less [OF nz] bytecmp_cstr_zero [OF nz] by simp_all
  show "0 < strcmp_value m a b \<longleftrightarrow> ord_class.lexordp ys xs"
    unfolding v using bytecmp_cstr_less [OF nz(2,1)] bytecmp_antisym [of "ys @ [0]" "xs @ [0]"] by simp
qed

interpretation strings: compare_spec "strcmp_value m" "is_string m" for m
proof
  fix x y assume "is_string m x" "is_string m y"
  then show "strcmp_value m x y < 0 \<longleftrightarrow> 0 < strcmp_value m y x"
    unfolding is_string_def using strcmp_value_cstr by metis
next
  fix x y z assume "is_string m x" "is_string m y" "is_string m z"
  then obtain xs ys zs where c: "cstr m x xs" "cstr m y ys" "cstr m z zs" unfolding is_string_def by blast
  assume "strcmp_value m x y \<le> 0" "strcmp_value m y z \<le> 0"
  then have "\<not> ord_class.lexordp ys xs" "\<not> ord_class.lexordp zs ys"
    using strcmp_value_cstr(2) [OF c(1,2)] strcmp_value_cstr(2) [OF c(2,3)] by linarith+
  then have "\<not> ord_class.lexordp zs xs" using lexordp_linear lexordp_trans by metis
  then show "strcmp_value m x z \<le> 0" using strcmp_value_cstr(2) [OF c(1,3)] by linarith
qed

end
