(* ===== verification/Dict.thy ===== *)
theory Dict
  imports CMem
begin

text \<open>
  The contract that the search tables of \<^verbatim>\<open>src/library/search\<close> share: \<open>enter\<close> finds the entry of a key or adds one
  at an address \<open>malloc\<close> returned, \<open>find\<close> returns the address of the entry or \<open>NULL\<close>. What a series of calls
  computes is proved once from the contract.
\<close>

locale search_table =
  fixes inv :: "'s \<Rightarrow> bool" and fresh :: "addr \<Rightarrow> 's \<Rightarrow> bool" and key_ok :: "'k \<Rightarrow> bool" and same :: "'k \<Rightarrow> 'k \<Rightarrow> bool"
    and find :: "'k \<Rightarrow> 's \<Rightarrow> addr" and enter :: "addr \<Rightarrow> 'k \<Rightarrow> 's \<Rightarrow> addr \<times> 's"
  assumes enter_inv: "inv s \<Longrightarrow> key_ok k \<Longrightarrow> fresh q s \<Longrightarrow> inv (snd (enter q k s))"
    and enter_result: "inv s \<Longrightarrow> key_ok k \<Longrightarrow> fresh q s \<Longrightarrow> fst (enter q k s) = (if find k s = NULL then q else find k s)"
    and enter_fresh: "inv s \<Longrightarrow> key_ok k \<Longrightarrow> fresh q s \<Longrightarrow> fresh q' s \<Longrightarrow> q \<noteq> q' \<Longrightarrow> fresh q' (snd (enter q k s))"
    and find_enter: "inv s \<Longrightarrow> key_ok k \<Longrightarrow> key_ok k' \<Longrightarrow> fresh q s \<Longrightarrow>
      find k' (snd (enter q k s)) = (if find k s = NULL \<and> same k k' then q else find k' s)"
    and find_same: "inv s \<Longrightarrow> key_ok k \<Longrightarrow> key_ok k' \<Longrightarrow> same k k' \<Longrightarrow> find k s = find k' s"
    and fresh_NULL: "fresh q s \<Longrightarrow> q \<noteq> NULL"
begin

text \<open>Entering keys one after the other: the first entry of a key stays.\<close>

primrec enter_all :: "(addr \<times> 'k) list \<Rightarrow> 's \<Rightarrow> 's" where
  "enter_all [] s = s"
| "enter_all (e # es) s = enter_all es (snd (enter (fst e) (snd e) s))"

lemma enter_all_correct:
  assumes "inv s" "\<forall>(q, k) \<in> set es. key_ok k \<and> fresh q s" "distinct (map fst es)" "key_ok k"
  shows "inv (enter_all es s) \<and>
    find k (enter_all es s) =
      (if find k s \<noteq> NULL then find k s
       else (case List.find (\<lambda>e. same (snd e) k) es of Some e \<Rightarrow> fst e | None \<Rightarrow> NULL))"
  using assms
proof (induction es arbitrary: s)
  case (Cons e es)
  obtain q j where e: "e = (q, j)" by fastforce
  have q: "key_ok j" "fresh q s" "q \<noteq> NULL" using Cons.prems(2) fresh_NULL by (auto simp: e)
  let ?s = "snd (enter q j s)"
  have "key_ok k \<and> fresh q' ?s" if "(q', k) \<in> set es" for q' k
  proof -
    have "q \<noteq> q'" using Cons.prems(3) that by (auto simp: e rev_image_eqI)
    then show ?thesis using Cons.prems(1,2) q that enter_fresh [of s j q q'] by auto
  qed
  then have "inv (enter_all es ?s) \<and> find k (enter_all es ?s) =
      (if find k ?s \<noteq> NULL then find k ?s
       else (case List.find (\<lambda>e. same (snd e) k) es of Some e \<Rightarrow> fst e | None \<Rightarrow> NULL))"
    using Cons.prems q by (intro Cons.IH enter_inv) (auto simp: e)
  moreover have "find k ?s = (if find j s = NULL \<and> same j k then q else find k s)"
    using find_enter Cons.prems(1,4) q by blast
  moreover have "same j k \<Longrightarrow> find j s = find k s" using find_same Cons.prems(1,4) q by blast
  ultimately show ?case using q(3) by (simp add: e)
qed simp

end

end
