(* ===== verification/SearchTree.thy ===== *)
theory SearchTree
  imports Compare Dict "HOL-Library.Multiset"
begin

text \<open>
  The binary search tree of \<^verbatim>\<open>src/library/search\<close>: \<open>tsearch\<close>, \<open>tfind\<close>, \<open>tdelete\<close>, \<open>twalk\<close> and \<open>tdestroy\<close>. A node
  carries its address, so that the pointers the functions return and the nodes they free are part of the model; the
  links own their subtrees. The result of \<open>malloc\<close> is an argument. The lemmas relate the functions to the
  in-order list of the nodes.
\<close>

section \<open>The functions\<close>

datatype 'k node_t = Leaf | Node (node_addr: addr) (node_key: 'k) (llink: "'k node_t") (rlink: "'k node_t")

datatype VISIT = preorder | postorder | endorder | leaf

text \<open>The loops follow a pointer to a link; the recursion returns the link's new content. A missing root
  pointer is \<open>None\<close>.\<close>

fun tsearch_loop :: "('k \<Rightarrow> 'k \<Rightarrow> int) \<Rightarrow> addr \<Rightarrow> 'k \<Rightarrow> 'k node_t \<Rightarrow> addr \<times> 'k node_t" where
  "tsearch_loop compar q vkey Leaf = (if q \<noteq> NULL then (q, Node q vkey Leaf Leaf) else (NULL, Leaf))"
| "tsearch_loop compar q vkey (Node a k l r) =
     (let c = compar vkey k in
      if c = 0 then (a, Node a k l r)
      else if c < 0 then (let (p, l') = tsearch_loop compar q vkey l in (p, Node a k l' r))
      else (let (p, r') = tsearch_loop compar q vkey r in (p, Node a k l r')))"

definition tsearch :: "('k \<Rightarrow> 'k \<Rightarrow> int) \<Rightarrow> addr \<Rightarrow> 'k \<Rightarrow> 'k node_t option \<Rightarrow> addr \<times> 'k node_t option" where
  "tsearch compar q vkey rootp =
     (case rootp of None \<Rightarrow> (NULL, None)
      | Some t \<Rightarrow> let (p, t) = tsearch_loop compar q vkey t in (p, Some t))"

fun tfind_loop :: "('k \<Rightarrow> 'k \<Rightarrow> int) \<Rightarrow> 'k \<Rightarrow> 'k node_t \<Rightarrow> addr" where
  "tfind_loop compar vkey Leaf = NULL"
| "tfind_loop compar vkey (Node a k l r) =
     (let c = compar vkey k in
      if c = 0 then a else if c < 0 then tfind_loop compar vkey l else tfind_loop compar vkey r)"

definition tfind :: "('k \<Rightarrow> 'k \<Rightarrow> int) \<Rightarrow> 'k \<Rightarrow> 'k node_t option \<Rightarrow> addr" where
  "tfind compar vkey rootp = (case rootp of None \<Rightarrow> NULL | Some t \<Rightarrow> tfind_loop compar vkey t)"

text \<open>Step D3: follow the left links from \<open>r\<close> to the node \<open>q\<close> without one, and take it out of the tree.\<close>

fun unlink_leftmost :: "'k node_t \<Rightarrow> (addr \<times> 'k \<times> 'k node_t) option" where
  "unlink_leftmost (Node b kb (Node c kc Leaf rc) rb) = Some (c, kc, Node b kb rc rb)"
| "unlink_leftmost (Node b kb (Node c kc (Node d kd ld rd) rc) rb) =
     (case unlink_leftmost (Node c kc (Node d kd ld rd) rc) of
        Some (a, k, t) \<Rightarrow> Some (a, k, Node b kb t rb) | None \<Rightarrow> None)"
| "unlink_leftmost _ = None"

text \<open>What replaces a deleted node, from its links.\<close>

definition tdelete_join :: "'k node_t \<Rightarrow> 'k node_t \<Rightarrow> 'k node_t" where
  "tdelete_join l r =
     (if l = Leaf then r
      else (case r of
          Leaf \<Rightarrow> l
        | Node b kb Leaf rb \<Rightarrow> Node b kb l rb
        | _ \<Rightarrow> (case unlink_leftmost r of Some (a, k, r') \<Rightarrow> Node a k l r' | None \<Rightarrow> r)))"

text \<open>The result, the new tree and the freed node; \<open>p\<close> is the parent so far.\<close>

fun tdelete_loop :: "('k \<Rightarrow> 'k \<Rightarrow> int) \<Rightarrow> 'k \<Rightarrow> addr \<Rightarrow> 'k node_t \<Rightarrow> addr \<times> 'k node_t \<times> addr list" where
  "tdelete_loop compar vkey p Leaf = (NULL, Leaf, [])"
| "tdelete_loop compar vkey p (Node a k l r) =
     (let c = compar vkey k in
      if c = 0 then (p, tdelete_join l r, [a])
      else if c < 0 then (let (q, l', fr) = tdelete_loop compar vkey a l in (q, Node a k l' r, fr))
      else (let (q, r', fr) = tdelete_loop compar vkey a r in (q, Node a k l r', fr)))"

definition tdelete :: "('k \<Rightarrow> 'k \<Rightarrow> int) \<Rightarrow> 'k \<Rightarrow> 'k node_t option \<Rightarrow> addr \<times> 'k node_t option \<times> addr list" where
  "tdelete compar vkey rootp =
     (case rootp of
        None \<Rightarrow> (NULL, None, [])
      | Some Leaf \<Rightarrow> (NULL, Some Leaf, [])
      | Some t \<Rightarrow> let (p, t, fr) = tdelete_loop compar vkey (node_addr t) t in (p, Some t, fr))"

text \<open>The calls of \<open>action\<close>, in order.\<close>

fun twalk_recurse :: "'k node_t \<Rightarrow> int \<Rightarrow> (addr \<times> VISIT \<times> int) list" where
  "twalk_recurse Leaf level = []"
| "twalk_recurse (Node a k Leaf Leaf) level = [(a, leaf, level)]"
| "twalk_recurse (Node a k l r) level =
     (a, preorder, level) # (if l \<noteq> Leaf then twalk_recurse l (level + 1) else []) @
     (a, postorder, level) # (if r \<noteq> Leaf then twalk_recurse r (level + 1) else []) @ [(a, endorder, level)]"

definition twalk :: "'k node_t \<Rightarrow> (addr \<times> VISIT \<times> int) list" where
  "twalk root = (if root \<noteq> Leaf then twalk_recurse root 0 else [])"

text \<open>The keys given to \<open>free_action\<close> and the freed nodes, in order.\<close>

fun tdestroy_recurse :: "'k node_t \<Rightarrow> ('k \<times> addr) list" where
  "tdestroy_recurse Leaf = []"
| "tdestroy_recurse (Node a k l r) =
     (if l \<noteq> Leaf then tdestroy_recurse l else []) @ (if r \<noteq> Leaf then tdestroy_recurse r else []) @ [(k, a)]"

definition tdestroy :: "'k node_t \<Rightarrow> ('k \<times> addr) list" where
  "tdestroy root = (if root \<noteq> Leaf then tdestroy_recurse root else [])"

section \<open>The in-order list\<close>

fun nodes :: "'k node_t \<Rightarrow> (addr \<times> 'k) list" where
  "nodes Leaf = []"
| "nodes (Node a k l r) = nodes l @ (a, k) # nodes r"

lemma nodes_Nil [simp]: "nodes t = [] \<longleftrightarrow> t = Leaf"
  by (cases t) simp_all

lemma unlink_leftmost_nodes: "unlink_leftmost t = Some (a, k, t') \<Longrightarrow> nodes t = (a, k) # nodes t'"
  by (induction t arbitrary: t' rule: unlink_leftmost.induct) (auto split: option.splits)

lemma unlink_leftmost_Some: "\<exists>a k t. unlink_leftmost (Node b kb (Node c kc lc rc) rb) = Some (a, k, t)"
proof (induction lc arbitrary: b kb c kc rc rb)
  case (Node d kd ld rd)
  then obtain a k t where "unlink_leftmost (Node c kc (Node d kd ld rd) rc) = Some (a, k, t)" by blast
  then show ?case by simp
qed simp

lemma nodes_tdelete_join: "nodes (tdelete_join l r) = nodes l @ nodes r"
proof (cases r)
  case r: (Node b kb lb rb)
  show ?thesis
  proof (cases lb)
    case lb: (Node c kc lc rc)
    obtain a k t where u: "unlink_leftmost r = Some (a, k, t)"
      using unlink_leftmost_Some [of b kb c kc lc rc rb] unfolding r lb by blast
    then show ?thesis using unlink_leftmost_nodes [OF u] r lb by (simp add: tdelete_join_def)
  qed (simp add: tdelete_join_def r)
qed (simp add: tdelete_join_def)

text \<open>The tree order: keys strictly increasing.\<close>

definition search_tree :: "('k \<Rightarrow> 'k \<Rightarrow> int) \<Rightarrow> ('k \<Rightarrow> bool) \<Rightarrow> 'k node_t \<Rightarrow> bool" where
  "search_tree cmp ok t \<longleftrightarrow>
     sorted_wrt (\<lambda>x y. cmp (snd x) (snd y) < 0) (nodes t) \<and> (\<forall>(a, k) \<in> set (nodes t). ok k \<and> a \<noteq> NULL) \<and>
     distinct (map fst (nodes t))"

text \<open>The node with a key, as the first of the list that compares equal.\<close>

definition find_node :: "('k \<Rightarrow> 'k \<Rightarrow> int) \<Rightarrow> 'k \<Rightarrow> (addr \<times> 'k) list \<Rightarrow> addr" where
  "find_node cmp vkey ns = (case filter (\<lambda>(a, k). cmp vkey k = 0) ns of [] \<Rightarrow> NULL | (a, k) # _ \<Rightarrow> a)"

text \<open>The place of a key in the list: smaller keys before it, larger ones behind it.\<close>

definition split_at :: "('k \<Rightarrow> 'k \<Rightarrow> int) \<Rightarrow> 'k \<Rightarrow> (addr \<times> 'k) list \<Rightarrow> (addr \<times> 'k) list \<Rightarrow> bool" where
  "split_at cmp vkey xs ys \<longleftrightarrow> (\<forall>x \<in> set xs. 0 < cmp vkey (snd x)) \<and> (\<forall>y \<in> set ys. cmp vkey (snd y) < 0)"

context compare_spec
begin

lemma sorted_nodes_less:
  assumes "search_tree cmp ok (Node a k l r)" "ok vkey"
  shows "cmp vkey k \<le> 0 \<Longrightarrow> x \<in> set (nodes r) \<Longrightarrow> cmp vkey (snd x) < 0"
    and "0 \<le> cmp vkey k \<Longrightarrow> x \<in> set (nodes l) \<Longrightarrow> 0 < cmp vkey (snd x)"
proof -
  have o: "ok k" "x \<in> set (nodes l) \<union> set (nodes r) \<Longrightarrow> ok (snd x)" for x
    using assms(1) by (cases x; force simp: search_tree_def)+
  show "cmp vkey (snd x) < 0" if "cmp vkey k \<le> 0" "x \<in> set (nodes r)"
    using that o cmp_le_less [of vkey k "snd x"] assms by (auto simp: search_tree_def sorted_wrt_append)
  show "0 < cmp vkey (snd x)" if "0 \<le> cmp vkey k" "x \<in> set (nodes l)"
    using that o cmp_less_le [of "snd x" k vkey] cmp_ge [of vkey k] cmp_sym [of "snd x" vkey] assms
    by (auto simp: search_tree_def sorted_wrt_append)
qed

lemma search_tree_links: "search_tree cmp ok (Node a k l r) \<Longrightarrow> search_tree cmp ok l \<and> search_tree cmp ok r"
  by (auto simp: search_tree_def sorted_wrt_append)

lemma tfind_loop_nodes:
  "search_tree cmp ok t \<Longrightarrow> ok vkey \<Longrightarrow> tfind_loop cmp vkey t = find_node cmp vkey (nodes t)"
proof (induction t)
  case (Node a k l r)
  note less = sorted_nodes_less [OF Node.prems]
  have f: "filter (\<lambda>(a, k). cmp vkey k = 0) (nodes r) = []" if "cmp vkey k \<le> 0"
    using less(1) [OF that] by (fastforce simp: filter_empty_conv)
  have g: "filter (\<lambda>(a, k). cmp vkey k = 0) (nodes l) = []" if "0 \<le> cmp vkey k"
    using less(2) [OF that] by (fastforce simp: filter_empty_conv)
  show ?case using Node search_tree_links [OF Node.prems(1)] f g by (simp add: find_node_def Let_def)
qed (simp add: find_node_def)

text \<open>\<open>tsearch\<close> puts a new node between the smaller and the larger keys.\<close>

lemma tsearch_loop_new:
  "search_tree cmp ok t \<Longrightarrow> ok vkey \<Longrightarrow> q \<noteq> NULL \<Longrightarrow> tfind_loop cmp vkey t = NULL \<Longrightarrow>
   \<exists>t' xs ys. tsearch_loop cmp q vkey t = (q, t') \<and> nodes t = xs @ ys \<and> nodes t' = xs @ (q, vkey) # ys \<and> split_at cmp vkey xs ys"
proof (induction t)
  case (Node a k l r)
  note less = sorted_nodes_less [OF Node.prems(1,2)]
  note links = search_tree_links [OF Node.prems(1)]
  have "a \<noteq> NULL" using Node.prems(1) by (auto simp: search_tree_def)
  then consider "cmp vkey k < 0" "tfind_loop cmp vkey l = NULL" | "0 < cmp vkey k" "tfind_loop cmp vkey r = NULL"
    using Node.prems(4) by (auto simp: Let_def split: if_splits)
  then show ?case
  proof cases
    case 1
    then obtain l' xs ys where "tsearch_loop cmp q vkey l = (q, l')" "nodes l = xs @ ys" "nodes l' = xs @ (q, vkey) # ys"
      "split_at cmp vkey xs ys" using Node.IH(1) links Node.prems(2,3) by blast
    then show ?thesis using 1 less(1)
      by (intro exI [of _ "Node a k l' r"] exI [of _ xs] exI [of _ "ys @ (a, k) # nodes r"]) (auto simp: split_at_def)
  next
    case 2
    then obtain r' xs ys where "tsearch_loop cmp q vkey r = (q, r')" "nodes r = xs @ ys" "nodes r' = xs @ (q, vkey) # ys"
      "split_at cmp vkey xs ys" using Node.IH(2) links Node.prems(2,3) by blast
    then show ?thesis using 2 less(2)
      by (intro exI [of _ "Node a k l r'"] exI [of _ "nodes l @ (a, k) # xs"] exI [of _ ys]) (auto simp: split_at_def)
  qed
qed (auto simp: split_at_def)

text \<open>\<open>tdelete\<close> takes the node with the key out of the list.\<close>

lemma tdelete_loop_found:
  "search_tree cmp ok t \<Longrightarrow> ok vkey \<Longrightarrow> p \<noteq> NULL \<Longrightarrow> tfind_loop cmp vkey t \<noteq> NULL \<Longrightarrow>
   \<exists>q t' xs a k ys. tdelete_loop cmp vkey p t = (q, t', [a]) \<and> q \<noteq> NULL \<and> a = tfind_loop cmp vkey t \<and>
     nodes t = xs @ (a, k) # ys \<and> nodes t' = xs @ ys \<and> split_at cmp vkey xs ys"
proof (induction t arbitrary: p)
  case (Node b kb l r)
  note less = sorted_nodes_less [OF Node.prems(1,2)]
  note links = search_tree_links [OF Node.prems(1)]
  have b: "b \<noteq> NULL" using Node.prems(1) by (auto simp: search_tree_def)
  consider "cmp vkey kb = 0" | "cmp vkey kb < 0" | "0 < cmp vkey kb" by linarith
  then show ?case
  proof cases
    case 1
    then show ?thesis using less Node.prems(3)
      by (intro exI [of _ p] exI [of _ "tdelete_join l r"] exI [of _ "nodes l"] exI [of _ b] exI [of _ kb] exI [of _ "nodes r"])
        (auto simp: split_at_def nodes_tdelete_join)
  next
    case 2
    then have "tfind_loop cmp vkey l \<noteq> NULL" using Node.prems(4) by simp
    then obtain q l' xs a k ys where "tdelete_loop cmp vkey b l = (q, l', [a])" "q \<noteq> NULL" "a = tfind_loop cmp vkey l"
      "nodes l = xs @ (a, k) # ys" "nodes l' = xs @ ys" "split_at cmp vkey xs ys"
      using Node.IH(1) [OF links [THEN conjunct1] Node.prems(2) b] by blast
    then show ?thesis using 2 less(1)
      by (intro exI [of _ q] exI [of _ "Node b kb l' r"] exI [of _ xs] exI [of _ a] exI [of _ k] exI [of _ "ys @ (b, kb) # nodes r"])
        (auto simp: split_at_def)
  next
    case 3
    then have "tfind_loop cmp vkey r \<noteq> NULL" using Node.prems(4) by simp
    then obtain q r' xs a k ys where "tdelete_loop cmp vkey b r = (q, r', [a])" "q \<noteq> NULL" "a = tfind_loop cmp vkey r"
      "nodes r = xs @ (a, k) # ys" "nodes r' = xs @ ys" "split_at cmp vkey xs ys"
      using Node.IH(2) [OF links [THEN conjunct2] Node.prems(2) b] by blast
    then show ?thesis using 3 less(2)
      by (intro exI [of _ q] exI [of _ "Node b kb l r'"] exI [of _ "nodes l @ (b, kb) # xs"] exI [of _ a] exI [of _ k] exI [of _ ys])
        (auto simp: split_at_def)
  qed
qed simp

end

text \<open>Without the key nothing changes, whatever the order.\<close>

lemma tsearch_loop_found:
  "tfind_loop cmp vkey t \<noteq> NULL \<or> q = NULL \<Longrightarrow> tsearch_loop cmp q vkey t = (tfind_loop cmp vkey t, t)"
  by (induction t) (auto simp: Let_def)

lemma tdelete_loop_missing:
  "NULL \<notin> fst ` set (nodes t) \<Longrightarrow> tfind_loop cmp vkey t = NULL \<Longrightarrow> tdelete_loop cmp vkey p t = (NULL, t, [])"
  by (induction t arbitrary: p) (force simp: Let_def split: if_splits)+


section \<open>The tree as a search table\<close>

definition tree_fresh :: "addr \<Rightarrow> 'k node_t \<Rightarrow> bool" where
  "tree_fresh q t \<longleftrightarrow> q \<noteq> NULL \<and> q \<notin> fst ` set (nodes t)"

definition tree_enter :: "('k \<Rightarrow> 'k \<Rightarrow> int) \<Rightarrow> addr \<Rightarrow> 'k \<Rightarrow> 'k node_t \<Rightarrow> addr \<times> 'k node_t" where
  "tree_enter cmp q k t = (let (p, r) = tsearch cmp q k (Some t) in (p, the r))"

lemma tree_enter_loop: "tree_enter cmp q k t = tsearch_loop cmp q k t"
  by (simp add: tree_enter_def tsearch_def split: prod.splits)

lemma find_node_append:
  "NULL \<notin> fst ` set xs \<Longrightarrow> find_node cmp k (xs @ ys) = (if find_node cmp k xs = NULL then find_node cmp k ys else find_node cmp k xs)"
  by (induction xs) (auto simp: find_node_def split: list.splits)

lemma find_node_Cons: "find_node cmp k ((a, j) # ns) = (if cmp k j = 0 then a else find_node cmp k ns)"
  by (simp add: find_node_def)

lemma find_node_NULL: "NULL \<notin> fst ` set ns \<Longrightarrow> find_node cmp k ns = NULL \<longleftrightarrow> (\<forall>x \<in> set ns. cmp k (snd x) \<noteq> 0)"
  by (induction ns) (auto simp: find_node_def)

context compare_spec
begin

lemma search_tree_NULL: "search_tree cmp ok t \<Longrightarrow> NULL \<notin> fst ` set (nodes t)"
  by (auto simp: search_tree_def)

lemma search_tree_insert:
  assumes t: "search_tree cmp ok t" "ok vkey" "tree_fresh q t" and e: "nodes t = xs @ ys" "nodes t' = xs @ (q, vkey) # ys"
    and s: "split_at cmp vkey xs ys"
  shows "search_tree cmp ok t'"
proof -
  have k: "\<forall>x \<in> set (xs @ ys). ok (snd x) \<and> fst x \<noteq> NULL" using t(1) e by (force simp: search_tree_def)
  then have "\<forall>x \<in> set xs. cmp (snd x) vkey < 0" "\<forall>y \<in> set ys. cmp vkey (snd y) < 0"
    using s cmp_sym t(2) by (auto simp: split_at_def)
  then show ?thesis using t k unfolding search_tree_def e tree_fresh_def by (auto simp: sorted_wrt_append)
qed

lemma search_tree_delete:
  assumes "search_tree cmp ok t" "nodes t = xs @ (a, k) # ys" "nodes t' = xs @ ys"
  shows "search_tree cmp ok t'"
  using assms by (auto simp: search_tree_def sorted_wrt_append)

lemma find_node_same:
  assumes "search_tree cmp ok t" "ok k" "ok k'" "cmp k k' = 0"
  shows "find_node cmp k (nodes t) = find_node cmp k' (nodes t)"
proof -
  have "filter (\<lambda>(a, j). cmp k j = 0) (nodes t) = filter (\<lambda>(a, j). cmp k' j = 0) (nodes t)"
    using assms cmp_eq_eq [of k k'] by (intro filter_cong refl) (auto simp: search_tree_def)
  then show ?thesis by (simp add: find_node_def)
qed

lemma find_node_insert:
  assumes t: "search_tree cmp ok t" "ok k" "ok k'" "tree_fresh q t" and e: "nodes t = xs @ ys"
    and f: "find_node cmp k (nodes t) = NULL"
  shows "find_node cmp k' (xs @ (q, k) # ys) = (if cmp k k' = 0 then q else find_node cmp k' (nodes t))"
proof -
  have n: "NULL \<notin> fst ` set xs" "q \<noteq> NULL" "find_node cmp k' (nodes t) = NULL" if "cmp k k' = 0"
    using search_tree_NULL [OF t(1)] e t(4) find_node_same [OF t(1-3) that] f by (auto simp: tree_fresh_def)
  have x: "NULL \<notin> fst ` set xs" "q \<noteq> NULL" using search_tree_NULL [OF t(1)] e t(4) by (auto simp: tree_fresh_def)
  show ?thesis using n cmp_eq_sym [OF t(2,3)] unfolding e find_node_append [OF x(1)] find_node_Cons
    by (auto split: if_splits)
qed

lemma tree_enter_cases:
  assumes t: "search_tree cmp ok t" "ok k" "tree_fresh q t"
  obtains (found) "tree_enter cmp q k t = (tfind_loop cmp k t, t)" "tfind_loop cmp k t \<noteq> NULL"
    | (new) t' xs ys where "tree_enter cmp q k t = (q, t')" "tfind_loop cmp k t = NULL" "nodes t = xs @ ys"
      "nodes t' = xs @ (q, k) # ys" "search_tree cmp ok t'"
proof (cases "tfind_loop cmp k t = NULL")
  case True
  moreover have "q \<noteq> NULL" using t(3) by (simp add: tree_fresh_def)
  ultimately obtain t' xs ys where "tsearch_loop cmp q k t = (q, t')" "nodes t = xs @ ys"
      "nodes t' = xs @ (q, k) # ys" "split_at cmp k xs ys" using tsearch_loop_new [OF t(1,2)] by blast
  then show thesis using new search_tree_insert [OF t] True by (simp add: tree_enter_loop)
next
  case False
  then have "tree_enter cmp q k t = (tfind_loop cmp k t, t)" unfolding tree_enter_loop by (intro tsearch_loop_found) simp
  then show thesis using found False by blast
qed

end

sublocale compare_spec \<subseteq> tree: search_table "search_tree cmp ok" tree_fresh ok "\<lambda>k k'. cmp k k' = 0" "\<lambda>k t. tfind cmp k (Some t)"
  "tree_enter cmp"
proof
  fix t k q assume t: "search_tree cmp ok t" "ok k" "tree_fresh q t"
  show "search_tree cmp ok (snd (tree_enter cmp q k t))"
    using t by (rule tree_enter_cases) (simp_all add: t)
  show "fst (tree_enter cmp q k t) = (if tfind cmp k (Some t) = NULL then q else tfind cmp k (Some t))"
    using t by (rule tree_enter_cases) (simp_all add: tfind_def)
  fix q' assume q': "tree_fresh q' t" "q \<noteq> q'"
  show "tree_fresh q' (snd (tree_enter cmp q k t))"
    using t by (rule tree_enter_cases) (use q' in \<open>auto simp: tree_fresh_def\<close>)
next
  fix t k k' q assume t: "search_tree cmp ok t" "ok k" "ok k'" "tree_fresh q t"
  from t(1,2,4) show "tfind cmp k' (Some (snd (tree_enter cmp q k t))) =
    (if tfind cmp k (Some t) = NULL \<and> cmp k k' = 0 then q else tfind cmp k' (Some t))"
  proof (cases rule: tree_enter_cases)
    case found
    then show ?thesis by (simp add: tfind_def)
  next
    case (new t' xs ys)
    then show ?thesis using find_node_insert [OF t new(3)] tfind_loop_nodes t by (simp add: tfind_def)
  qed
next
  fix t k k' assume "search_tree cmp ok t" "ok k" "ok k'" "cmp k k' = 0"
  then show "tfind cmp k (Some t) = tfind cmp k' (Some t)"
    using find_node_same tfind_loop_nodes by (simp add: tfind_def)
qed (simp add: tree_fresh_def)

section \<open>Walking and destroying\<close>

text \<open>\<open>twalk\<close> meets each node once between its subtrees, in the order of the keys; \<open>tdestroy\<close> frees every node once.\<close>

lemma twalk_recurse_inorder:
  "map fst (filter (\<lambda>(a, v, l). v = postorder \<or> v = leaf) (twalk_recurse t n)) = map fst (nodes t)"
  by (induction t n rule: twalk_recurse.induct) auto

lemma twalk_inorder: "map fst (filter (\<lambda>(a, v, l). v = postorder \<or> v = leaf) (twalk t)) = map fst (nodes t)"
  by (simp add: twalk_def twalk_recurse_inorder)

lemma tdestroy_recurse_mset: "mset (tdestroy_recurse t) = mset (map (\<lambda>(a, k). (k, a)) (nodes t))"
  by (induction t) auto

lemma tdestroy_all: "mset (tdestroy t) = mset (map (\<lambda>(a, k). (k, a)) (nodes t))"
  by (simp add: tdestroy_def tdestroy_recurse_mset)

context compare_spec
begin

lemma foldl_tsearch: "foldl (\<lambda>t (q, k). snd (tsearch cmp q k t)) (Some t) es = Some (tree.enter_all es t)"
proof (induction es arbitrary: t)
  case (Cons e es)
  have "snd (tsearch cmp (fst e) (snd e) (Some t)) = Some (snd (tree_enter cmp (fst e) (snd e) t))"
    by (simp add: tsearch_def tree_enter_loop split: prod.splits)
  then show ?case using Cons by (simp add: case_prod_unfold)
qed simp

lemma tsearch_all:
  assumes "\<forall>(q, k) \<in> set es. ok k \<and> q \<noteq> NULL" "distinct (map fst es)" "ok key"
  shows "search_tree cmp ok (tree.enter_all es Leaf) \<and>
    tfind cmp key (Some (tree.enter_all es Leaf)) =
      (case List.find (\<lambda>(q, k). cmp k key = 0) es of Some (q, k) \<Rightarrow> q | None \<Rightarrow> NULL)"
proof -
  have i: "search_tree cmp ok Leaf" by (simp add: search_tree_def)
  have n: "tfind cmp key (Some Leaf) = NULL" by (simp add: tfind_def)
  have e: "\<forall>(q, k) \<in> set es. ok k \<and> tree_fresh q Leaf" using assms(1) by (auto simp: tree_fresh_def)
  have f: "List.find (\<lambda>e. cmp (snd e) key = 0) es = List.find (\<lambda>(q, k). cmp k key = 0) es"
    by (simp only: case_prod_unfold)
  show ?thesis using tree.enter_all_correct [OF i e assms(2,3), unfolded f n]
    by (simp only: case_prod_unfold simp_thms if_False)
qed

lemma tdelete_nodes:
  assumes t: "search_tree cmp ok t" and k: "ok key"
  shows "\<exists>p t'. tdelete cmp key (Some t) =
      (p, Some t', if tfind cmp key (Some t) = NULL then [] else [tfind cmp key (Some t)]) \<and>
    (p = NULL \<longleftrightarrow> tfind cmp key (Some t) = NULL) \<and> search_tree cmp ok t' \<and>
    nodes t' = filter (\<lambda>(a, k). cmp key k \<noteq> 0) (nodes t)"
proof (cases "tfind_loop cmp key t = NULL")
  case True
  then have "filter (\<lambda>(a, k). cmp key k \<noteq> 0) (nodes t) = nodes t"
    using find_node_NULL [OF search_tree_NULL [OF t]] tfind_loop_nodes [OF t k] by (intro filter_True) auto
  then show ?thesis using True t tdelete_loop_missing [OF search_tree_NULL [OF t] True]
    by (cases t) (simp_all add: tdelete_def tfind_def)
next
  case False
  then have "node_addr t \<noteq> NULL" using search_tree_NULL [OF t] by (cases t) auto
  from tdelete_loop_found [OF t k this False] obtain q t' xs a k' ys where
    d: "tdelete_loop cmp key (node_addr t) t = (q, t', [a])" "q \<noteq> NULL" "a = tfind_loop cmp key t"
      "nodes t = xs @ (a, k') # ys" "nodes t' = xs @ ys" "split_at cmp key xs ys" by blast
  have "find_node cmp key (nodes t) \<noteq> NULL" using False tfind_loop_nodes [OF t k] by simp
  then have "cmp key k' = 0" "filter (\<lambda>(a, k). cmp key k \<noteq> 0) xs = xs" "filter (\<lambda>(a, k). cmp key k \<noteq> 0) ys = ys"
    using d(4,6) find_node_NULL [OF search_tree_NULL [OF t], of cmp key] by (auto simp: split_at_def intro!: filter_True)
  then have n: "nodes t' = filter (\<lambda>(a, k). cmp key k \<noteq> 0) (nodes t)" using d(4,5) by simp
  have "tdelete cmp key (Some t) = (q, Some t', [a])" using d(1) by (cases t) (simp_all add: tdelete_def)
  moreover have "tfind cmp key (Some t) = a" "a \<noteq> NULL" using d(3) False by (simp_all add: tfind_def)
  ultimately show ?thesis using d(2) n search_tree_delete [OF t d(4,5)] by simp
qed

end

section \<open>Properties\<close>

text \<open>C33. The tree of \<open>tsearch\<close>, for every comparison function that orders the keys: entering keys one after the
  other keeps the tree ordered, and \<open>tfind\<close> then returns the node of the first of the keys that compares equal, or \<open>NULL\<close>
  when there is none. Walking the tree meets the nodes in the order of their keys.\<close>

theorem tsearch_tfind_correct:
  assumes c: "compare_spec cmp ok" and es: "\<forall>(q, k) \<in> set es. ok k \<and> q \<noteq> NULL" "distinct (map fst es)" and key: "ok key"
  shows "\<exists>t. foldl (\<lambda>t (q, k). snd (tsearch cmp q k t)) (Some Leaf) es = Some t \<and>
    tfind cmp key (Some t) = (case List.find (\<lambda>(q, k). cmp k key = 0) es of Some (q, k) \<Rightarrow> q | None \<Rightarrow> NULL) \<and>
    sorted_wrt (\<lambda>(a, k) (b, j). cmp k j < 0) (nodes t) \<and>
    map fst (filter (\<lambda>(a, v, l). v = postorder \<or> v = leaf) (twalk t)) = map fst (nodes t)"
proof -
  have s: "sorted_wrt (\<lambda>(a, k) (b, j). cmp k j < 0) (nodes t)" if "search_tree cmp ok t" for t
    using that by (simp add: search_tree_def case_prod_unfold)
  show ?thesis
    using compare_spec.tsearch_all [OF c es key] s
    unfolding compare_spec.foldl_tsearch [OF c] twalk_inorder option.inject ex_simps simp_thms by blast
qed

theorem tsearch_tfind_correct_witness:
  "\<exists>t. foldl (\<lambda>t (q, k). snd (tsearch (strcmp_value [0, 0, 0, 0, 98, 0, 97, 0]) q k t)) (Some Leaf) [(100, 4), (200, 6)] = Some t \<and>
     tfind (strcmp_value [0, 0, 0, 0, 98, 0, 97, 0]) 6 (Some t) = 200"
proof -
  let ?m = "[0, 0, 0, 0, 98, 0, 97, 0] :: byte list"
  have c: "cstr ?m 4 [98]" "cstr ?m 6 [97]" by (simp_all add: load_def mapped_def)
  then have s: "is_string ?m 4" "is_string ?m 6" unfolding is_string_def by blast+
  have "strcmp_value ?m 4 6 \<noteq> 0" "strcmp_value ?m 6 6 = 0"
    using strcmp_value_cstr(3) [OF c] strcmp_value_cstr(3) [OF c(2) c(2)] by simp_all
  then show ?thesis
    using tsearch_tfind_correct [OF strings.compare_spec_axioms [of ?m], of "[(100, 4), (200, 6)]" 6] s by auto
qed

text \<open>C34. \<open>tdelete\<close> on an ordered tree frees exactly the node that \<open>tfind\<close> returns and keeps every other node, in
  order; it returns \<open>NULL\<close> exactly when the key is not there. \<open>tdestroy\<close> then frees every remaining node once.\<close>

theorem tdelete_correct:
  assumes "compare_spec cmp ok" "search_tree cmp ok t" "ok key"
  shows "\<exists>p t'. tdelete cmp key (Some t) =
      (p, Some t', if tfind cmp key (Some t) = NULL then [] else [tfind cmp key (Some t)]) \<and>
    (p = NULL \<longleftrightarrow> tfind cmp key (Some t) = NULL) \<and> search_tree cmp ok t' \<and>
    nodes t' = filter (\<lambda>(a, k). cmp key k \<noteq> 0) (nodes t) \<and>
    mset (tdestroy t') = mset (map (\<lambda>(a, k). (k, a)) (nodes t'))"
  using compare_spec.tdelete_nodes [OF assms] unfolding tdestroy_all simp_thms .


theorem tdelete_correct_witness:
  "\<exists>p t'. tdelete (strcmp_value [0, 0, 0, 0, 98, 0]) 4 (Some (Node 100 4 Leaf Leaf)) = (p, Some t', [100]) \<and> nodes t' = []"
proof -
  let ?m = "[0, 0, 0, 0, 98, 0] :: byte list"
  have c: "cstr ?m 4 [98]" by (simp add: load_def mapped_def)
  then have s: "is_string ?m 4" unfolding is_string_def by blast
  have z: "strcmp_value ?m 4 4 = 0" using strcmp_value_cstr(3) [OF c c] by simp
  have t: "search_tree (strcmp_value ?m) (is_string ?m) (Node 100 4 Leaf Leaf)" using s by (simp add: search_tree_def)
  show ?thesis using tdelete_correct [OF strings.compare_spec_axioms [of ?m] t s] z by (auto simp: tfind_def)
qed

end
