(* ===== verification/HashTable.thy ===== *)
theory HashTable
  imports Compare Dict
begin

text \<open>
  The hash table of \<^verbatim>\<open>src/library/search\<close>: \<open>hash4\<close>, \<open>hcreate_r\<close>, \<open>hsearch_r\<close>, \<open>hdestroy_r\<close> and their forms on the
  global table. A chain is the list of its entries, each with its address; keys are strings in memory, compared by
  \<open>strcmp\<close>. The results of \<open>malloc\<close> are arguments.
\<close>

unbundle bit_operations_syntax

section \<open>The hash function\<close>

text \<open>\<open>HASH4\<close>: \<open>h = (h << 5) + h + *key++\<close>, and \<open>n\<close> of them in a row.\<close>

definition HASH4 :: "byte list \<Rightarrow> u32 \<times> addr \<Rightarrow> (u32 \<times> addr) option" where
  "HASH4 m hk = (let (h, key) = hk in do { b \<leftarrow> load m key; Some (push_bit 5 h + h + ucast b, key + 1) })"

primrec HASH4_row :: "byte list \<Rightarrow> nat \<Rightarrow> u32 \<times> addr \<Rightarrow> (u32 \<times> addr) option" where
  "HASH4_row m 0 hk = Some hk"
| "HASH4_row m (Suc n) hk = do { hk \<leftarrow> HASH4 m hk; HASH4_row m n hk }"

text \<open>The \<open>do\<close> loop after its first pass, with \<open>loop\<close> passes left; the switch enters the first pass so that
  \<open>len mod 8\<close> steps remain of it, or all eight.\<close>

primrec hash4_loop :: "byte list \<Rightarrow> nat \<Rightarrow> u32 \<times> addr \<Rightarrow> (u32 \<times> addr) option" where
  "hash4_loop m 0 hk = Some hk"
| "hash4_loop m (Suc loop) hk = do { hk \<leftarrow> HASH4_row m 8 hk; hash4_loop m loop hk }"

definition hash4 :: "byte list \<Rightarrow> addr \<Rightarrow> size_t \<Rightarrow> u32 option" where
  "hash4 m key len =
     (if len > 0 then
        let loop = (len + 8 - 1) div 8;
            first = (case len mod 8 of 0 \<Rightarrow> 8 | Suc k \<Rightarrow> Suc k)
        in do {
          hk \<leftarrow> HASH4_row m first (0, key);
          (h, key) \<leftarrow> hash4_loop m (loop - 1) hk;
          Some h }
      else Some 0)"

definition hash_bytes :: "u32 \<Rightarrow> byte list \<Rightarrow> u32" where
  "hash_bytes h xs = foldl (\<lambda>h b. 33 * h + ucast b) h xs"

lemma HASH4_row_bytes: "region m key n \<Longrightarrow> HASH4_row m n (h, key) = Some (hash_bytes h (slice m key n), key + n)"
proof (induction n arbitrary: h key)
  case (Suc n)
  have "push_bit 5 h + h = 33 * h" by (simp add: push_bit_eq_mult)
  then show ?case using Suc by (simp add: HASH4_def region_Suc slice_Suc hash_bytes_def load_def)
qed (simp add: hash_bytes_def)

lemma hash_bytes_append: "hash_bytes h (xs @ ys) = hash_bytes (hash_bytes h xs) ys"
  by (simp add: hash_bytes_def)

lemma hash4_loop_bytes:
  "region m key (8 * n) \<Longrightarrow> hash4_loop m n (h, key) = Some (hash_bytes h (slice m key (8 * n)), key + 8 * n)"
proof (induction n arbitrary: h key)
  case (Suc n)
  have "8 * Suc n = 8 + 8 * n" by simp
  with Suc.prems have r: "region m key 8" "region m (key + 8) (8 * n)" and
    s: "slice m key (8 * Suc n) = slice m key 8 @ slice m (key + 8) (8 * n)"
    using region_append [of m key 8 "8 * n"] slice_append [of m key 8 "8 * n"] by (simp_all only:)
  show ?case
    unfolding hash4_loop.simps HASH4_row_bytes [OF r(1)] bind.bind_lunit Suc.IH [OF r(2)] s hash_bytes_append by simp
qed (simp add: hash_bytes_def)

text \<open>The unrolled loop computes the plain one.\<close>

lemma hash4_bytes:
  assumes "region m key len"
  shows "hash4 m key len = Some (hash_bytes 0 (slice m key len))"
proof (cases "len = 0")
  case False
  define first where "first = (case len mod 8 of 0 \<Rightarrow> 8 | Suc k \<Rightarrow> Suc k)"
  define n where "n = (len + 8 - 1) div 8 - 1"
  have len: "len = first + 8 * n"
  proof (cases "len mod 8")
    case 0
    then obtain q where q: "len = 8 * q" by (metis mod_0_imp_dvd dvdE)
    then have "(8 * q + 7) div 8 = q" by simp
    then show ?thesis using q False 0 by (simp add: first_def n_def)
  next
    case (Suc k)
    have e: "len = 8 * (len div 8) + Suc k" unfolding Suc [symmetric] by simp
    have "k < 7" using Suc mod_less_divisor [of 8 len] by simp
    then have "(len + 8 - 1) div 8 - 1 = len div 8" using e by linarith
    then have "n = len div 8" "first = Suc k" unfolding n_def first_def Suc by simp_all
    with e show ?thesis by (simp only: add.commute)
  qed
  have r: "region m key first" "region m (key + first) (8 * n)" and s: "slice m key len = slice m key first @ slice m (key + first) (8 * n)"
    using assms region_append [of m key first "8 * n"] slice_append [of m key first "8 * n"] by (simp_all add: len)
  have "hash4 m key len = do { hk \<leftarrow> HASH4_row m first (0, key); (h, key) \<leftarrow> hash4_loop m n hk; Some h }"
    using False by (simp add: hash4_def Let_def first_def n_def)
  then show ?thesis
    unfolding HASH4_row_bytes [OF r(1)] bind.bind_lunit hash4_loop_bytes [OF r(2)] s hash_bytes_append by simp
qed (simp add: hash4_def hash_bytes_def)


section \<open>The table\<close>

record internal_entry =
  ie_addr :: addr
  ent_key :: addr
  ent_data :: addr

record hsearch_data =
  htable :: "internal_entry list list option"
  htablesize :: size_t

datatype ACTION = FIND | ENTER

definition MIN_BUCKETS :: size_t where "MIN_BUCKETS = 2 ^ 4"
definition MAX_BUCKETS :: size_t where "MAX_BUCKETS = 2 ^ (4 * 8 - 1 - 5)"

text \<open>\<open>for (p2 = 0; nel != 0; p2++) nel >>= 1\<close>\<close>

fun p2_loop :: "size_t \<Rightarrow> nat \<Rightarrow> nat" where
  "p2_loop nel p2 = (if nel \<noteq> 0 then p2_loop (nel div 2) (p2 + 1) else p2)"

declare p2_loop.simps [simp del]

definition bucket_count :: "size_t \<Rightarrow> size_t" where
  "bucket_count nel =
     (let nel = (if nel < MIN_BUCKETS then MIN_BUCKETS else nel);
          nel = (if nel > MAX_BUCKETS then MAX_BUCKETS else nel)
      in if nel AND (nel - 1) \<noteq> 0 then 2 ^ p2_loop nel 0 else nel)"

definition hcreate_r :: "bool \<Rightarrow> size_t \<Rightarrow> hsearch_data \<Rightarrow> clib \<Rightarrow> int \<times> hsearch_data \<times> clib" where
  "hcreate_r malloc_ok nel htab st =
     (if htable htab \<noteq> None then (0, htab, set_errno EINVAL st)
      else
        let htab = htab\<lparr>htablesize := bucket_count nel\<rparr> in
        if \<not> malloc_ok then (0, htab, set_errno ENOMEM st)
        else (1, htab\<lparr>htable := Some (replicate (htablesize htab) [])\<rparr>, st))"

text \<open>The walk along a chain to the first entry whose key equals \<open>key\<close>.\<close>

fun hsearch_loop :: "byte list \<Rightarrow> addr \<Rightarrow> internal_entry list \<Rightarrow> internal_entry option option" where
  "hsearch_loop m key [] = Some None"
| "hsearch_loop m key (ie # ies) = do {
     r \<leftarrow> strcmp m (ent_key ie) key;
     if r = 0 then Some (Some ie) else hsearch_loop m key ies }"

text \<open>Result, \<open>*retval\<close> and table; an entry is given by the address of its \<open>internal_entry\<close>. \<open>new\<close> is what
  \<open>malloc\<close> returns. Without a table the access to it faults.\<close>

definition hsearch_r ::
    "byte list \<Rightarrow> addr \<Rightarrow> addr \<Rightarrow> addr \<Rightarrow> ACTION \<Rightarrow> hsearch_data \<Rightarrow> (int \<times> addr \<times> hsearch_data) option" where
  "hsearch_r m new key data action htab = do {
     len \<leftarrow> strlen m key;
     hashval \<leftarrow> hash4 m key len;
     tab \<leftarrow> htable htab;
     let idx = unat hashval AND (htablesize htab - 1);
     head \<leftarrow> at tab idx;
     ie \<leftarrow> hsearch_loop m key head;
     (case ie of
        Some ie \<Rightarrow> Some (1, ie_addr ie, htab)
      | None \<Rightarrow>
          if action = FIND then Some (0, NULL, htab)
          else if new = NULL then Some (0, NULL, htab)
          else Some (1, new, htab\<lparr>htable := Some (tab[idx := \<lparr>ie_addr = new, ent_key = key, ent_data = data\<rparr> # head])\<rparr>)) }"

definition hdestroy_r :: "hsearch_data \<Rightarrow> hsearch_data" where
  "hdestroy_r htab = (if htable htab = None then htab else htab\<lparr>htable := None\<rparr>)"

definition hsearch :: "byte list \<Rightarrow> addr \<Rightarrow> addr \<Rightarrow> addr \<Rightarrow> ACTION \<Rightarrow> hsearch_data \<Rightarrow> (addr \<times> hsearch_data) option" where
  "hsearch m new key data action htab = do { (r, retval, htab) \<leftarrow> hsearch_r m new key data action htab; Some (retval, htab) }"

definition hdestroy :: "hsearch_data \<Rightarrow> hsearch_data" where
  "hdestroy htab = hdestroy_r htab"

definition hcreate :: "bool \<Rightarrow> size_t \<Rightarrow> hsearch_data \<Rightarrow> clib \<Rightarrow> int \<times> hsearch_data \<times> clib" where
  "hcreate malloc_ok nel htab st = hcreate_r malloc_ok nel htab st"

section \<open>The number of buckets\<close>

lemma p2_loop_bounds: "p2_loop n p = p + p2_loop n 0 \<and> n < 2 ^ p2_loop n 0 \<and> (0 < n \<longrightarrow> 2 ^ p2_loop n 0 \<le> 2 * n)"
proof (induction n arbitrary: p rule: less_induct)
  case (less n)
  show ?case
  proof (cases "n = 0")
    case True
    then show ?thesis by (simp add: p2_loop.simps)
  next
    case False
    then have lt: "n div 2 < n" by simp
    have e: "p2_loop n q = Suc q + p2_loop (n div 2) 0" for q
      using less.IH [OF lt, of "q + 1"] False p2_loop.simps [of n q] by simp
    have "n < 2 * 2 ^ p2_loop (n div 2) 0" using less.IH [OF lt, of 0] by linarith
    moreover have "2 * 2 ^ p2_loop (n div 2) 0 \<le> 2 * n"
    proof (cases "n div 2 = 0")
      case True
      then show ?thesis using False by (simp add: p2_loop.simps)
    next
      case nz: False
      then have "2 ^ p2_loop (n div 2) 0 \<le> 2 * (n div 2)" using less.IH [OF lt, of 0] by simp
      then show ?thesis by linarith
    qed
    ultimately show ?thesis using False by (simp add: e)
  qed
qed

lemma and_pred_power: "0 < n \<Longrightarrow> n AND (n - 1) = 0 \<Longrightarrow> \<exists>k. n = 2 ^ k" for n :: nat
proof (induction n rule: less_induct)
  case (less n)
  show ?case
  proof (cases "even n")
    case True
    then obtain j where j: "n = 2 * j" by (elim evenE)
    moreover have "(2 * j - 1) div 2 = j - 1" by (cases j) simp_all
    ultimately have "j AND (j - 1) = 0" "0 < j" "j < n"
      using less.prems and_nat_rec [of n "n - 1"] by auto
    then obtain k where "j = 2 ^ k" using less.IH by blast
    then have "n = 2 ^ Suc k" using j by simp
    then show ?thesis by blast
  next
    case False
    then obtain j where j: "n = 2 * j + 1" by (elim oddE)
    then have "j = 0" using less.prems(2) and_nat_rec [of n "n - 1"] by simp
    then have "n = 2 ^ 0" using j by simp
    then show ?thesis by blast
  qed
qed


lemma bucket_count_power: "\<exists>k. bucket_count nel = 2 ^ k \<and> 4 \<le> k \<and> k \<le> 26 \<and> min nel (2 ^ 26) \<le> bucket_count nel"
proof -
  define n where "n = (let nel = (if nel < MIN_BUCKETS then MIN_BUCKETS else nel) in if nel > MAX_BUCKETS then MAX_BUCKETS else nel)"
  have n: "2 ^ 4 \<le> n" "n \<le> 2 ^ 26" "min nel (2 ^ 26) \<le> n" by (simp_all add: n_def Let_def MIN_BUCKETS_def MAX_BUCKETS_def)
  have b: "bucket_count nel = (if n AND (n - 1) \<noteq> 0 then 2 ^ p2_loop n 0 else n)"
    by (simp add: bucket_count_def n_def Let_def)
  have k: "4 \<le> k \<and> k \<le> 26" if "(2 :: nat) ^ 4 \<le> 2 ^ k" "(2 :: nat) ^ k \<le> 2 ^ 26" for k
    using that by (simp only: power_increasing_iff one_less_numeral_iff semiring_norm)
  show ?thesis
  proof (cases "n AND (n - 1) = 0")
    case True
    then obtain k where "n = 2 ^ k" using and_pred_power [of n] n(1) by auto
    then show ?thesis using k [of k] n b True by auto
  next
    case False
    have p: "n < 2 ^ p2_loop n 0" "2 ^ p2_loop n 0 \<le> 2 * n" using p2_loop_bounds [of n 0] n(1) by auto
    have "n \<noteq> 2 ^ 26"
    proof
      assume "n = 2 ^ 26"
      moreover have "(67108864 :: nat) AND 67108863 = 0" by simp
      ultimately show False using False by simp
    qed
    then have "(2 :: nat) ^ p2_loop n 0 < 2 ^ 27" using p(2) n(2) by simp
    then have "p2_loop n 0 \<le> 26" using power_strict_increasing_iff [of "2 :: nat" "p2_loop n 0" 27] by simp
    moreover have "(2 :: nat) ^ 4 \<le> 2 ^ p2_loop n 0" using p(1) n(1) by linarith
    then have "4 \<le> p2_loop n 0" by (simp only: power_increasing_iff one_less_numeral_iff semiring_norm)
    ultimately show ?thesis using b False n(3) p(1) by auto
  qed
qed


section \<open>The table as a search table\<close>

definition bucket :: "byte list \<Rightarrow> size_t \<Rightarrow> addr \<Rightarrow> nat" where
  "bucket m sz key = (case strlen m key of Some len \<Rightarrow> unat (hash_bytes 0 (slice m key len)) AND (sz - 1) | None \<Rightarrow> 0)"

definition hash_inv :: "byte list \<Rightarrow> hsearch_data \<Rightarrow> bool" where
  "hash_inv m htab \<longleftrightarrow> ram_ok m \<and>
     (case htable htab of
        None \<Rightarrow> False
      | Some tab \<Rightarrow> 0 < length tab \<and> length tab = htablesize htab \<and>
          (\<forall>i < length tab. \<forall>e \<in> set (tab ! i).
             is_string m (ent_key e) \<and> bucket m (htablesize htab) (ent_key e) = i \<and> ie_addr e \<noteq> NULL))"

text \<open>The chain of a key and the first entry in it with that key.\<close>

definition chain :: "byte list \<Rightarrow> hsearch_data \<Rightarrow> addr \<Rightarrow> internal_entry list" where
  "chain m htab key = (case htable htab of Some tab \<Rightarrow> tab ! bucket m (htablesize htab) key | None \<Rightarrow> [])"

definition find_entry :: "byte list \<Rightarrow> addr \<Rightarrow> internal_entry list \<Rightarrow> internal_entry option" where
  "find_entry m key es = List.find (\<lambda>e. strcmp_value m (ent_key e) key = 0) es"

lemma hsearch_loop_find:
  "is_string m key \<Longrightarrow> \<forall>e \<in> set es. is_string m (ent_key e) \<Longrightarrow> hsearch_loop m key es = Some (find_entry m key es)"
proof (induction es)
  case (Cons e es)
  then obtain xs ys where c: "cstr m (ent_key e) xs" "cstr m key ys" unfolding is_string_def by auto
  then have "strcmp m (ent_key e) key = Some (strcmp_value m (ent_key e) key)"
    using strcmp_cstr [OF c] by (simp add: strcmp_value_def)
  then show ?case using Cons by (simp add: find_entry_def)
qed (simp add: find_entry_def)

lemma and_less: "0 < s \<Longrightarrow> x AND (s - 1) < s" for x s :: nat
proof -
  assume "0 < s"
  have "int (x AND (s - 1)) \<le> int (s - 1)" unfolding of_nat_and_eq by simp
  then show ?thesis using \<open>0 < s\<close> by linarith
qed

lemma bucket_less: "0 < sz \<Longrightarrow> bucket m sz key < sz"
  using and_less by (auto simp: bucket_def split: option.splits)

lemma bucket_same:
  assumes "ram_ok m" "cstr m k xs" "cstr m k' xs"
  shows "bucket m sz k = bucket m sz k'"
proof -
  have s: "slice m k (length xs) = xs" "slice m k' (length xs) = xs"
    using cstr_slice [OF assms(2)] cstr_slice [OF assms(3)] slice_append [of m k "length xs" 1]
      slice_append [of m k' "length xs" 1] length_slice [OF region_mono [OF cstr_region [OF assms(2)]], of "length xs"]
      length_slice [OF region_mono [OF cstr_region [OF assms(3)]], of "length xs"] by auto
  show ?thesis using strlen_cstr [OF assms(1,2)] strlen_cstr [OF assms(1,3)] s by (simp add: bucket_def)
qed

text \<open>What \<open>hsearch_r\<close> does, on a table with the invariant.\<close>

lemma hsearch_r_cases:
  assumes i: "hash_inv m htab" and k: "is_string m key"
  shows "hsearch_r m new key data action htab =
    (case find_entry m key (chain m htab key) of
       Some e \<Rightarrow> Some (1, ie_addr e, htab)
     | None \<Rightarrow>
         if action = FIND \<or> new = NULL then Some (0, NULL, htab)
         else Some (1, new, htab\<lparr>htable := Some ((the (htable htab))[bucket m (htablesize htab) key :=
           \<lparr>ie_addr = new, ent_key = key, ent_data = data\<rparr> # chain m htab key])\<rparr>))"
proof -
  obtain tab where t: "htable htab = Some tab" "0 < length tab" "length tab = htablesize htab"
    "\<forall>i < length tab. \<forall>e \<in> set (tab ! i). is_string m (ent_key e)"
    using i by (auto simp: hash_inv_def split: option.splits)
  obtain xs where c: "cstr m key xs" using k by (auto simp: is_string_def)
  have l: "strlen m key = Some (length xs)" using i c by (intro strlen_cstr) (auto simp: hash_inv_def)
  have r: "region m key (length xs)" using cstr_region [OF c] region_mono by force
  have b: "unat (hash_bytes 0 (slice m key (length xs))) AND (htablesize htab - 1) = bucket m (htablesize htab) key"
    using l by (simp add: bucket_def)
  have lt: "bucket m (htablesize htab) key < length tab" using bucket_less t(2,3) by simp
  then have a: "at tab (bucket m (htablesize htab) key) = Some (chain m htab key)" using t(1) by (simp add: at_def chain_def)
  have h: "hsearch_loop m key (chain m htab key) = Some (find_entry m key (chain m htab key))"
    using t(1,4) lt by (intro hsearch_loop_find k) (auto simp: chain_def)
  show ?thesis
    unfolding hsearch_r_def l hash4_bytes [OF r] t(1) bind.bind_lunit Let_def b a h by (simp split: option.splits)
qed


definition hash_find :: "byte list \<Rightarrow> addr \<Rightarrow> hsearch_data \<Rightarrow> addr" where
  "hash_find m key htab = (case hsearch m NULL key NULL FIND htab of Some (e, _) \<Rightarrow> e | None \<Rightarrow> NULL)"

definition hash_enter :: "byte list \<Rightarrow> addr \<Rightarrow> addr \<Rightarrow> addr \<Rightarrow> hsearch_data \<Rightarrow> addr \<times> hsearch_data" where
  "hash_enter m data new key htab = (case hsearch m new key data ENTER htab of Some r \<Rightarrow> r | None \<Rightarrow> (NULL, htab))"

lemma hash_find_entry:
  "hash_inv m htab \<Longrightarrow> is_string m key \<Longrightarrow>
   hash_find m key htab = (case find_entry m key (chain m htab key) of Some e \<Rightarrow> ie_addr e | None \<Rightarrow> NULL)"
  by (simp add: hash_find_def hsearch_def hsearch_r_cases split: option.splits)

lemma chain_entries:
  assumes "hash_inv m htab" "e \<in> set (chain m htab key)"
  shows "is_string m (ent_key e) \<and> ie_addr e \<noteq> NULL"
  using assms bucket_less [of "htablesize htab" m key] by (auto simp: hash_inv_def chain_def split: option.splits)

lemma find_entry_mem: "find_entry m key es = Some e \<Longrightarrow> e \<in> set es"
  by (auto simp: find_entry_def find_Some_iff)

lemma hash_find_NULL:
  assumes "hash_inv m htab" "is_string m key"
  shows "hash_find m key htab = NULL \<longleftrightarrow> find_entry m key (chain m htab key) = None"
  using hash_find_entry [OF assms] chain_entries [OF assms(1)] find_entry_mem
  by (fastforce split: option.splits)

text \<open>The table after a new entry.\<close>

definition add_entry :: "byte list \<Rightarrow> addr \<Rightarrow> addr \<Rightarrow> addr \<Rightarrow> hsearch_data \<Rightarrow> hsearch_data" where
  "add_entry m data new key htab = htab\<lparr>htable := Some ((the (htable htab))[bucket m (htablesize htab) key :=
     \<lparr>ie_addr = new, ent_key = key, ent_data = data\<rparr> # chain m htab key])\<rparr>"

lemma hash_enter_cases:
  assumes "hash_inv m htab" "is_string m key" "new \<noteq> NULL"
  shows "hash_enter m data new key htab =
    (if hash_find m key htab = NULL then (new, add_entry m data new key htab) else (hash_find m key htab, htab))"
  using hash_find_NULL [OF assms(1,2)] hash_find_entry [OF assms(1,2)] assms(3)
  by (auto simp: hash_enter_def hsearch_def hsearch_r_cases [OF assms(1,2)] add_entry_def split: option.splits)

lemma add_entry_inv:
  assumes "hash_inv m htab" "is_string m key" "new \<noteq> NULL"
  shows "hash_inv m (add_entry m data new key htab)"
proof -
  let ?b = "bucket m (htablesize htab) key"
  obtain tab where t: "htable htab = Some tab" "ram_ok m" "0 < length tab" "length tab = htablesize htab"
    and e: "\<And>i e. i < length tab \<Longrightarrow> e \<in> set (tab ! i) \<Longrightarrow>
      is_string m (ent_key e) \<and> bucket m (htablesize htab) (ent_key e) = i \<and> ie_addr e \<noteq> NULL"
    using assms(1) by (auto simp: hash_inv_def split: option.splits)
  let ?tab = "tab[?b := \<lparr>ie_addr = new, ent_key = key, ent_data = data\<rparr> # tab ! ?b]"
  have "is_string m (ent_key e) \<and> bucket m (htablesize htab) (ent_key e) = i \<and> ie_addr e \<noteq> NULL"
    if "i < length tab" "e \<in> set (?tab ! i)" for i e
    using that e [of i e] assms(2,3) by (cases "i = ?b") auto
  then show ?thesis using t by (simp add: hash_inv_def add_entry_def chain_def)
qed

lemma chain_add_entry:
  assumes "hash_inv m htab"
  shows "chain m (add_entry m data new key htab) key' =
    (if bucket m (htablesize htab) key' = bucket m (htablesize htab) key
     then \<lparr>ie_addr = new, ent_key = key, ent_data = data\<rparr> # chain m htab key' else chain m htab key')"
  using assms bucket_less [of "htablesize htab" m key]
  by (auto simp: hash_inv_def add_entry_def chain_def nth_list_update split: option.splits)

lemma strcmp_value_same_bucket:
  assumes "ram_ok m" "is_string m k" "is_string m k'" "strcmp_value m k k' = 0"
  shows "bucket m sz k = bucket m sz k'"
  using assms strcmp_value_cstr(3) bucket_same unfolding is_string_def by metis

lemma find_entry_same:
  assumes "is_string m k" "is_string m k'" "strcmp_value m k k' = 0" "\<forall>e \<in> set es. is_string m (ent_key e)"
  shows "find_entry m k es = find_entry m k' es"
proof -
  have "strcmp_value m (ent_key e) k = 0 \<longleftrightarrow> strcmp_value m (ent_key e) k' = 0" if "e \<in> set es" for e
    using assms that strings.cmp_eq_eq [of m k k' "ent_key e"] strings.cmp_eq_sym by metis
  then show ?thesis unfolding find_entry_def by (intro find_cong refl) auto
qed

interpretation hash: search_table "hash_inv m" "\<lambda>q h. q \<noteq> NULL" "is_string m" "\<lambda>k k'. strcmp_value m k k' = 0" "hash_find m"
  "hash_enter m data" for m data
proof
  fix s k q assume s: "hash_inv m s" "is_string m k" "q \<noteq> NULL"
  show "hash_inv m (snd (hash_enter m data q k s))"
    using s add_entry_inv [OF s] by (simp add: hash_enter_cases)
  show "fst (hash_enter m data q k s) = (if hash_find m k s = NULL then q else hash_find m k s)"
    using s by (simp add: hash_enter_cases)
next
  fix s k k' q assume s: "hash_inv m s" "is_string m k" "is_string m k'" "q \<noteq> NULL"
  have r: "ram_ok m" using s(1) by (simp add: hash_inv_def)
  show "hash_find m k' (snd (hash_enter m data q k s)) =
    (if hash_find m k s = NULL \<and> strcmp_value m k k' = 0 then q else hash_find m k' s)"
    using hash_find_entry [OF s(1,3)] hash_find_entry [OF add_entry_inv [OF s(1,2,4)] s(3)] s
      strcmp_value_same_bucket [OF r s(2,3)]
    by (simp add: hash_enter_cases chain_add_entry find_entry_def)
next
  fix s k k' assume s: "hash_inv m s" "is_string m k" "is_string m k'" "strcmp_value m k k' = 0"
  have r: "ram_ok m" using s(1) by (simp add: hash_inv_def)
  have "chain m s k = chain m s k'" unfolding chain_def strcmp_value_same_bucket [OF r s(2-4)] ..
  then show "hash_find m k s = hash_find m k' s"
    using hash_find_entry [OF s(1,2)] hash_find_entry [OF s(1,3)] find_entry_same [OF s(2-4)] chain_entries [OF s(1)] by simp
qed simp_all

section \<open>Properties\<close>

lemma foldl_hsearch:
  assumes "hash_inv m htab" "\<forall>(q, k) \<in> set es. is_string m k \<and> q \<noteq> NULL"
  shows "foldl (\<lambda>h (q, k). do { h \<leftarrow> h; (_, _, h) \<leftarrow> hsearch_r m q k data ENTER h; Some h }) (Some htab) es =
    Some (hash.enter_all m data es htab)"
  using assms
proof (induction es arbitrary: htab)
  case (Cons e es)
  obtain q k where e: "e = (q, k)" by fastforce
  have k: "is_string m k" "q \<noteq> NULL" using Cons.prems(2) by (auto simp: e)
  have "(do { (_, _, h) \<leftarrow> hsearch_r m q k data ENTER htab; Some h }) = Some (snd (hash_enter m data q k htab))"
    using hsearch_r_cases [OF Cons.prems(1) k(1)]
    by (auto simp: hash_enter_def hsearch_def split: option.splits)
  then show ?case using Cons hash.enter_inv [OF Cons.prems(1) k] by (simp add: e)
qed simp

text \<open>C35. A table of \<open>hcreate_r\<close> has a power of two of buckets, between 16 and 2^26 and no fewer than asked for up to
  that limit. Entering strings with \<open>hsearch_r\<close> one after the other never faults, and a later \<open>hsearch_r\<close> returns the
  entry of the first of them with the same characters, and \<open>NULL\<close> if there is none.\<close>

theorem hsearch_correct:
  assumes "ram_ok m" and es: "\<forall>(q, k) \<in> set es. is_string m k \<and> q \<noteq> NULL" "distinct (map fst es)" and key: "is_string m key"
    and h: "htable h0 = None" "hcreate_r True nel h0 st = (r, h1, st')"
  shows "r = 1 \<and> (\<exists>k. htablesize h1 = 2 ^ k \<and> 4 \<le> k \<and> k \<le> 26 \<and> min nel (2 ^ 26) \<le> htablesize h1) \<and>
    (\<exists>h. foldl (\<lambda>h (q, k). do { h \<leftarrow> h; (_, _, h) \<leftarrow> hsearch_r m q k data ENTER h; Some h }) (Some h1) es = Some h \<and>
      (\<exists>b. hsearch_r m new key d FIND h =
        Some (b, case List.find (\<lambda>(q, k). strcmp m k key = Some 0) es of Some (q, k) \<Rightarrow> q | None \<Rightarrow> NULL, h)))"
proof -
  have b: "htablesize h1 = bucket_count nel" "r = 1" "htable h1 = Some (replicate (bucket_count nel) [])"
    using h by (auto simp: hcreate_r_def Let_def)
  obtain k where k: "bucket_count nel = 2 ^ k" "4 \<le> k" "k \<le> 26" "min nel (2 ^ 26) \<le> bucket_count nel"
    using bucket_count_power by blast
  have i: "hash_inv m h1" using assms(1) k(1) by (simp add: hash_inv_def b)
  let ?h = "hash.enter_all m data es h1"
  have n: "hash_find m key h1 = NULL"
    using hash_find_entry [OF i key] bucket_less [of "2 ^ k" m key] by (simp add: chain_def b k(1) find_entry_def)
  have f: "List.find (\<lambda>e. strcmp_value m (snd e) key = 0) es = List.find (\<lambda>(q, k). strcmp m k key = Some 0) es"
  proof (rule find_cong [OF refl])
    fix e assume "e \<in> set es"
    then have "is_string m (snd e)" using es(1) by auto
    then obtain xs ys where c: "cstr m (snd e) xs" "cstr m key ys" using key by (auto simp: is_string_def)
    show "(strcmp_value m (snd e) key = 0) = (case e of (q, k) \<Rightarrow> strcmp m k key = Some 0)"
      using strcmp_cstr [OF c] by (simp add: strcmp_value_def case_prod_unfold)
  qed
  have "\<forall>(q, k) \<in> set es. is_string m k \<and> q \<noteq> NULL" using es(1) by simp
  from hash.enter_all_correct [OF i this es(2) key, of data, unfolded f n]
  have e: "hash_inv m ?h" "hash_find m key ?h = (case List.find (\<lambda>(q, k). strcmp m k key = Some 0) es of Some e \<Rightarrow> fst e | None \<Rightarrow> NULL)"
    by simp_all
  have "\<exists>b. hsearch_r m new key d FIND ?h = Some (b, hash_find m key ?h, ?h)"
    using hsearch_r_cases [OF e(1) key] hash_find_entry [OF e(1) key] by (simp split: option.splits)
  then have "\<exists>h. foldl (\<lambda>h (q, k). do { h \<leftarrow> h; (_, _, h) \<leftarrow> hsearch_r m q k data ENTER h; Some h }) (Some h1) es = Some h \<and>
      (\<exists>b. hsearch_r m new key d FIND h =
        Some (b, case List.find (\<lambda>(q, k). strcmp m k key = Some 0) es of Some (q, k) \<Rightarrow> q | None \<Rightarrow> NULL, h))"
    unfolding e(2) foldl_hsearch [OF i es(1)] fst_def by blast
  then show ?thesis using b k by auto
qed

theorem hsearch_correct_witness:
  "\<exists>r h1 st h b. hcreate_r True 10 \<lparr>htable = None, htablesize = 0\<rparr> \<lparr>ram = [0, 0, 0, 0, 98, 0, 97, 0], errno = 0\<rparr> = (r, h1, st) \<and>
     foldl (\<lambda>h (q, k). do { h \<leftarrow> h; (_, _, h) \<leftarrow> hsearch_r [0, 0, 0, 0, 98, 0, 97, 0] q k 0 ENTER h; Some h }) (Some h1) [(100, 4), (200, 6)] =
       Some h \<and>
     hsearch_r [0, 0, 0, 0, 98, 0, 97, 0] 0 6 0 FIND h = Some (b, 200, h)"
proof -
  let ?m = "[0, 0, 0, 0, 98, 0, 97, 0] :: byte list"
  let ?h0 = "\<lparr>htable = None, htablesize = 0\<rparr>"
  let ?st = "\<lparr>ram = ?m, errno = 0\<rparr>"
  have c: "cstr ?m 4 [98]" "cstr ?m 6 [97]" by (simp_all add: load_def mapped_def)
  then have s: "is_string ?m 4" "is_string ?m 6" unfolding is_string_def by blast+
  have z: "strcmp ?m 4 6 \<noteq> Some 0" "strcmp ?m 6 6 = Some 0"
    using strcmp_cstr [OF c] strcmp_cstr [OF c(2) c(2)] by simp_all
  obtain r h1 st where h: "hcreate_r True 10 ?h0 ?st = (r, h1, st)" by (metis prod_cases3)
  have "ram_ok ?m" by (simp add: ram_ok_def)
  from hsearch_correct [OF this, of "[(100, 4), (200, 6)]" 6 ?h0 10 ?st r h1 st 0 0 0] s z h
  show ?thesis by auto
qed

end
