(* ===== verification/WordCopy.thy ===== *)
theory WordCopy
  imports StrCopy
begin

text \<open>
  The copying routines of \<^verbatim>\<open>src/library/string\<close> that move whole words where both pointers are
  aligned alike: \<open>mempcpy\<close>, \<open>memccpy\<close>, \<open>stpcpy\<close> and \<open>stpncpy\<close>, and the wrappers \<open>memcpy\<close>,
  \<open>memmove\<close>, \<open>memset\<close>, \<open>bcopy\<close> around functions of the operating system (\<open>CopyMem\<close>,
  \<open>MoveMem\<close>, \<open>SetMem\<close>), which are arguments.
\<close>

unbundle bit_operations_syntax

section \<open>Storing words\<close>

definition store32 :: "byte list \<Rightarrow> addr \<Rightarrow> u32 \<Rightarrow> byte list option" where
  "store32 m a w = do {
     m \<leftarrow> store m a (ucast (drop_bit 24 w));
     m \<leftarrow> store m (a + 1) (ucast (drop_bit 16 w));
     m \<leftarrow> store m (a + 2) (ucast (drop_bit 8 w));
     store m (a + 3) (ucast w) }"

definition copy32 :: "byte list \<Rightarrow> addr \<Rightarrow> addr \<Rightarrow> byte list option" where
  "copy32 m d s = do { w \<leftarrow> load32 m s; store32 m d w }"

lemma copy32_length: "copy32 m d s = Some m' \<Longrightarrow> length m' = length m"
  by (auto simp: copy32_def store32_def bind_Some_eq dest!: store_length)

lemma region_4: "region m a 4 \<longleftrightarrow> mapped m a \<and> mapped m (a + 1) \<and> mapped m (a + 2) \<and> mapped m (a + 3)"
  by (auto simp: region_def mapped_def)

lemma slice_4:
  assumes "region m a 4"
  shows "slice m a 4 = [m ! a, m ! (a + 1), m ! (a + 2), m ! (a + 3)]"
proof -
  have "slice m a (Suc (Suc (Suc (Suc 0)))) = [m ! a, m ! (a + 1), m ! (a + 2), m ! (a + 3)]"
    using assms by (simp add: region_4 slice_Suc add_small)
  then show ?thesis by (simp add: numeral_eq_Suc)
qed

lemma load32_region:
  "region m a 4 \<Longrightarrow> load32 m a = Some (be32 (m ! a) (m ! (a + 1)) (m ! (a + 2)) (m ! (a + 3)))"
  by (simp add: load32_def load_def region_4)

lemma store32_be32:
  "region m a 4 \<Longrightarrow> store32 m a (be32 b0 b1 b2 b3) = Some (put m a [b0, b1, b2, b3])"
  by (simp add: store32_def region_4 store_mapped be32_byte0 be32_byte1 be32_byte2 be32_byte3 add_small)

lemma copy32_put: "region m s 4 \<Longrightarrow> region m d 4 \<Longrightarrow> copy32 m d s = Some (put m d (slice m s 4))"
  by (simp add: copy32_def load32_region store32_be32 slice_4)

lemma slice_put_other: "apart d (length xs) s n \<Longrightarrow> slice (put m d xs) s n = slice m s n"
  by (rule nth_equalityI) (auto simp: slice_def nth_put apart_def)

text \<open>Copying \<open>j\<close> bytes and then \<open>k\<close> bytes is copying \<open>j + k\<close> bytes.\<close>

lemma put_slice_split:
  assumes "region m s (j + k)" "apart d (j + k) s (j + k)"
  shows "put (put m d (slice m s j)) (d + j) (slice (put m d (slice m s j)) (s + j) k) = put m d (slice m s (j + k))"
proof -
  have l: "length (slice m s j) = j" using assms(1) by (simp add: region_append length_slice)
  then have "slice (put m d (slice m s j)) (s + j) k = slice m (s + j) k"
    using assms(2) by (intro slice_put_other) (auto simp: apart_def)
  with l show ?thesis by (simp add: slice_append put_append)
qed

section \<open>mempcpy\<close>

text \<open>The C \<open>len\<close> is an \<open>int\<close>, compared with \<open>size_t\<close> constants, that is, as an unsigned number.\<close>

function mempcpy_big :: "byte list \<Rightarrow> addr \<Rightarrow> addr \<Rightarrow> size_t \<Rightarrow> (byte list \<times> addr \<times> addr \<times> size_t) option" where
  "mempcpy_big m dst src len =
     (if 16 \<le> len then do {
        m \<leftarrow> copy32 m dst src;
        m \<leftarrow> copy32 m (dst + 4) (src + 4);
        m \<leftarrow> copy32 m (dst + 8) (src + 8);
        m \<leftarrow> copy32 m (dst + 12) (src + 12);
        mempcpy_big m (dst + 16) (src + 16) (len - 16) }
      else Some (m, dst, src, len))"
  by pat_completeness auto
termination
  by (relation "measure (\<lambda>(m, d, s, n). n)") auto

function mempcpy_little :: "byte list \<Rightarrow> addr \<Rightarrow> addr \<Rightarrow> size_t \<Rightarrow> (byte list \<times> addr \<times> addr \<times> size_t) option" where
  "mempcpy_little m dst src len =
     (if 4 \<le> len then do { m \<leftarrow> copy32 m dst src; mempcpy_little m (dst + 4) (src + 4) (len - 4) }
      else Some (m, dst, src, len))"
  by pat_completeness auto
termination
  by (relation "measure (\<lambda>(m, d, s, n). n)") auto

fun mempcpy_bytes :: "byte list \<Rightarrow> addr \<Rightarrow> addr \<Rightarrow> size_t \<Rightarrow> (byte list \<times> addr) option" where
  "mempcpy_bytes m dst src 0 = Some (m, dst)"
| "mempcpy_bytes m dst src (Suc len) = do {
     b \<leftarrow> load m src; m \<leftarrow> store m dst b; mempcpy_bytes m (dst + 1) (src + 1) len }"

declare mempcpy_big.simps [simp del] mempcpy_little.simps [simp del]

text \<open>\<open>UNALIGNED (X, Y)\<close>: one of the two pointers is not word aligned.\<close>

definition UNALIGNED :: "addr \<Rightarrow> addr \<Rightarrow> bool" where
  "UNALIGNED x y \<longleftrightarrow> (x mod 4) OR (y mod 4) \<noteq> 0"

definition mempcpy :: "byte list \<Rightarrow> addr \<Rightarrow> addr \<Rightarrow> size_t \<Rightarrow> (byte list \<times> addr) option" where
  "mempcpy m dst0 src0 len0 = do {
     (m, dst, src, len) \<leftarrow>
       (if \<not> len0 < 4 \<and> \<not> UNALIGNED src0 dst0
        then do { (m, dst, src, len) \<leftarrow> mempcpy_big m dst0 src0 len0; mempcpy_little m dst src len }
        else Some (m, dst0, src0, len0));
     mempcpy_bytes m dst src len }"

text \<open>\<open>copied m d s n r\<close>: \<open>r\<close> is a state in the middle of copying \<open>n\<close> bytes from \<open>s\<close> to \<open>d\<close>.\<close>

definition copied :: "byte list \<Rightarrow> addr \<Rightarrow> addr \<Rightarrow> size_t \<Rightarrow> byte list \<times> addr \<times> addr \<times> size_t \<Rightarrow> bool" where
  "copied m d s n r \<longleftrightarrow> (case r of (m', d', s', k) \<Rightarrow>
     k \<le> n \<and> d' = d + (n - k) \<and> s' = s + (n - k) \<and> m' = put m d (slice m s (n - k)))"

lemma copied_start: "copied m d s n (m, d, s, n)"
  by (simp add: copied_def)

lemma copied_step:
  assumes "region m s n" "apart d n s n" "copied m d s n (m', d', s', k)" "j \<le> k"
  shows "copied m d s n (put m' d' (slice m' s' j), d' + j, s' + j, k - j)"
proof -
  from assms(3) have k: "k \<le> n" "d' = d + (n - k)" "s' = s + (n - k)" "m' = put m d (slice m s (n - k))"
    by (simp_all add: copied_def)
  have e: "n - (k - j) = n - k + j" "n - k + j \<le> n" using k(1) assms(4) by simp_all
  have "region m s (n - k + j)" "apart d (n - k + j) s (n - k + j)"
    using assms(1,2) e(2) by (auto simp: region_def apart_def)
  from put_slice_split [OF this] k e show ?thesis by (simp add: copied_def add.assoc)
qed

lemma copied_region:
  assumes "copied m d s n (m', d', s', k)" "region m d n" "region m s n" "j + i \<le> k"
  shows "region m' (d' + i) j" "region m' (s' + i) j"
  using assms by (auto simp: copied_def region_def)

lemma copied_copy32:
  assumes "region m s n" "region m d n" "apart d n s n" "copied m d s n (m', d', s', k)" "4 \<le> k"
    and "d2 = d' + 4" "s2 = s' + 4" "k2 = k - 4"
  shows "\<exists>m''. copy32 m' d' s' = Some m'' \<and> copied m d s n (m'', d2, s2, k2)"
  using copied_step [OF assms(1,3,4,5)] copied_region [OF assms(4,2,1), of 4 0] assms(5-)
  by (simp add: copy32_put)

lemma mempcpy_little_copied:
  assumes "region m s n" "region m d n" "apart d n s n"
  shows "copied m d s n (m', d', s', k) \<Longrightarrow> \<exists>r. mempcpy_little m' d' s' k = Some r \<and> copied m d s n r"
proof (induction m' d' s' k rule: mempcpy_little.induct)
  case (1 m' d' s' k)
  show ?case
  proof (cases "4 \<le> k")
    case True
    from copied_copy32 [OF assms "1.prems" True refl refl refl] obtain m'' where
      "copy32 m' d' s' = Some m''" "copied m d s n (m'', d' + 4, s' + 4, k - 4)" by blast
    with "1.IH" True show ?thesis by (simp add: mempcpy_little.simps [of m'])
  next
    case False
    with "1.prems" show ?thesis by (simp add: mempcpy_little.simps [of m'])
  qed
qed

lemma mempcpy_big_copied:
  assumes "region m s n" "region m d n" "apart d n s n"
  shows "copied m d s n (m', d', s', k) \<Longrightarrow> \<exists>r. mempcpy_big m' d' s' k = Some r \<and> copied m d s n r"
proof (induction m' d' s' k rule: mempcpy_big.induct)
  case (1 m0 d' s' k)
  note step = copied_copy32 [OF assms]
  show ?case
  proof (cases "16 \<le> k")
    case True
    then have le: "4 \<le> k" "4 \<le> k - 4" "4 \<le> k - 8" "4 \<le> k - 12" by simp_all
    from step [OF "1.prems" le(1), of "d' + 4" "s' + 4" "k - 4"] True obtain m1 where
      m1: "copy32 m0 d' s' = Some m1" "copied m d s n (m1, d' + 4, s' + 4, k - 4)" by auto
    from step [OF m1(2) le(2), of "d' + 8" "s' + 8" "k - 8"] True obtain m2 where
      m2: "copy32 m1 (d' + 4) (s' + 4) = Some m2" "copied m d s n (m2, d' + 8, s' + 8, k - 8)" by auto
    from step [OF m2(2) le(3), of "d' + 12" "s' + 12" "k - 12"] True obtain m3 where
      m3: "copy32 m2 (d' + 8) (s' + 8) = Some m3" "copied m d s n (m3, d' + 12, s' + 12, k - 12)" by auto
    from step [OF m3(2) le(4), of "d' + 16" "s' + 16" "k - 16"] True obtain m4 where
      m4: "copy32 m3 (d' + 12) (s' + 12) = Some m4" "copied m d s n (m4, d' + 16, s' + 16, k - 16)" by auto
    from "1.IH" [OF True m1(1) m2(1) m3(1) m4(1) m4(2)] m1(1) m2(1) m3(1) m4(1) True show ?thesis
      by (simp add: mempcpy_big.simps [of m0])
  next
    case False
    with "1.prems" show ?thesis by (simp add: mempcpy_big.simps [of m0])
  qed
qed

lemma mempcpy_bytes_copied:
  assumes "region m s n" "region m d n" "apart d n s n"
  shows "copied m d s n (m', d', s', k) \<Longrightarrow> mempcpy_bytes m' d' s' k = Some (put m d (slice m s n), d + n)"
proof (induction k arbitrary: m' d' s')
  case (Suc k)
  have "mapped m' d'" "mapped m' s'"
    using copied_region [OF Suc.prems assms(2,1), of "Suc 0" 0] by (simp_all add: region_Suc)
  moreover have "copied m d s n (m'[d' := m' ! s'], Suc d', Suc s', k)"
    using copied_step [OF assms(1,3) Suc.prems, of "Suc 0"] calculation by (simp add: slice_Suc)
  ultimately show ?case using Suc.IH by (simp add: load_def store_mapped)
qed (simp add: copied_def)

lemma mempcpy_put:
  assumes "region m s n" "region m d n" "apart d n s n"
  shows "mempcpy m d s n = Some (put m d (slice m s n), d + n)"
proof (cases "\<not> n < 4 \<and> \<not> UNALIGNED s d")
  case True
  from mempcpy_big_copied [OF assms copied_start] obtain m1 d1 s1 k1 where
    r: "mempcpy_big m d s n = Some (m1, d1, s1, k1)" "copied m d s n (m1, d1, s1, k1)"
    by (metis prod_cases4)
  from mempcpy_little_copied [OF assms r(2)] obtain m2 d2 s2 k2 where
    "mempcpy_little m1 d1 s1 k1 = Some (m2, d2, s2, k2)" "copied m d s n (m2, d2, s2, k2)"
    by (metis prod_cases4)
  with mempcpy_bytes_copied [OF assms] r(1) True show ?thesis by (simp add: mempcpy_def)
next
  case False
  with mempcpy_bytes_copied [OF assms copied_start] show ?thesis by (auto simp: mempcpy_def)
qed

section \<open>memccpy\<close>

text \<open>\<open>for (i = 0; i < LITTLEBLOCKSIZE; i++) mask = (mask << 8) + endchar\<close>\<close>

definition memccpy_mask :: "byte \<Rightarrow> u32" where
  "memccpy_mask endchar = ((\<lambda>msk. push_bit 8 msk + ucast endchar) ^^ 4) 0"

definition DETECTNULL :: "u32 \<Rightarrow> u32" where
  "DETECTNULL x = (x - 0x01010101) AND NOT x AND 0x80808080"

function memccpy_words :: "byte list \<Rightarrow> addr \<Rightarrow> addr \<Rightarrow> u32 \<Rightarrow> size_t \<Rightarrow> (byte list \<times> addr \<times> addr \<times> size_t) option" where
  "memccpy_words m dst src msk len =
     (if 4 \<le> len then do {
        buffer \<leftarrow> load32 m src;
        if DETECTNULL (buffer XOR msk) \<noteq> 0 then Some (m, dst, src, len)
        else do { m \<leftarrow> copy32 m dst src; memccpy_words m (dst + 4) (src + 4) msk (len - 4) } }
      else Some (m, dst, src, len))"
  by pat_completeness auto
termination
  by (relation "measure (\<lambda>(m, d, s, c, n). n)") auto

declare memccpy_words.simps [simp del]

fun memccpy_bytes :: "byte list \<Rightarrow> addr \<Rightarrow> addr \<Rightarrow> byte \<Rightarrow> size_t \<Rightarrow> (byte list \<times> addr) option" where
  "memccpy_bytes m dst src endchar 0 = Some (m, NULL)"
| "memccpy_bytes m dst src endchar (Suc len) = do {
     b \<leftarrow> load m src;
     m \<leftarrow> store m dst b;
     if b = endchar then Some (m, dst + 1) else memccpy_bytes m (dst + 1) (src + 1) endchar len }"

definition memccpy :: "byte list \<Rightarrow> addr \<Rightarrow> addr \<Rightarrow> int \<Rightarrow> size_t \<Rightarrow> (byte list \<times> addr) option" where
  "memccpy m dst0 src0 endchar0 len0 =
     (let endchar = word_of_int (endchar0 AND 0xff) in do {
        (m, dst, src, len) \<leftarrow>
          (if \<not> len0 < 4 \<and> \<not> UNALIGNED src0 dst0 then memccpy_words m dst0 src0 (memccpy_mask endchar) len0
           else Some (m, dst0, src0, len0));
        memccpy_bytes m dst src endchar len })"

lemma memccpy_mask_be32: "memccpy_mask c = be32 c c c c"
proof -
  have "memccpy_mask c = be32 c c c c" if "c = word_of_int k" "0 \<le> k" "k < 256" for k
    using that by (simp add: memccpy_mask_def be32_of_int eval_nat_numeral push_bit_eq_mult unsigned_of_int
        take_bit_int_eq_self)
  from this [of "uint c"] show ?thesis using uint_lt2p [of c] by simp
qed

text \<open>No byte of the copied prefix is the end character; the words loop maintains this.\<close>

lemma memccpy_words_copied:
  assumes "region m s n" "region m d n" "apart d n s n"
  shows "copied m d s n (m', d', s', k) \<Longrightarrow> c \<notin> set (slice m s (n - k)) \<Longrightarrow>
    \<exists>m2 d2 s2 k2. memccpy_words m' d' s' (memccpy_mask c) k = Some (m2, d2, s2, k2) \<and>
      copied m d s n (m2, d2, s2, k2) \<and> c \<notin> set (slice m s (n - k2))"
proof (induction m' d' s' "memccpy_mask c" k rule: memccpy_words.induct)
  case (1 m' d' s' k)
  show ?case
  proof (cases "4 \<le> k")
    case True
    have r: "region m' s' 4" using copied_region [OF "1.prems"(1) assms(2,1), of 4 0] True by simp
    show ?thesis
    proof (cases "DETECTNULL (be32 (m' ! s') (m' ! (s' + 1)) (m' ! (s' + 2)) (m' ! (s' + 3)) XOR memccpy_mask c) = 0")
      case no: True
      then have "c \<notin> {m' ! s', m' ! (s' + 1), m' ! (s' + 2), m' ! (s' + 3)}"
        unfolding DETECTNULL_def memccpy_mask_be32 be32_xor haszero32 by auto
      then have c': "c \<notin> set (slice m' s' 4)" by (simp add: slice_4 [OF r])
      have k: "k \<le> n" "s' = s + (n - k)" "m' = put m d (slice m s (n - k))"
        using "1.prems"(1) by (simp_all add: copied_def)
      have "slice m' s' 4 = slice m s' 4"
        using k True assms(1,3) by (auto intro!: slice_put_other simp: apart_def length_slice region_mono)
      moreover have "slice m s (n - (k - 4)) = slice m s (n - k) @ slice m s' 4"
        using slice_append [of m s "n - k" 4] k(1,2) True by simp
      ultimately have c4: "c \<notin> set (slice m s (n - (k - 4)))"
        using c' "1.prems"(2) by simp
      from copied_copy32 [OF assms "1.prems"(1) True refl refl refl] obtain m'' where
        "copy32 m' d' s' = Some m''" "copied m d s n (m'', d' + 4, s' + 4, k - 4)" by blast
      with "1.hyps" [OF True load32_region [OF r]] no c4 True r show ?thesis
        by (simp add: memccpy_words.simps [of m'] load32_region)
    next
      case False
      with "1.prems" True r show ?thesis by (simp add: memccpy_words.simps [of m'] load32_region)
    qed
  next
    case False
    with "1.prems" show ?thesis by (simp add: memccpy_words.simps [of m'])
  qed
qed

text \<open>What \<open>memccpy\<close> writes and returns for the source bytes \<open>bs\<close>.\<close>

definition memccpy_spec :: "byte list \<Rightarrow> addr \<Rightarrow> byte list \<Rightarrow> byte \<Rightarrow> byte list \<times> addr" where
  "memccpy_spec m d bs c =
     (if c \<in> set bs then (put m d (takeWhile (\<lambda>b. b \<noteq> c) bs @ [c]), d + length (takeWhile (\<lambda>b. b \<noteq> c) bs) + 1)
      else (put m d bs, NULL))"

lemma memccpy_bytes_copied:
  assumes "region m s n" "region m d n" "apart d n s n"
  shows "copied m d s n (m', d', s', k) \<Longrightarrow> c \<notin> set (slice m s (n - k)) \<Longrightarrow>
    memccpy_bytes m' d' s' c k = Some (memccpy_spec m d (slice m s n) c)"
proof (induction k arbitrary: m' d' s')
  case 0
  then show ?case by (simp add: copied_def memccpy_spec_def)
next
  case (Suc k)
  let ?j = "n - Suc k"
  have p: "Suc k \<le> n" "d' = d + ?j" "s' = s + ?j" "m' = put m d (slice m s ?j)"
    using Suc.prems(1) by (simp_all add: copied_def)
  have mp: "mapped m' d'" "mapped m' s'"
    using copied_region [OF Suc.prems(1) assms(2,1), of "Suc 0" 0] by (simp_all add: region_Suc)
  have "slice m' s' 1 = slice m s' 1"
    using p assms(1,3) by (auto intro!: slice_put_other simp: apart_def length_slice region_mono)
  then have b: "m' ! s' = m ! s'" using mp p(4) by (simp add: slice_Suc)
  have sp: "slice m s n = slice m s ?j @ m ! s' # slice m (Suc s') k"
  proof -
    have "n = ?j + Suc k" using p(1) by simp
    then have "slice m s n = slice m s ?j @ slice m s' (Suc k)" using slice_append p(3) by metis
    then show ?thesis using mp p(4) by (simp add: slice_Suc)
  qed
  have len: "length (slice m s ?j) = ?j" using assms(1) by (simp add: length_slice region_mono)
  show ?case
  proof (cases "m ! s' = c")
    case True
    with Suc.prems(2) mp b sp len p show ?thesis
      by (simp add: load_def store_mapped memccpy_spec_def put_append takeWhile_neq_append)
  next
    case False
    have "slice m s (n - k) = slice m s ?j @ [m ! s']"
      using slice_append [of m s ?j "Suc 0"] mp p by (simp add: slice_Suc Suc_diff_Suc)
    then have "c \<notin> set (slice m s (n - k))" using Suc.prems(2) False by simp
    moreover have "copied m d s n (m'[d' := m' ! s'], Suc d', Suc s', k)"
      using copied_step [OF assms(1,3) Suc.prems(1), of "Suc 0"] mp by (simp add: slice_Suc)
    ultimately show ?thesis using Suc.IH False mp b by (simp add: load_def store_mapped)
  qed
qed

lemma memccpy_put:
  assumes "region m s n" "region m d n" "apart d n s n"
  shows "memccpy m d s c n = Some (memccpy_spec m d (slice m s n) (word_of_int (c AND 0xff)))"
proof (cases "\<not> n < 4 \<and> \<not> UNALIGNED s d")
  case True
  from memccpy_words_copied [OF assms copied_start, of "word_of_int (c AND 0xff)"] obtain m2 d2 s2 k2 where
    "memccpy_words m d s (memccpy_mask (word_of_int (c AND 0xff))) n = Some (m2, d2, s2, k2)"
    "copied m d s n (m2, d2, s2, k2)" "word_of_int (c AND 0xff) \<notin> set (slice m s (n - k2))" by auto
  with memccpy_bytes_copied [OF assms] True show ?thesis by (simp add: memccpy_def Let_def)
next
  case False
  with memccpy_bytes_copied [OF assms copied_start] show ?thesis by (auto simp: memccpy_def Let_def)
qed

section \<open>stpcpy\<close>

text \<open>The macros of \<^verbatim>\<open>stpcpy.c\<close>, on a \<open>size_t\<close> operand.\<close>

definition LOWS :: "u32 \<Rightarrow> u32" where "LOWS x = (x * 0 - 1) div 255"
definition HIGHS :: "u32 \<Rightarrow> u32" where "HIGHS x = x - (x * 0 - 1) div 255 * 128"
definition has_zero :: "u32 \<Rightarrow> u32" where "has_zero x = x - (LOWS x AND NOT x AND HIGHS x)"

function stpcpy_head :: "byte list \<Rightarrow> addr \<Rightarrow> addr \<Rightarrow> (byte list \<times> (addr + addr \<times> addr)) option" where
  "stpcpy_head m dest src =
     (if src mod 4 \<noteq> 0 then do {
        b \<leftarrow> load m src;
        m \<leftarrow> store m dest b;
        if b = 0 then Some (m, Inl dest) else stpcpy_head m (dest + 1) (src + 1) }
      else Some (m, Inr (dest, src)))"
  by pat_completeness auto
termination
  by (relation "measure (\<lambda>(m, d, s). length m - s)") (auto dest!: load_lt store_length)

text \<open>\<open>for (...; !has_zero(*ws); wd++, ws++, *wd = *ws);\<close>\<close>

function stpcpy_words :: "byte list \<Rightarrow> addr \<Rightarrow> addr \<Rightarrow> (byte list \<times> addr \<times> addr) option" where
  "stpcpy_words m wd ws = do {
     w \<leftarrow> load32 m ws;
     if has_zero w \<noteq> 0 then Some (m, wd, ws)
     else do { m' \<leftarrow> copy32 m (wd + 4) (ws + 4);
               stpcpy_words m' (wd + 4) (ws + 4) } }"
  by pat_completeness auto
termination
  by (relation "measure (\<lambda>(m, d, s). length m - s)") (auto dest!: load32_lt copy32_length)

function stpcpy_bytes :: "byte list \<Rightarrow> addr \<Rightarrow> addr \<Rightarrow> (byte list \<times> addr) option" where
  "stpcpy_bytes m dest src = do {
     b \<leftarrow> load m src;
     m \<leftarrow> store m dest b;
     if b \<noteq> 0 then stpcpy_bytes m (dest + 1) (src + 1) else Some (m, dest) }"
  by pat_completeness auto
termination
  by (relation "measure (\<lambda>(m, d, s). length m - s)") (auto dest!: load_lt store_length)

declare stpcpy_head.simps [simp del] stpcpy_words.simps [simp del] stpcpy_bytes.simps [simp del]

definition stpcpy :: "byte list \<Rightarrow> addr \<Rightarrow> addr \<Rightarrow> (byte list \<times> addr) option" where
  "stpcpy m dest src =
     (if src mod 4 \<noteq> dest mod 4 then stpcpy_bytes m dest src
      else do {
        (m, r) \<leftarrow> stpcpy_head m dest src;
        (case r of Inl e \<Rightarrow> Some (m, e)
         | Inr (dest, src) \<Rightarrow> do {
             (m, dest, src) \<leftarrow> stpcpy_words m dest src;
             stpcpy_bytes m dest src }) })"

text \<open>The macro \<open>has_zero\<close> is never zero, so the word loop of \<open>stpcpy\<close> stops before its first copy.\<close>

lemma has_zero_never_zero: "has_zero x \<noteq> 0"
proof
  assume "has_zero x = 0"
  then have x: "x = LOWS x AND NOT x AND HIGHS x" by (simp add: has_zero_def)
  have "\<not> bit x k" for k
    using arg_cong [OF x, of "\<lambda>w. bit w k"] by (auto simp: bit_and_iff bit_not_iff)
  then have "x = 0" by (intro bit_word_eqI) simp
  moreover have "LOWS 0 AND NOT 0 AND HIGHS 0 \<noteq> 0" by (simp add: LOWS_def HIGHS_def)
  ultimately show False using x by metis
qed

lemma stpcpy_bytes_put:
  "cstr m s xs \<Longrightarrow> region m d (Suc (length xs)) \<Longrightarrow> apart d (Suc (length xs)) s (Suc (length xs)) \<Longrightarrow>
   stpcpy_bytes m d s = Some (put m d (xs @ [0]), d + length xs)"
proof (induction xs arbitrary: m d s)
  case (Cons x xs)
  from Cons.IH [of "m[d := x]" "Suc s" "Suc d"] Cons.prems
    cstr_copied [of m s x xs d "Suc (length xs)" x] apart_step [of d "Suc (length xs)" s]
  show ?case by (auto simp: stpcpy_bytes.simps [of m] region_Suc store_mapped)
qed (simp add: stpcpy_bytes.simps region_Suc store_mapped)

lemma stpcpy_words_stop:
  assumes "ram_ok m" "cstr m s xs" "s mod 4 = 0"
  shows "stpcpy_words m d s = Some (m, d, s)"
  using load32_aligned [OF assms(1) cstr_mapped [OF assms(2)] assms(3)]
  by (simp add: stpcpy_words.simps has_zero_never_zero)

lemma stpcpy_put:
  assumes "ram_ok m" "cstr m s xs" "region m d (Suc (length xs))" "apart d (Suc (length xs)) s (Suc (length xs))"
  shows "stpcpy m d s = Some (put m d (xs @ [0]), d + length xs)"
proof (cases "s mod 4 = d mod 4")
  case True
  have "(case stpcpy_head m d s of None \<Rightarrow> None | Some (m, r) \<Rightarrow>
      (case r of Inl e \<Rightarrow> Some (m, e)
         | Inr (dest, src) \<Rightarrow> do {
             (m, dest, src) \<leftarrow> stpcpy_words m dest src;
             stpcpy_bytes m dest src })) = Some (put m d (xs @ [0]), d + length xs)"
    using assms
  proof (induction xs arbitrary: m d s)
    case Nil
    then show ?case using stpcpy_words_stop [OF Nil(1,2)] stpcpy_bytes_put [OF Nil(2-4)]
      by (auto simp: stpcpy_head.simps [of m] region_Suc store_mapped)
  next
    case (Cons x xs)
    show ?case
      using stpcpy_words_stop [OF Cons.prems(1,2)] stpcpy_bytes_put [OF Cons.prems(2-4)]
        Cons.IH [of "m[d := x]" "Suc s" "Suc d"] Cons.prems
        cstr_copied [of m s x xs d "Suc (length xs)" x] apart_step [of d "Suc (length xs)" s]
      by (auto simp: stpcpy_head.simps [of m] region_Suc store_mapped)
  qed
  with True show ?thesis by (auto simp: stpcpy_def split: option.splits)
next
  case False
  with stpcpy_bytes_put [OF assms(2-4)] show ?thesis by (simp add: stpcpy_def)
qed

section \<open>memcpy, memmove, memset, bcopy\<close>

text \<open>
  \<open>CopyMem\<close> and \<open>MoveMem\<close> take the source first, as in the Exec library; \<open>SetMem\<close> belongs to the
  utility library, whose interface pointer may be NULL (\<open>None\<close>).
\<close>

type_synonym setmem = "byte list \<Rightarrow> addr \<Rightarrow> int \<Rightarrow> size_t \<Rightarrow> (addr \<times> byte list) option"

definition memcpy :: "(byte list \<Rightarrow> addr \<Rightarrow> addr \<Rightarrow> size_t \<Rightarrow> byte list option) \<Rightarrow> addr \<Rightarrow> addr \<Rightarrow> size_t \<Rightarrow> clib \<Rightarrow> (addr \<times> clib) option" where
  "memcpy CopyMem dst src len st =
     (if dst = NULL \<or> src = NULL then Some (dst, set_errno EFAULT st)
      else if 0 < len \<and> dst \<noteq> src
      then do { m \<leftarrow> CopyMem (ram st) src dst len; Some (dst, st\<lparr>ram := m\<rparr>) }
      else Some (dst, set_errno EFAULT st))"

definition memmove :: "(byte list \<Rightarrow> addr \<Rightarrow> addr \<Rightarrow> size_t \<Rightarrow> byte list option) \<Rightarrow> addr \<Rightarrow> addr \<Rightarrow> size_t \<Rightarrow> clib \<Rightarrow> (addr \<times> clib) option" where
  "memmove MoveMem dest src len st =
     (if dest = NULL \<or> src = NULL then Some (dest, set_errno EFAULT st)
      else if 0 < len \<and> dest \<noteq> src
      then do { m \<leftarrow> MoveMem (ram st) src dest len; Some (dest, st\<lparr>ram := m\<rparr>) }
      else Some (dest, set_errno EFAULT st))"

definition bcopy :: "(byte list \<Rightarrow> addr \<Rightarrow> addr \<Rightarrow> size_t \<Rightarrow> byte list option) \<Rightarrow> addr \<Rightarrow> addr \<Rightarrow> size_t \<Rightarrow> clib \<Rightarrow> clib option" where
  "bcopy MoveMem src dest len st = do { (_, st) \<leftarrow> memmove MoveMem dest src len st; Some st }"

definition memset :: "setmem option \<Rightarrow> addr \<Rightarrow> int \<Rightarrow> size_t \<Rightarrow> clib \<Rightarrow> (addr \<times> clib) option" where
  "memset IUtility ptr val len st =
     (case IUtility of
        None \<Rightarrow> Some (ptr, set_errno EFAULT st)
      | Some SetMem \<Rightarrow>
          if ptr = NULL then Some (ptr, set_errno EFAULT st)
          else do { (r, m) \<leftarrow> SetMem (ram st) ptr val len; Some (r, st\<lparr>ram := m\<rparr>) })"

text \<open>What the callers rely on of a copy between regions that do not overlap.\<close>

locale copy_spec =
  fixes CopyMem :: "byte list \<Rightarrow> addr \<Rightarrow> addr \<Rightarrow> size_t \<Rightarrow> byte list option"
  assumes copies: "region m s n \<Longrightarrow> region m d n \<Longrightarrow> apart d n s n \<Longrightarrow> CopyMem m s d n = Some (put m d (slice m s n))"
begin

lemma memcpy_put:
  assumes "region (ram st) s n" "region (ram st) d n" "apart d n s n" "0 < n"
  shows "memcpy CopyMem d s n st = Some (d, st\<lparr>ram := put (ram st) d (slice (ram st) s n)\<rparr>)"
  using assms copies [OF assms(1-3)] by (auto simp: memcpy_def region_def apart_def)

end

text \<open>The C routine \<open>mempcpy\<close> meets that contract.\<close>

interpretation mempcpy: copy_spec "\<lambda>m s d n. map_option fst (mempcpy m d s n)"
  by unfold_locales (simp add: mempcpy_put)

definition SetMem_spec :: "setmem \<Rightarrow> bool" where
  "SetMem_spec SetMem \<longleftrightarrow>
     (\<forall>m p v n. region m p n \<longrightarrow> SetMem m p v n = Some (p, put m p (replicate n (word_of_int v))))"

section \<open>stpncpy\<close>

definition HASZERO :: "u32 \<Rightarrow> u32" where
  "HASZERO x = (x - (- 1) div 255) AND NOT x AND ((- 1) div 255) * (255 div 2 + 1)"

function stpncpy_head :: "byte list \<Rightarrow> addr \<Rightarrow> addr \<Rightarrow> size_t \<Rightarrow> (byte list \<times> addr \<times> addr \<times> size_t) option" where
  "stpncpy_head m d s n =
     (if s mod 4 \<noteq> 0 \<and> n \<noteq> 0 then do {
        b \<leftarrow> load m s;
        m \<leftarrow> store m d b;
        if b \<noteq> 0 then stpncpy_head m (d + 1) (s + 1) (n - 1) else Some (m, d, s, n) }
      else Some (m, d, s, n))"
  by pat_completeness auto
termination
  by (relation "measure (\<lambda>(m, d, s, n). n)") auto

function stpncpy_words :: "byte list \<Rightarrow> addr \<Rightarrow> addr \<Rightarrow> size_t \<Rightarrow> (byte list \<times> addr \<times> addr \<times> size_t) option" where
  "stpncpy_words m wd ws n =
     (if 4 \<le> n then do {
        w \<leftarrow> load32 m ws;
        if HASZERO w = 0 then do { m \<leftarrow> store32 m wd w; stpncpy_words m (wd + 4) (ws + 4) (n - 4) }
        else Some (m, wd, ws, n) }
      else Some (m, wd, ws, n))"
  by pat_completeness auto
termination
  by (relation "measure (\<lambda>(m, d, s, n). n)") auto

fun stpncpy_bytes :: "byte list \<Rightarrow> addr \<Rightarrow> addr \<Rightarrow> size_t \<Rightarrow> (byte list \<times> addr \<times> size_t) option" where
  "stpncpy_bytes m d s 0 = Some (m, d, 0)"
| "stpncpy_bytes m d s (Suc n) = do {
     b \<leftarrow> load m s;
     m \<leftarrow> store m d b;
     if b \<noteq> 0 then stpncpy_bytes m (d + 1) (s + 1) n else Some (m, d, Suc n) }"

declare stpncpy_head.simps [simp del] stpncpy_words.simps [simp del]

text \<open>What follows the alignment loop of \<open>stpncpy\<close>.\<close>

definition stpncpy_rest :: "byte list \<Rightarrow> addr \<Rightarrow> addr \<Rightarrow> size_t \<Rightarrow> (byte list \<times> addr \<times> size_t) option" where
  "stpncpy_rest m d s n = do {
     tail \<leftarrow> (if n = 0 then Some True else do { b \<leftarrow> load m s; Some (b = 0) });
     if tail then Some (m, d, n)
     else do { (m, d, s, n) \<leftarrow> stpncpy_words m d s n; stpncpy_bytes m d s n } }"

definition stpncpy :: "setmem option \<Rightarrow> addr \<Rightarrow> addr \<Rightarrow> size_t \<Rightarrow> clib \<Rightarrow> (addr \<times> clib) option" where
  "stpncpy IUtility d s n st = do {
     (m, d, n) \<leftarrow>
       (if s mod 4 = d mod 4 then do {
          (m, d, s, n) \<leftarrow> stpncpy_head (ram st) d s n;
          stpncpy_rest m d s n }
        else stpncpy_bytes (ram st) d s n);
     (_, st) \<leftarrow> memset IUtility d 0 n (st\<lparr>ram := m\<rparr>);
     Some (d, st) }"

lemma HASZERO_be32: "HASZERO (be32 b0 b1 b2 b3) = 0 \<longleftrightarrow> 0 \<notin> {b0, b1, b2, b3}"
proof -
  have "(- 1) div 255 = (0x01010101 :: u32)" "0x01010101 * (255 div 2 + 1) = (0x80808080 :: u32)" by simp_all
  then show ?thesis unfolding HASZERO_def using haszero32 [of b0 b1 b2 b3] by (auto simp only: insert_iff empty_iff)
qed

text \<open>\<open>padded m d xs n r\<close>: \<open>r\<close> is a result from which zeroing the rest gives the padded copy of \<open>xs\<close>.\<close>

definition padded :: "byte list \<Rightarrow> addr \<Rightarrow> byte list \<Rightarrow> size_t \<Rightarrow> (byte list \<times> addr \<times> size_t) option \<Rightarrow> bool" where
  "padded m d xs n r \<longleftrightarrow> (\<exists>m'. r = Some (m', d + min n (length xs), n - length xs) \<and> length m' = length m \<and>
     put m' (d + min n (length xs)) (replicate (n - length xs) 0) = put m d (take n xs @ replicate (n - length xs) 0))"

lemma padded_step:
  assumes "padded (put m d (take j xs)) (d + j) (drop j xs) (n - j) r" "j \<le> length xs" "j \<le> n"
  shows "padded m d xs n r"
proof -
  have "take n xs = take j xs @ take (n - j) (drop j xs)"
    using assms(3) by (metis le_add_diff_inverse take_add)
  moreover have "j + min (n - j) (length xs - j) = min n (length xs)" using assms(2,3) by simp
  ultimately show ?thesis
    using assms by (simp add: padded_def put_append min.absorb2 add.assoc)
qed

lemma stpncpy_bytes_padded:
  "cstr m s xs \<Longrightarrow> region m d n \<Longrightarrow> apart d n s (Suc (length xs)) \<Longrightarrow> padded m d xs n (stpncpy_bytes m d s n)"
proof (induction n arbitrary: m d s xs)
  case (Suc n)
  show ?case
  proof (cases xs)
    case Nil
    with Suc.prems show ?thesis by (simp add: padded_def region_Suc store_mapped)
  next
    case (Cons x ys)
    then have "padded (m[d := x]) (Suc d) ys n (stpncpy_bytes (m[d := x]) (Suc d) (Suc s) n)"
      using Suc.IH Suc.prems cstr_copied [of m s x ys d n x] apart_step [of d n s] by (simp add: region_Suc)
    then show ?thesis
      using padded_step [of m d 1 xs "Suc n"] Suc.prems Cons by (simp add: region_Suc store_mapped)
  qed
qed (simp add: padded_def)

lemma cstr_word:
  assumes "ram_ok m" "cstr m s xs" "s mod 4 = 0"
  shows "\<exists>b0 b1 b2 b3. load32 m s = Some (be32 b0 b1 b2 b3) \<and>
    (if length xs < 4 then 0 \<in> {b0, b1, b2, b3}
     else take 4 xs = [b0, b1, b2, b3] \<and> 0 \<notin> {b0, b1, b2, b3} \<and> cstr m (s + 4) (drop 4 xs))"
  using load32_aligned [OF assms(1) cstr_mapped [OF assms(2)] assms(3)] assms(2)
  by (cases xs rule: list_cases4) (auto simp: load_Some_mapped add_small)

lemma stpncpy_words_padded:
  "ram_ok m \<Longrightarrow> s mod 4 = 0 \<Longrightarrow> cstr m s xs \<Longrightarrow> region m d n \<Longrightarrow> apart d n s (Suc (length xs)) \<Longrightarrow>
   padded m d xs n (do { (m, d, s, n) \<leftarrow> stpncpy_words m d s n; stpncpy_bytes m d s n })"
proof (induction m d s n arbitrary: xs rule: stpncpy_words.induct)
  case (1 m d s n)
  show ?case
  proof (cases "4 \<le> n \<and> 4 \<le> length xs")
    case True
    then obtain b0 b1 b2 b3 where w: "load32 m s = Some (be32 b0 b1 b2 b3)" "take 4 xs = [b0, b1, b2, b3]"
      "0 \<notin> {b0, b1, b2, b3}" "cstr m (s + 4) (drop 4 xs)"
      using cstr_word [OF "1.prems"(1,3,2)] by auto
    then have z: "HASZERO (be32 b0 b1 b2 b3) = 0" by (simp only: HASZERO_be32) simp
    have st: "store32 m d (be32 b0 b1 b2 b3) = Some (put m d (take 4 xs))"
      using "1.prems"(4) True w(2) store32_be32 [of m d] by (simp add: region_mono)
    have "cstr (put m d (take 4 xs)) (s + 4) (drop 4 xs)"
      using w(4) True "1.prems"(5) by (subst cstr_put_other) (auto simp: apart_def)
    moreover have "region m (d + 4) (n - 4)" "apart (d + 4) (n - 4) (s + 4) (Suc (length (drop 4 xs)))"
      using "1.prems"(4,5) True by (auto simp: region_def apart_def)
    ultimately have "padded (put m d (take 4 xs)) (d + 4) (drop 4 xs) (n - 4)
        (do { (m, d, s, n) \<leftarrow> stpncpy_words (put m d (take 4 xs)) (d + 4) (s + 4) (n - 4); stpncpy_bytes m d s n })"
      using "1.IH" [OF conjunct1 [OF True] w(1) z st, of "drop 4 xs"] "1.prems"(1,2) by simp
    then show ?thesis
      using padded_step [of m d 4 xs n] True w(1) z st by (simp add: stpncpy_words.simps [of m])
  next
    case False
    then have "stpncpy_words m d s n = Some (m, d, s, n)"
      using cstr_word [OF "1.prems"(1,3,2)] HASZERO_be32 by (auto simp: stpncpy_words.simps [of m])
    then show ?thesis using stpncpy_bytes_padded [OF "1.prems"(3-5)] by simp
  qed
qed

lemma stpncpy_rest_padded:
  assumes "ram_ok m" "s mod 4 = 0" "cstr m s xs" "region m d n" "apart d n s (Suc (length xs))"
  shows "padded m d xs n (stpncpy_rest m d s n)"
proof (cases "n = 0 \<or> xs = []")
  case True
  with assms(3) show ?thesis by (auto simp: padded_def stpncpy_rest_def)
next
  case False
  then obtain x ys where "xs = x # ys" by (cases xs) auto
  with stpncpy_words_padded [OF assms] assms(3) False show ?thesis by (simp add: stpncpy_rest_def)
qed

lemma stpncpy_head_padded:
  "ram_ok m \<Longrightarrow> cstr m s xs \<Longrightarrow> region m d n \<Longrightarrow> apart d n s (Suc (length xs)) \<Longrightarrow>
   padded m d xs n (do { (m, d, s, n) \<leftarrow> stpncpy_head m d s n; stpncpy_rest m d s n })"
proof (induction n arbitrary: m d s xs)
  case 0
  then show ?case by (simp add: stpncpy_head.simps padded_def stpncpy_rest_def)
next
  case (Suc n)
  show ?case
  proof (cases "s mod 4 = 0")
    case True
    with stpncpy_rest_padded [OF Suc.prems(1) _ Suc.prems(2-4)] show ?thesis by (simp add: stpncpy_head.simps [of m])
  next
    case False
    show ?thesis
    proof (cases xs)
      case Nil
      have "load (m[d := 0]) s = Some 0" using Suc.prems Nil by (simp add: load_update load_Some_mapped)
      with Nil Suc.prems False show ?thesis
        by (simp add: stpncpy_head.simps [of m] stpncpy_rest_def padded_def region_Suc store_mapped)
    next
      case (Cons x ys)
      have "padded (m[d := x]) (Suc d) ys n
        (do { (m, d, s, n) \<leftarrow> stpncpy_head (m[d := x]) (Suc d) (Suc s) n; stpncpy_rest m d s n })"
        using Suc.IH Suc.prems Cons cstr_copied [of m s x ys d n x] apart_step [of d n s] by (simp add: region_Suc)
      then show ?thesis
        using padded_step [of m d 1 xs "Suc n"] Suc.prems Cons False
        by (simp add: stpncpy_head.simps [of m] region_Suc store_mapped)
    qed
  qed
qed

lemma stpncpy_put:
  assumes "SetMem_spec SetMem" "ram_ok (ram st)" "cstr (ram st) s xs" "region (ram st) d n" "4 \<le> d"
    and "apart d n s (Suc (length xs))"
  shows "stpncpy (Some SetMem) d s n st = Some (d + min n (length xs),
    st\<lparr>ram := put (ram st) d (take n xs @ replicate (n - length xs) 0)\<rparr>)"
proof -
  let ?r = "if s mod 4 = d mod 4 then do { (m, d, s, n) \<leftarrow> stpncpy_head (ram st) d s n; stpncpy_rest m d s n }
    else stpncpy_bytes (ram st) d s n"
  have "padded (ram st) d xs n ?r"
    using stpncpy_head_padded [OF assms(2-4,6)] stpncpy_bytes_padded [OF assms(3,4,6)] by simp
  then obtain m' where m': "?r = Some (m', d + min n (length xs), n - length xs)" "length m' = length (ram st)"
    "put m' (d + min n (length xs)) (replicate (n - length xs) 0) = put (ram st) d (take n xs @ replicate (n - length xs) 0)"
    by (auto simp: padded_def)
  have "region m' (d + min n (length xs)) (n - length xs)"
    using assms(4) m'(2) by (auto simp: region_def)
  with m'(2,3) assms(1,5) show ?thesis
    unfolding stpncpy_def m'(1) by (simp add: memset_def SetMem_spec_def)
qed

section \<open>What the word copies leave behind\<close>

text \<open>C16. \<open>mempcpy\<close>, whose unrolled loop moves four words at a time where both pointers are aligned,
  copies exactly the \<open>n\<close> bytes, changes no other byte, and returns the end of the destination.\<close>

theorem mempcpy_correct:
  assumes "region m s n" "region m d n" "apart d n s n"
  shows "mempcpy m d s n = Some (put m d (slice m s n), d + n)"
  using assms by (rule mempcpy_put)

theorem mempcpy_correct_witness:
  "mempcpy [0, 0, 0, 0, 1, 2, 3, 4, 5, 6, 9, 9, 9, 9, 9, 9] 10 4 6 =
     Some ([0, 0, 0, 0, 1, 2, 3, 4, 5, 6, 1, 2, 3, 4, 5, 6], 16)"
  using mempcpy_correct [of "[0, 0, 0, 0, 1, 2, 3, 4, 5, 6, 9, 9, 9, 9, 9, 9]" 4 6 10]
  by (simp add: region_def apart_def slice_def)

text \<open>\<open>memccpy\<close> copies up to and including the first occurrence of the character and returns the
  address behind its copy; if the character does not occur it copies all \<open>n\<close> bytes and returns NULL.\<close>

theorem memccpy_correct:
  assumes "region m s n" "region m d n" "apart d n s n"
  shows "memccpy m d s c n = Some (memccpy_spec m d (slice m s n) (word_of_int (c AND 0xff)))"
  using assms by (rule memccpy_put)

theorem memccpy_correct_witness:
  "memccpy [0, 0, 0, 0, 1, 2, 3, 4, 5, 6, 9, 9, 9, 9, 9, 9] 10 4 3 6 =
     Some ([0, 0, 0, 0, 1, 2, 3, 4, 5, 6, 1, 2, 3, 9, 9, 9], 13)"
  using memccpy_correct [of "[0, 0, 0, 0, 1, 2, 3, 4, 5, 6, 9, 9, 9, 9, 9, 9]" 4 6 10 3]
  by (simp add: region_def apart_def slice_def memccpy_spec_def)

text \<open>C17. \<open>stpcpy\<close> copies the string with its terminator and returns the address of the copied
  terminator, although its word loop never copies a word: the macro \<open>has_zero\<close> is never zero.\<close>

theorem stpcpy_correct:
  assumes "ram_ok m" "cstr m s xs" "region m d (Suc (length xs))" "apart d (Suc (length xs)) s (Suc (length xs))"
  shows "stpcpy m d s = Some (put m d (xs @ [0]), d + length xs) \<and> cstr (put m d (xs @ [0])) d xs \<and> has_zero w \<noteq> 0"
  using stpcpy_put [OF assms] cstr_put_same [OF assms(3) cstr_nonzero [OF assms(2)]] has_zero_never_zero by blast

theorem stpcpy_correct_witness:
  "stpcpy [0, 0, 0, 0, 9, 9, 9, 9, 9, 9, 9, 9, 1, 2, 3, 4, 5, 0, 0, 0] 4 12 =
     Some ([0, 0, 0, 0, 1, 2, 3, 4, 5, 0, 9, 9, 1, 2, 3, 4, 5, 0, 0, 0], 9)"
  using stpcpy_correct [of "[0, 0, 0, 0, 9, 9, 9, 9, 9, 9, 9, 9, 1, 2, 3, 4, 5, 0, 0, 0]" 12 "[1, 2, 3, 4, 5]" 4]
  by (simp add: ram_ok_def load_def mapped_def region_def apart_def)

text \<open>If \<open>SetMem\<close> fills memory as documented, \<open>stpncpy\<close> writes the first \<open>n\<close> characters of the
  source padded with zeros to \<open>n\<close> bytes, and returns the end of the copied characters.\<close>

theorem stpncpy_correct:
  assumes "SetMem_spec SetMem" "ram_ok (ram st)" "cstr (ram st) s xs" "region (ram st) d n" "4 \<le> d"
    and "apart d n s (Suc (length xs))"
  shows "stpncpy (Some SetMem) d s n st = Some (d + min n (length xs),
    st\<lparr>ram := put (ram st) d (take n xs @ replicate (n - length xs) 0)\<rparr>)"
  using assms by (rule stpncpy_put)

theorem stpncpy_correct_witness:
  "stpncpy (Some (\<lambda>m p v n. Some (p, put m p (replicate n (word_of_int v))))) 4 12 7
     \<lparr>ram = [0, 0, 0, 0, 9, 9, 9, 9, 9, 9, 9, 9, 1, 2, 3, 4, 5, 0, 0, 0], errno = 0\<rparr> =
   Some (9, \<lparr>ram = [0, 0, 0, 0, 1, 2, 3, 4, 5, 0, 0, 9, 1, 2, 3, 4, 5, 0, 0, 0], errno = 0\<rparr>)"
  using stpncpy_correct [of "\<lambda>m p v n. Some (p, put m p (replicate n (word_of_int v)))"
      "\<lparr>ram = [0, 0, 0, 0, 9, 9, 9, 9, 9, 9, 9, 9, 1, 2, 3, 4, 5, 0, 0, 0], errno = 0\<rparr>" 12 "[1, 2, 3, 4, 5]" 4 7]
  by (simp add: SetMem_spec_def ram_ok_def load_def mapped_def region_def apart_def replicate_2)

end
