(* ===== verification/ArraySearch.thy ===== *)
theory ArraySearch
  imports Compare WordCopy
begin

text \<open>
  The searches in arrays: \<open>bsearch\<close> (\<^verbatim>\<open>src/library/stdlib/bsearch.c\<close>), \<open>lfind\<close> (\<^verbatim>\<open>search/lsearch.c\<close>) and \<open>lsearch\<close>
  (\<^verbatim>\<open>search/lfind.c\<close>). Indices and addresses are 32-bit numbers, so the midpoint wraps around; a loop that does not end
  has the value \<open>None\<close>. The comparison function is an argument; in \<open>lfind\<close> and \<open>lsearch\<close> it reads the memory.
\<close>

definition wrap32 :: "nat \<Rightarrow> nat" where
  "wrap32 n = n mod 2 ^ 32"

lemma wrap32_small: "n < 2 ^ 32 \<Longrightarrow> wrap32 n = n"
  by (simp add: wrap32_def)

section \<open>bsearch\<close>

partial_function (option) bsearch_loop ::
    "(addr \<Rightarrow> addr \<Rightarrow> int) \<Rightarrow> addr \<Rightarrow> addr \<Rightarrow> size_t \<Rightarrow> size_t \<Rightarrow> size_t \<Rightarrow> addr option" where
  "bsearch_loop compare key base sz lower upper =
     (if lower < upper then
        let position = wrap32 (lower + upper) div 2;
            current = wrap32 (base + position * sz);
            delta = compare key current
        in if delta = 0 then Some current
           else if delta < 0 then bsearch_loop compare key base sz lower position
           else bsearch_loop compare key base sz (wrap32 (position + 1)) upper
      else Some NULL)"

definition bsearch ::
    "addr \<Rightarrow> addr \<Rightarrow> size_t \<Rightarrow> size_t \<Rightarrow> (addr \<Rightarrow> addr \<Rightarrow> int) option \<Rightarrow> clib \<Rightarrow> (addr \<times> clib) option" where
  "bsearch key base count sz compare st =
     (if count > 0 \<and> sz > 0 then
        (if key = NULL \<or> base = NULL then Some (NULL, set_errno EFAULT st)
         else (case compare of
             None \<Rightarrow> Some (NULL, set_errno EFAULT st)
           | Some compare \<Rightarrow> do { r \<leftarrow> bsearch_loop compare key base sz 0 count; Some (r, st) }))
      else Some (NULL, st))"

text \<open>What the array has to be for the key: elements that compare below the key, then equal ones, then those above it.\<close>

definition partitioned :: "(addr \<Rightarrow> addr \<Rightarrow> int) \<Rightarrow> addr \<Rightarrow> addr \<Rightarrow> size_t \<Rightarrow> size_t \<Rightarrow> bool" where
  "partitioned compare key base sz count \<longleftrightarrow>
     (\<forall>i j. i < j \<longrightarrow> j < count \<longrightarrow>
        (compare key (base + i * sz) < 0 \<longrightarrow> compare key (base + j * sz) < 0) \<and>
        (compare key (base + j * sz) > 0 \<longrightarrow> compare key (base + i * sz) > 0))"

lemma bsearch_loop_correct:
  assumes p: "partitioned compare key base sz count" and c: "count \<le> 2 ^ 31" "base + count * sz \<le> 2 ^ 32"
    and u: "upper \<le> count" and l: "\<forall>i < lower. compare key (base + i * sz) > 0"
    and h: "\<forall>i. upper \<le> i \<longrightarrow> i < count \<longrightarrow> compare key (base + i * sz) < 0" and sz: "0 < sz"
  shows "\<exists>r. bsearch_loop compare key base sz lower upper = Some r \<and>
    (if \<exists>i < count. compare key (base + i * sz) = 0
     then \<exists>i < count. r = base + i * sz \<and> compare key r = 0 else r = NULL)"
  using u l h
proof (induction "upper - lower" arbitrary: lower upper rule: less_induct)
  case less
  show ?case
  proof (cases "lower < upper")
    case True
    define i where "i = (lower + upper) div 2"
    have i: "lower \<le> i" "i < upper" "i < count" using True less.prems(1) by (auto simp: i_def)
    have "lower + upper < 2 ^ 32" "i + 1 < 2 ^ 32" using True less.prems(1) c(1) i by simp_all
    moreover have "i * sz < count * sz" using i sz by simp
    then have "base + i * sz < 2 ^ 32" using c(2) by linarith
    ultimately have w: "wrap32 (lower + upper) div 2 = i" "wrap32 (base + i * sz) = base + i * sz" "wrap32 (i + 1) = i + 1"
      by (simp_all add: wrap32_small i_def)
    note step = bsearch_loop.simps [of compare key base sz lower upper, unfolded if_P [OF True] w Let_def]
    consider "compare key (base + i * sz) = 0" | "compare key (base + i * sz) < 0" | "0 < compare key (base + i * sz)" by linarith
    then show ?thesis
    proof cases
      case 1
      then show ?thesis using step i(3) by auto
    next
      case 2
      have "compare key (base + j * sz) < 0" if "i \<le> j" "j < count" for j
        using that 2 p [unfolded partitioned_def, rule_format, of i j] by (cases "i = j") auto
      moreover have e: "bsearch_loop compare key base sz lower upper = bsearch_loop compare key base sz lower i"
        using step 2 by simp
      ultimately show ?thesis unfolding e using i less.prems(2) by (intro less.hyps) auto
    next
      case 3
      have "0 < compare key (base + j * sz)" if "j < i + 1" for j
        using that 3 i(3) p [unfolded partitioned_def, rule_format, of j i] by (cases "i = j") auto
      moreover have e: "bsearch_loop compare key base sz lower upper = bsearch_loop compare key base sz (i + 1) upper"
        using step 3 by simp
      ultimately show ?thesis unfolding e using i less.prems(1,3) by (intro less.hyps) auto
    qed
  next
    case False
    have "compare key (base + i * sz) \<noteq> 0" if "i < count" for i
      using False less.prems(2) [rule_format, of i] less.prems(3) [rule_format, of i] that by (cases "i < lower") auto
    then have "\<not> (\<exists>i < count. compare key (base + i * sz) = 0)" by blast
    moreover have "bsearch_loop compare key base sz lower upper = Some NULL" using False by (simp add: bsearch_loop.simps)
    ultimately show ?thesis by (simp only: if_False) blast
  qed
qed

text \<open>An ordered array is partitioned for every key.\<close>

lemma sorted_partitioned:
  assumes c: "compare_spec cmp ok" and "ok key" "\<And>i. i < count \<Longrightarrow> ok (base + i * sz)"
    and "\<And>i j. i < j \<Longrightarrow> j < count \<Longrightarrow> cmp (base + i * sz) (base + j * sz) \<le> 0"
  shows "partitioned cmp key base sz count"
  unfolding partitioned_def
proof (intro allI impI conjI)
  fix i j assume ij: "i < j" "j < count"
  then have o: "ok (base + i * sz)" "ok (base + j * sz)" and le: "cmp (base + i * sz) (base + j * sz) \<le> 0"
    using assms(3,4) by simp_all
  show "cmp key (base + j * sz) < 0" if "cmp key (base + i * sz) < 0"
    using compare_spec.cmp_less_le [OF c assms(2) o that le] .
  show "0 < cmp key (base + i * sz)" if "0 < cmp key (base + j * sz)"
    using compare_spec.cmp_le_less [OF c o assms(2) le] that compare_spec.cmp_sym [OF c o(1) assms(2)]
      compare_spec.cmp_sym [OF c o(2) assms(2)] by blast
qed

section \<open>lfind and lsearch\<close>

partial_function (option) lfind_loop ::
    "(addr \<Rightarrow> addr \<Rightarrow> int) \<Rightarrow> addr \<Rightarrow> size_t \<Rightarrow> addr \<Rightarrow> addr \<Rightarrow> addr option option" where
  "lfind_loop compar key width cur e =
     (if cur < e then (if compar cur key = 0 then Some (Some cur) else lfind_loop compar key width (cur + width) e)
      else Some None)"

definition lfind :: "(byte list \<Rightarrow> addr \<Rightarrow> addr \<Rightarrow> int) \<Rightarrow> addr \<Rightarrow> addr \<Rightarrow> size_t \<Rightarrow> size_t \<Rightarrow> clib \<Rightarrow> addr option" where
  "lfind compar key base nelp width st = do {
     let e = base + nelp * width;
     r \<leftarrow> lfind_loop (compar (ram st)) key width base e;
     (case r of Some cur \<Rightarrow> Some cur | None \<Rightarrow> Some NULL) }"

text \<open>\<open>lsearch\<close> returns the element, \<open>*nelp\<close> and the state.\<close>

definition lsearch :: "(byte list \<Rightarrow> addr \<Rightarrow> addr \<Rightarrow> size_t \<Rightarrow> byte list option) \<Rightarrow> (byte list \<Rightarrow> addr \<Rightarrow> addr \<Rightarrow> int) \<Rightarrow>
    addr \<Rightarrow> addr \<Rightarrow> size_t \<Rightarrow> size_t \<Rightarrow> clib \<Rightarrow> (addr \<times> size_t \<times> clib) option" where
  "lsearch CopyMem compar key base nelp width st = do {
     let e = base + nelp * width;
     r \<leftarrow> lfind_loop (compar (ram st)) key width base e;
     (case r of
        Some cur \<Rightarrow> Some (cur, nelp, st)
      | None \<Rightarrow> do { (_, st) \<leftarrow> memcpy CopyMem e key width st; Some (e, nelp + 1, st) }) }"

text \<open>The loop looks at the elements in order.\<close>

lemma lfind_loop_find:
  assumes "0 < width"
  shows "lfind_loop compar key width cur (cur + n * width) =
     Some (List.find (\<lambda>a. compar a key = 0) (map (\<lambda>i. cur + i * width) [0..<n]))"
proof -
  have m: "map (\<lambda>i. cur + i * width) [0..<Suc n] = cur # map (\<lambda>i. cur + width + i * width) [0..<n]" for cur n
    by (simp add: upt_conv_Cons map_Suc_upt [symmetric] del: upt_Suc)
  show ?thesis
  proof (induction n arbitrary: cur)
    case (Suc n)
    have "cur + Suc n * width = cur + width + n * width" by simp
    then show ?case using Suc [of "cur + width"] assms unfolding m by (simp add: lfind_loop.simps [of compar key width cur] add.assoc)
  qed (simp add: lfind_loop.simps)
qed

section \<open>Properties\<close>

text \<open>C36. \<open>bsearch\<close> on an array ordered by the comparison function ends, leaves the state alone, and returns an element
  that compares equal to the key if there is one, and \<open>NULL\<close> otherwise. Arrays of more than 2^31 elements are left out:
  there the midpoint wraps around.\<close>

theorem bsearch_correct:
  assumes "compare_spec cmp ok" "ok key" "\<And>i. i < count \<Longrightarrow> ok (base + i * sz)"
    and "\<And>i j. i < j \<Longrightarrow> j < count \<Longrightarrow> cmp (base + i * sz) (base + j * sz) \<le> 0"
    and "key \<noteq> NULL" "base \<noteq> NULL" "0 < sz" "count \<le> 2 ^ 31" "base + count * sz \<le> 2 ^ 32"
  shows "\<exists>r. bsearch key base count sz (Some cmp) st = Some (r, st) \<and>
    (if \<exists>i < count. cmp key (base + i * sz) = 0
     then \<exists>i < count. r = base + i * sz \<and> cmp key r = 0 else r = NULL)"
proof (cases "count = 0")
  case False
  have "partitioned cmp key base sz count" using assms(1-4) by (rule sorted_partitioned)
  then obtain r where r: "bsearch_loop cmp key base sz 0 count = Some r"
    "if \<exists>i < count. cmp key (base + i * sz) = 0 then \<exists>i < count. r = base + i * sz \<and> cmp key r = 0 else r = NULL"
    using bsearch_loop_correct [OF _ assms(8,9) order_refl, of cmp key 0] assms(7) by auto
  have "bsearch key base count sz (Some cmp) st = Some (r, st)" using assms(5-7) False r(1) by (simp add: bsearch_def)
  with r(2) show ?thesis by blast
qed (simp add: bsearch_def)

theorem bsearch_correct_witness:
  "\<exists>r. bsearch 12 8 3 4 (Some (\<lambda>x y. int x - int y)) \<lparr>ram = [], errno = 0\<rparr> = Some (r, \<lparr>ram = [], errno = 0\<rparr>) \<and> r = 12"
proof -
  have c: "compare_spec (\<lambda>x y. int x - int y) (\<lambda>_. True)" by unfold_locales auto
  have "\<exists>i < 3. int 12 - int (8 + i * 4) = 0" by (rule exI [of _ 1]) simp
  then show ?thesis
    using bsearch_correct [OF c, where key = 12 and count = 3 and base = 8 and sz = 4 and st = "\<lparr>ram = [], errno = 0\<rparr>"] by auto
qed

text \<open>\<open>lfind\<close> returns the first element that compares equal to the key, or \<open>NULL\<close>; \<open>lsearch\<close> returns it too, and otherwise
  appends the bytes of the key behind the last element, counts it and returns it. \<open>CopyMem\<close> is the operating system's copy.\<close>

theorem lfind_lsearch_correct:
  assumes "copy_spec CopyMem" "0 < width" "base \<noteq> NULL"
    and "region (ram st) key width" "region (ram st) (base + n * width) width" "apart (base + n * width) width key width"
    and found: "found = List.find (\<lambda>a. compar (ram st) a key = 0) (map (\<lambda>i. base + i * width) [0..<n])"
  shows "lfind compar key base n width st = Some (case found of Some a \<Rightarrow> a | None \<Rightarrow> NULL) \<and>
    lsearch CopyMem compar key base n width st =
      Some (case found of
          Some a \<Rightarrow> (a, n, st)
        | None \<Rightarrow> (base + n * width, n + 1, st\<lparr>ram := put (ram st) (base + n * width) (slice (ram st) key width)\<rparr>))"
  using lfind_loop_find [OF assms(2), of "compar (ram st)" key base n]
    copy_spec.memcpy_put [OF assms(1,4,5,6,2)]
  by (simp add: lfind_def lsearch_def Let_def found split: option.splits)


theorem lfind_lsearch_correct_witness:
  "lsearch (\<lambda>m s d n. map_option fst (mempcpy m d s n)) (\<lambda>m a b. uint (m ! a) - uint (m ! b)) 4 6 2 1
     \<lparr>ram = [0, 0, 0, 0, 7, 0, 5, 6, 0], errno = 0\<rparr> = Some (8, 3, \<lparr>ram = [0, 0, 0, 0, 7, 0, 5, 6, 7], errno = 0\<rparr>)"
proof -
  let ?st = "\<lparr>ram = [0, 0, 0, 0, 7, 0, 5, 6, 0], errno = 0\<rparr>"
  have f: "None = List.find (\<lambda>a. uint (ram ?st ! a) - uint (ram ?st ! 4) = 0) (map (\<lambda>i. 6 + i * 1) [0..<2])"
    by (simp add: upt_conv_Cons)
  show ?thesis
    using lfind_lsearch_correct [OF mempcpy.copy_spec_axioms, of 1 6 ?st 4 2 None "\<lambda>m a b. uint (m ! a) - uint (m ! b)"] f
    by (simp add: region_def mapped_def apart_def slice_def put_def)
qed

end
