(* ===== verification/Qsort.thy ===== *)
theory Qsort
  imports Compare "HOL-Library.Multiset"
begin

text \<open>
  \<open>qsort\<close> of \<^verbatim>\<open>src/library/stdlib/qsort.c\<close>, the quicksort of Bentley and McIlroy. The model works on the list of
  the elements: a pointer into the array is an index, an exchange of \<open>es\<close> bytes an exchange of elements. The two pointers
  that move down, \<open>pc\<close> and \<open>pd\<close>, are kept one element higher (\<open>pc1\<close>, \<open>pd1\<close>), where they stay inside the array.
\<close>

section \<open>The sort\<close>

definition swap :: "'a list \<Rightarrow> nat \<Rightarrow> nat \<Rightarrow> 'a list" where
  "swap xs i j = xs[i := xs ! j, j := xs ! i]"

primrec vecswap :: "'a list \<Rightarrow> nat \<Rightarrow> nat \<Rightarrow> nat \<Rightarrow> 'a list" where
  "vecswap xs i j 0 = xs"
| "vecswap xs i j (Suc n) = vecswap (swap xs i j) (i + 1) (j + 1) n"

definition med3 :: "('a \<Rightarrow> 'a \<Rightarrow> int) \<Rightarrow> 'a list \<Rightarrow> nat \<Rightarrow> nat \<Rightarrow> nat \<Rightarrow> nat" where
  "med3 cmp xs a b c =
     (if cmp (xs ! a) (xs ! b) < 0
      then (if cmp (xs ! b) (xs ! c) < 0 then b else if cmp (xs ! a) (xs ! c) < 0 then c else a)
      else (if cmp (xs ! b) (xs ! c) > 0 then b else if cmp (xs ! a) (xs ! c) < 0 then a else c))"

text \<open>The inner and the outer loop of the insertion sort.\<close>

fun sift_down :: "('a \<Rightarrow> 'a \<Rightarrow> int) \<Rightarrow> 'a list \<Rightarrow> nat \<Rightarrow> 'a list" where
  "sift_down cmp xs 0 = xs"
| "sift_down cmp xs (Suc p) = (if cmp (xs ! p) (xs ! Suc p) > 0 then sift_down cmp (swap xs (Suc p) p) p else xs)"

function insertion_loop :: "('a \<Rightarrow> 'a \<Rightarrow> int) \<Rightarrow> 'a list \<Rightarrow> nat \<Rightarrow> 'a list" where
  "insertion_loop cmp xs pm =
     (if pm < length xs then insertion_loop cmp (sift_down cmp xs pm) (pm + 1) else xs)"
  by pat_completeness auto

lemma length_swap [simp]: "length (swap xs i j) = length xs"
  by (simp add: swap_def)

lemma length_sift_down [simp]: "length (sift_down cmp xs p) = length xs"
  by (induction cmp xs p rule: sift_down.induct) auto

termination insertion_loop
  by (relation "measure (\<lambda>(cmp, xs, pm). length xs - pm)") auto

declare insertion_loop.simps [simp del]

text \<open>The two scans of the partition. Elements equal to the first one are put aside at both ends.\<close>

function scan_up :: "('a \<Rightarrow> 'a \<Rightarrow> int) \<Rightarrow> 'a list \<Rightarrow> nat \<Rightarrow> nat \<Rightarrow> nat \<Rightarrow> bool \<Rightarrow> 'a list \<times> nat \<times> nat \<times> bool" where
  "scan_up cmp xs pa pb pc1 swap_cnt =
     (if pb < pc1 \<and> cmp (xs ! pb) (xs ! 0) \<le> 0 then
        (if cmp (xs ! pb) (xs ! 0) = 0 then scan_up cmp (swap xs pa pb) (pa + 1) (pb + 1) pc1 True
         else scan_up cmp xs pa (pb + 1) pc1 swap_cnt)
      else (xs, pa, pb, swap_cnt))"
  by pat_completeness auto
termination
  by (relation "measure (\<lambda>(cmp, xs, pa, pb, pc1, cnt). pc1 - pb)") auto

function scan_down :: "('a \<Rightarrow> 'a \<Rightarrow> int) \<Rightarrow> 'a list \<Rightarrow> nat \<Rightarrow> nat \<Rightarrow> nat \<Rightarrow> bool \<Rightarrow> 'a list \<times> nat \<times> nat \<times> bool" where
  "scan_down cmp xs pb pc1 pd1 swap_cnt =
     (if pb < pc1 \<and> cmp (xs ! (pc1 - 1)) (xs ! 0) \<ge> 0 then
        (if cmp (xs ! (pc1 - 1)) (xs ! 0) = 0
         then scan_down cmp (swap xs (pc1 - 1) (pd1 - 1)) pb (pc1 - 1) (pd1 - 1) True
         else scan_down cmp xs pb (pc1 - 1) pd1 swap_cnt)
      else (xs, pc1, pd1, swap_cnt))"
  by pat_completeness auto
termination
  by (relation "measure (\<lambda>(cmp, xs, pb, pc1, pd1, cnt). pc1 - pb)") auto

declare scan_up.simps [simp del] scan_down.simps [simp del]

lemma scan_up_bounds:
  "scan_up cmp xs pa pb pc1 cnt = (xs', pa', pb', cnt') \<Longrightarrow> pa \<le> pb \<Longrightarrow> pb \<le> pc1 \<Longrightarrow>
   pa \<le> pa' \<and> pa' \<le> pb' \<and> pb \<le> pb' \<and> pb' \<le> pc1 \<and> length xs' = length xs"
proof (induction cmp xs pa pb pc1 cnt rule: scan_up.induct)
  case (1 cmp xs pa pb pc1 cnt)
  show ?case
    using "1.IH" "1.prems" by (subst (asm) scan_up.simps) (fastforce split: if_splits)
qed

lemma scan_up_mono: "scan_up cmp xs pa pb pc1 cnt = (xs', pa', pb', cnt') \<Longrightarrow> pb \<le> pb'"
proof (induction cmp xs pa pb pc1 cnt rule: scan_up.induct)
  case (1 cmp xs pa pb pc1 cnt)
  show ?case
    using "1.IH" "1.prems" by (subst (asm) scan_up.simps) (fastforce split: if_splits)
qed

lemma scan_down_mono: "scan_down cmp xs pb pc1 pd1 cnt = (xs', pc1', pd1', cnt') \<Longrightarrow> pc1' \<le> pc1"
proof (induction cmp xs pb pc1 pd1 cnt rule: scan_down.induct)
  case (1 cmp xs pb pc1 pd1 cnt)
  show ?case
    using "1.IH" "1.prems" by (subst (asm) scan_down.simps) (fastforce split: if_splits)
qed

function partition_loop :: "('a \<Rightarrow> 'a \<Rightarrow> int) \<Rightarrow> 'a list \<Rightarrow> nat \<Rightarrow> nat \<Rightarrow> nat \<Rightarrow> nat \<Rightarrow> bool \<Rightarrow>
    'a list \<times> nat \<times> nat \<times> nat \<times> nat \<times> bool" where
  "partition_loop cmp xs pa pb pc1 pd1 swap_cnt =
     (let (xs, pa, pb, swap_cnt) = scan_up cmp xs pa pb pc1 swap_cnt;
          (xs, pc1, pd1, swap_cnt) = scan_down cmp xs pb pc1 pd1 swap_cnt
      in if \<not> pb < pc1 then (xs, pa, pb, pc1, pd1, swap_cnt)
         else partition_loop cmp (swap xs pb (pc1 - 1)) pa (pb + 1) (pc1 - 1) pd1 True)"
  by pat_completeness auto
termination
proof (relation "measure (\<lambda>(cmp, xs, pa, pb, pc1, pd1, cnt). pc1 - pb)", goal_cases)
  case (2 cmp xs pa pb pc1 pd1 cnt r1 xs1 r1' pa1 r1'' pb1 cnt1 r2 xs2 r2' pc2 r2'' pd2 cnt2)
  then show ?case
    using scan_up_mono [of cmp xs pa pb pc1 cnt xs1 pa1 pb1 cnt1] scan_down_mono [of cmp xs1 pb1 pc1 pd1 cnt1 xs2 pc2 pd2 cnt2]
    by simp
qed simp

declare partition_loop.simps [simp del]

text \<open>The element to partition by: the middle one, the median of three, or the median of three medians.\<close>

definition choose_pivot :: "('a \<Rightarrow> 'a \<Rightarrow> int) \<Rightarrow> 'a list \<Rightarrow> nat" where
  "choose_pivot cmp xs =
     (let n = length xs; pm = n div 2 in
      if n > 7 then
        let pl = 0; pn = n - 1;
            (pl, pm, pn) =
              (if n > 40 then
                 let d = n div 8 in
                 (med3 cmp xs pl (pl + d) (pl + 2 * d), med3 cmp xs (pm - d) pm (pm + d), med3 cmp xs (pn - 2 * d) (pn - d) pn)
               else (pl, pm, pn))
        in med3 cmp xs pl pm pn
      else pm)"

text \<open>The partition of an array of at least seven elements, with the equal elements moved to the middle: the new
  order, the lengths of the lower and the upper part, and \<open>swap_cnt\<close>.\<close>

definition qsort_partition :: "('a \<Rightarrow> 'a \<Rightarrow> int) \<Rightarrow> 'a list \<Rightarrow> 'a list \<times> nat \<times> nat \<times> bool" where
  "qsort_partition cmp xs =
     (let n = length xs;
          xs = swap xs 0 (choose_pivot cmp xs);
          (xs, pa, pb, pc1, pd1, swap_cnt) = partition_loop cmp xs 1 1 n n False
      in if \<not> swap_cnt then (xs, 0, 0, swap_cnt)
         else
           let r = min pa (pb - pa); xs = vecswap xs 0 (pb - r) r;
               r = min (pd1 - pc1) (n - pd1); xs = vecswap xs pb (n - r) r
           in (xs, pb - pa, pd1 - pc1, swap_cnt))"


section \<open>The bounds of the partition\<close>

lemma scan_up_stop:
  "scan_up cmp xs pa pb pc1 cnt = (xs', pa', pb', cnt') \<Longrightarrow> pb' < pc1 \<Longrightarrow> 0 < cmp (xs' ! pb') (xs' ! 0)"
proof (induction cmp xs pa pb pc1 cnt rule: scan_up.induct)
  case (1 cmp xs pa pb pc1 cnt)
  show ?case
    using "1.IH" "1.prems" by (subst (asm) scan_up.simps) (fastforce split: if_splits)
qed

lemma swap_other: "k \<noteq> i \<Longrightarrow> k \<noteq> j \<Longrightarrow> swap xs i j ! k = xs ! k"
  by (simp add: swap_def)

lemma scan_down_bounds:
  "scan_down cmp xs pb pc1 pd1 cnt = (xs', pc1', pd1', cnt') \<Longrightarrow> pb \<le> pc1 \<Longrightarrow> pc1 \<le> pd1 \<Longrightarrow>
   pb \<le> pc1' \<and> pc1' \<le> pd1' \<and> pc1' \<le> pc1 \<and> pd1' \<le> pd1 \<and> length xs' = length xs \<and>
   (\<forall>i < pc1'. xs' ! i = xs ! i) \<and> (pb < pc1' \<longrightarrow> cmp (xs' ! (pc1' - 1)) (xs' ! 0) < 0)"
proof (induction cmp xs pb pc1 pd1 cnt rule: scan_down.induct)
  case (1 cmp xs pb pc1 pd1 cnt)
  show ?case
  proof (cases "pb < pc1 \<and> cmp (xs ! (pc1 - 1)) (xs ! 0) \<ge> 0")
    case True
    note step = scan_down.simps [of cmp xs pb pc1 pd1 cnt, unfolded if_P [OF True]]
    show ?thesis
    proof (cases "cmp (xs ! (pc1 - 1)) (xs ! 0) = 0")
      case eq: True
      have b: "pb \<le> pc1 - 1" "pc1 - 1 \<le> pd1 - 1" using conjunct1 [OF True] "1.prems"(2,3) by linarith+
      have "scan_down cmp (swap xs (pc1 - 1) (pd1 - 1)) pb (pc1 - 1) (pd1 - 1) True = (xs', pc1', pd1', cnt')"
        using step "1.prems"(1) eq by simp
      from "1.IH"(1) [OF True eq this b] b show ?thesis by (auto simp: swap_other)
    next
      case ne: False
      have b: "pb \<le> pc1 - 1" "pc1 - 1 \<le> pd1" using conjunct1 [OF True] "1.prems"(2,3) by linarith+
      have "scan_down cmp xs pb (pc1 - 1) pd1 cnt = (xs', pc1', pd1', cnt')" using step "1.prems"(1) ne by simp
      from "1.IH"(2) [OF True ne this b] b show ?thesis by auto
    qed
  next
    case False
    then have "(xs', pc1', pd1', cnt') = (xs, pc1, pd1, cnt)" using "1.prems"(1) scan_down.simps [of cmp xs pb pc1 pd1 cnt] by auto
    then show ?thesis using "1.prems"(2,3) False by auto
  qed
qed

text \<open>One round of the partition: both scans, and what follows them.\<close>

lemma partition_round:
  assumes u: "scan_up cmp xs pa pb pc1 cnt = (xs1, pa1, pb1, cnt1)" and d: "scan_down cmp xs1 pb1 pc1 pd1 cnt1 = (xs2, pc2, pd2, cnt2)"
    and "1 \<le> pa" "pa \<le> pb" "pb \<le> pc1" "pc1 \<le> pd1"
  shows "1 \<le> pa1" "pa1 \<le> pb1" "pb1 \<le> pc1" "pb1 \<le> pc2" "pc2 \<le> pd2" "pd2 \<le> pd1" "pb \<le> pb1" "pa \<le> pa1"
    "length xs1 = length xs" "length xs2 = length xs" "pb1 < pc2 \<Longrightarrow> pb1 + 1 \<le> pc2 - 1"
proof -
  note up = scan_up_bounds [OF u assms(4,5)]
  from up show b: "1 \<le> pa1" "pa1 \<le> pb1" "pb1 \<le> pc1" "pb \<le> pb1" "pa \<le> pa1" "length xs1 = length xs" using assms by auto
  note down = scan_down_bounds [OF d b(3) assms(6)]
  from down show "pb1 \<le> pc2" "pc2 \<le> pd2" "pd2 \<le> pd1" "length xs2 = length xs" using up by auto
  show "pb1 + 1 \<le> pc2 - 1" if lt: "pb1 < pc2"
  proof (rule ccontr)
    assume "\<not> pb1 + 1 \<le> pc2 - 1"
    then have e: "pc2 - 1 = pb1" using lt by linarith
    have "pb1 < pc1" using down lt by linarith
    then have "0 < cmp (xs1 ! pb1) (xs1 ! 0)" using scan_up_stop [OF u] by simp
    moreover have "cmp (xs2 ! (pc2 - 1)) (xs2 ! 0) < 0" using down lt by blast
    then have "cmp (xs2 ! pb1) (xs2 ! 0) < 0" unfolding e .
    moreover have "xs2 ! pb1 = xs1 ! pb1" "xs2 ! 0 = xs1 ! 0" using down lt by auto
    ultimately show False by simp
  qed
qed

lemma partition_loop_bounds:
  "partition_loop cmp xs pa pb pc1 pd1 cnt = (xs', pa', pb', pc1', pd1', cnt') \<Longrightarrow>
   1 \<le> pa \<Longrightarrow> pa \<le> pb \<Longrightarrow> pb \<le> pc1 \<Longrightarrow> pc1 \<le> pd1 \<Longrightarrow>
   1 \<le> pa' \<and> pa' \<le> pb' \<and> pb' = pc1' \<and> pc1' \<le> pd1' \<and> pd1' \<le> pd1 \<and> length xs' = length xs"
proof (induction cmp xs pa pb pc1 pd1 cnt rule: partition_loop.induct)
  case (1 cmp xs pa pb pc1 pd1 cnt)
  obtain xs1 pa1 pb1 cnt1 where u: "scan_up cmp xs pa pb pc1 cnt = (xs1, pa1, pb1, cnt1)" by (metis prod_cases4)
  obtain xs2 pc2 pd2 cnt2 where d: "scan_down cmp xs1 pb1 pc1 pd1 cnt1 = (xs2, pc2, pd2, cnt2)" by (metis prod_cases4)
  note step = partition_loop.simps [of cmp xs pa pb pc1 pd1 cnt, unfolded u d Let_def split]
  note r = partition_round [OF u d "1.prems"(2-5)]
  show ?case
  proof (cases "pb1 < pc2")
    case True
    then have p: "partition_loop cmp (swap xs2 pb1 (pc2 - 1)) pa1 (pb1 + 1) (pc2 - 1) pd2 True = (xs', pa', pb', pc1', pd1', cnt')"
      using step "1.prems"(1) by simp
    have b: "pa1 \<le> pb1 + 1" "pc2 - 1 \<le> pd2" using r by linarith+
    from "1.IH" [OF u [symmetric] refl refl refl d [symmetric] refl refl refl _ p r(1) b(1) r(11) [OF True] b(2)] True r
    show ?thesis by simp
  next
    case False
    then show ?thesis using step "1.prems"(1) r by auto
  qed
qed


section \<open>The recursion\<close>

lemma length_vecswap [simp]: "length (vecswap xs i j n) = length xs"
  by (induction n arbitrary: xs i j) simp_all

lemma qsort_partition_bounds:
  assumes "qsort_partition cmp xs = (ys, lo, hi, cnt)" "7 \<le> length xs"
  shows "length ys = length xs" "lo < length xs" "hi < length xs" "lo + hi < length xs"
proof -
  let ?xs = "swap xs 0 (choose_pivot cmp xs)"
  obtain zs pa pb pc1 pd1 c where p: "partition_loop cmp ?xs 1 1 (length xs) (length xs) False = (zs, pa, pb, pc1, pd1, c)"
    by (metis prod_cases6)
  have b: "1 \<le> pa" "pa \<le> pb" "pb = pc1" "pc1 \<le> pd1" "pd1 \<le> length xs" "length zs = length xs"
    using partition_loop_bounds [OF p] assms(2) by auto
  show "length ys = length xs" "lo < length xs" "hi < length xs" "lo + hi < length xs"
    using assms b unfolding qsort_partition_def Let_def p split by (auto split: if_splits)
qed

text \<open>The two recursive sorts work on disjoint parts of the array, the second one as an iteration.\<close>

function qsort :: "('a \<Rightarrow> 'a \<Rightarrow> int) \<Rightarrow> 'a list \<Rightarrow> 'a list" where
  "qsort cmp xs =
     (if length xs < 7 then insertion_loop cmp xs 1
      else
        let (ys, lo, hi, swap_cnt) = qsort_partition cmp xs; n = length xs in
        if \<not> swap_cnt then insertion_loop cmp ys 1
        else (if lo > 1 then qsort cmp (take lo ys) else take lo ys) @
             take (n - hi - lo) (drop lo ys) @
             (if hi > 1 then qsort cmp (drop (n - hi) ys) else drop (n - hi) ys))"
  by pat_completeness auto
termination
proof (relation "measure (\<lambda>(cmp, xs). length xs)", goal_cases)
  case (2 cmp xs r ys r' lo r'' hi cnt n)
  then show ?case using qsort_partition_bounds [of cmp xs ys lo hi cnt] by simp
next
  case (3 cmp xs r ys r' lo r'' hi cnt n)
  then show ?case using qsort_partition_bounds [of cmp xs ys lo hi cnt] by simp
qed simp

declare qsort.simps [simp del]

section \<open>Permutation\<close>

lemma mset_swap: "i < length xs \<Longrightarrow> j < length xs \<Longrightarrow> mset (swap xs i j) = mset xs"
  unfolding swap_def by (rule mset_swap)

lemma mset_vecswap: "i + n \<le> length xs \<Longrightarrow> j + n \<le> length xs \<Longrightarrow> mset (vecswap xs i j n) = mset xs"
  by (induction n arbitrary: xs i j) (simp_all add: mset_swap)

lemma mset_sift_down: "p < length xs \<Longrightarrow> mset (sift_down cmp xs p) = mset xs"
  by (induction cmp xs p rule: sift_down.induct) (simp_all add: mset_swap)

lemma mset_insertion_loop: "mset (insertion_loop cmp xs pm) = mset xs"
proof (induction cmp xs pm rule: insertion_loop.induct)
  case (1 cmp xs pm)
  then show ?case by (subst insertion_loop.simps) (simp add: mset_sift_down)
qed

lemma mset_scan_up:
  "scan_up cmp xs pa pb pc1 cnt = (xs', pa', pb', cnt') \<Longrightarrow> pa \<le> pb \<Longrightarrow> pc1 \<le> length xs \<Longrightarrow> mset xs' = mset xs"
proof (induction cmp xs pa pb pc1 cnt rule: scan_up.induct)
  case (1 cmp xs pa pb pc1 cnt)
  show ?case
    using "1.IH" "1.prems" by (subst (asm) scan_up.simps) (fastforce simp: mset_swap split: if_splits)
qed

lemma mset_scan_down:
  "scan_down cmp xs pb pc1 pd1 cnt = (xs', pc1', pd1', cnt') \<Longrightarrow> pc1 \<le> pd1 \<Longrightarrow> pd1 \<le> length xs \<Longrightarrow> mset xs' = mset xs"
proof (induction cmp xs pb pc1 pd1 cnt rule: scan_down.induct)
  case (1 cmp xs pb pc1 pd1 cnt)
  show ?case
    using "1.IH" "1.prems" by (subst (asm) scan_down.simps) (force simp: mset_swap split: if_splits)
qed


lemma mset_partition_loop:
  "partition_loop cmp xs pa pb pc1 pd1 cnt = (xs', pa', pb', pc1', pd1', cnt') \<Longrightarrow>
   1 \<le> pa \<Longrightarrow> pa \<le> pb \<Longrightarrow> pb \<le> pc1 \<Longrightarrow> pc1 \<le> pd1 \<Longrightarrow> pd1 \<le> length xs \<Longrightarrow> mset xs' = mset xs"
proof (induction cmp xs pa pb pc1 pd1 cnt rule: partition_loop.induct)
  case (1 cmp xs pa pb pc1 pd1 cnt)
  obtain xs1 pa1 pb1 cnt1 where u: "scan_up cmp xs pa pb pc1 cnt = (xs1, pa1, pb1, cnt1)" by (metis prod_cases4)
  obtain xs2 pc2 pd2 cnt2 where d: "scan_down cmp xs1 pb1 pc1 pd1 cnt1 = (xs2, pc2, pd2, cnt2)" by (metis prod_cases4)
  note step = partition_loop.simps [of cmp xs pa pb pc1 pd1 cnt, unfolded u d Let_def split]
  note r = partition_round [OF u d "1.prems"(2-5)]
  have m: "mset xs2 = mset xs"
    using mset_scan_up [OF u] mset_scan_down [OF d] "1.prems" r by simp
  show ?case
  proof (cases "pb1 < pc2")
    case True
    then have p: "partition_loop cmp (swap xs2 pb1 (pc2 - 1)) pa1 (pb1 + 1) (pc2 - 1) pd2 True = (xs', pa', pb', pc1', pd1', cnt')"
      using step "1.prems"(1) by simp
    have b: "pa1 \<le> pb1 + 1" "pc2 - 1 \<le> pd2" "pd2 \<le> length (swap xs2 pb1 (pc2 - 1))" using r "1.prems"(6) by auto
    have "mset xs' = mset (swap xs2 pb1 (pc2 - 1))"
      using "1.IH" [OF u [symmetric] refl refl refl d [symmetric] refl refl refl _ p r(1) b(1) r(11) [OF True] b(2,3)] True by simp
    also have "\<dots> = mset xs2" using True r "1.prems"(6) by (intro mset_swap) auto
    finally show ?thesis using m by simp
  next
    case False
    then show ?thesis using step "1.prems"(1) m by auto
  qed
qed

lemma med3_less: "a < n \<Longrightarrow> b < n \<Longrightarrow> c < n \<Longrightarrow> med3 cmp xs a b c < n"
  by (simp add: med3_def)

lemma choose_pivot_less:
  assumes "7 \<le> length xs"
  shows "choose_pivot cmp xs < length xs"
proof -
  let ?n = "length xs" let ?d = "?n div 8"
  have d: "2 * ?d < ?n" "?n div 2 + ?d < ?n" "?d < ?n" "?n div 2 < ?n" "?n - 1 < ?n" using assms by linarith+
  then have "?n div 2 - ?d < ?n" "?n - 1 - 2 * ?d < ?n" "?n - 1 - ?d < ?n" "0 < ?n" by linarith+
  then show ?thesis using d unfolding choose_pivot_def Let_def by (auto intro!: med3_less)
qed

lemma mset_qsort_partition:
  assumes "qsort_partition cmp xs = (ys, lo, hi, cnt)" "7 \<le> length xs"
  shows "mset ys = mset xs"
proof -
  let ?xs = "swap xs 0 (choose_pivot cmp xs)"
  obtain zs pa pb pc1 pd1 c where p: "partition_loop cmp ?xs 1 1 (length xs) (length xs) False = (zs, pa, pb, pc1, pd1, c)"
    by (metis prod_cases6)
  have b: "1 \<le> pa" "pa \<le> pb" "pb = pc1" "pc1 \<le> pd1" "pd1 \<le> length xs" "length zs = length xs"
    using partition_loop_bounds [OF p] assms(2) by auto
  have "mset zs = mset ?xs" using mset_partition_loop [OF p] assms(2) by simp
  also have "\<dots> = mset xs" using choose_pivot_less [OF assms(2)] assms(2) by (intro mset_swap) auto
  finally have m: "mset zs = mset xs" .
  have "ys = zs \<or> ys = vecswap (vecswap zs 0 (pb - min pa (pb - pa)) (min pa (pb - pa))) pb
      (length xs - min (pd1 - pc1) (length xs - pd1)) (min (pd1 - pc1) (length xs - pd1))"
    using assms(1) unfolding qsort_partition_def Let_def p split by (auto split: if_splits)
  then show ?thesis
    using m b by (auto simp: mset_vecswap)
qed

lemma split3: "n = length ys \<Longrightarrow> lo + hi \<le> n \<Longrightarrow> ys = take lo ys @ take (n - hi - lo) (drop lo ys) @ drop (n - hi) ys"
proof -
  assume "n = length ys" "lo + hi \<le> n"
  then have "drop (n - hi) ys = drop (n - hi - lo) (drop lo ys)" by simp
  then show ?thesis by (simp only: append_take_drop_id)
qed

text \<open>Whatever the comparison function answers, \<open>qsort\<close> ends with a permutation of the array.\<close>

lemma mset_qsort: "mset (qsort cmp xs) = mset xs"
proof (induction cmp xs rule: qsort.induct)
  case (1 cmp xs)
  show ?case
  proof (cases "length xs < 7")
    case True
    then show ?thesis by (simp add: qsort.simps mset_insertion_loop)
  next
    case False
    obtain ys lo hi cnt where p: "qsort_partition cmp xs = (ys, lo, hi, cnt)" by (metis prod_cases4)
    have len: "7 \<le> length xs" using False by simp
    note b = qsort_partition_bounds [OF p len]
    note step = qsort.simps [of cmp xs, unfolded if_not_P [OF False] p Let_def split]
    have parts: "ys = take lo ys @ take (length xs - hi - lo) (drop lo ys) @ drop (length xs - hi) ys"
      using b by (intro split3) simp_all
    show ?thesis
    proof (cases cnt)
      case True
      have "mset (qsort cmp xs) = mset (take lo ys) + mset (take (length xs - hi - lo) (drop lo ys)) + mset (drop (length xs - hi) ys)"
        using "1.IH" [OF False p [symmetric] refl refl refl refl] True by (simp add: step)
      also have "\<dots> = mset ys" by (subst (4) parts) simp
      finally show ?thesis using mset_qsort_partition [OF p len] by simp
    next
      case False
      then show ?thesis using mset_qsort_partition [OF p len] by (simp add: step mset_insertion_loop)
    qed
  qed
qed


section \<open>Order\<close>

lemma nth_swap:
  "i < length xs \<Longrightarrow> j < length xs \<Longrightarrow> swap xs i j ! k = (if k = i then xs ! j else if k = j then xs ! i else xs ! k)"
  by (simp add: swap_def nth_list_update)

lemma nth_vecswap:
  "i + n \<le> j \<Longrightarrow> j + n \<le> length xs \<Longrightarrow>
   vecswap xs i j n ! k = (if i \<le> k \<and> k < i + n then xs ! (j + (k - i)) else if j \<le> k \<and> k < j + n then xs ! (i + (k - j)) else xs ! k)"
proof (induction n arbitrary: xs i j)
  case (Suc n)
  have b: "i + 1 + n \<le> j + 1" "j + 1 + n \<le> length (swap xs i j)" using Suc.prems by simp_all
  have v: "vecswap xs i j (Suc n) ! k = (if i + 1 \<le> k \<and> k < i + 1 + n then swap xs i j ! (j + 1 + (k - (i + 1)))
      else if j + 1 \<le> k \<and> k < j + 1 + n then swap xs i j ! (i + 1 + (k - (j + 1))) else swap xs i j ! k)"
    using Suc.IH [OF b] by simp
  have s: "swap xs i j ! l = (if l = i then xs ! j else if l = j then xs ! i else xs ! l)" for l
    using Suc.prems by (intro nth_swap) simp_all
  consider "k = i" | "i + 1 \<le> k" "k < i + 1 + n" | "k = j" "i < j" | "j + 1 \<le> k" "k < j + 1 + n" |
    "k < i \<or> i + 1 + n \<le> k \<and> k < j \<or> j + 1 + n \<le> k" using Suc.prems by linarith
  then show ?case
  proof cases
    case 1
    then show ?thesis using Suc.prems unfolding v s by simp
  next
    case 3
    then show ?thesis using Suc.prems unfolding v s by simp
  next
    case 5
    then have "\<not> (i + 1 \<le> k \<and> k < i + 1 + n)" "\<not> (j + 1 \<le> k \<and> k < j + 1 + n)" "k \<noteq> i" "k \<noteq> j"
      "\<not> (i \<le> k \<and> k < i + Suc n)" "\<not> (j \<le> k \<and> k < j + Suc n)" using Suc.prems by linarith+
    then show ?thesis unfolding v s by (simp only: if_False)
  next
    case 2
    then have "j + 1 + (k - (i + 1)) = j + (k - i)" "j + (k - i) \<noteq> i" "j + (k - i) \<noteq> j" using Suc.prems by simp_all
    then show ?thesis using 2 unfolding v s by simp
  next
    case 4
    then have "i + 1 + (k - (j + 1)) = i + (k - j)" "i + (k - j) \<noteq> i" "i + (k - j) \<noteq> j" using Suc.prems by simp_all
    then show ?thesis using 4 Suc.prems unfolding v s by simp
  qed
qed auto

text \<open>What the partition has established: elements equal to the pivot at both ends, smaller ones up to \<open>pb\<close>, larger ones
  from \<open>pc1\<close> on.\<close>

definition part_inv :: "('a \<Rightarrow> 'a \<Rightarrow> int) \<Rightarrow> 'a \<Rightarrow> 'a list \<Rightarrow> nat \<Rightarrow> nat \<Rightarrow> nat \<Rightarrow> nat \<Rightarrow> bool" where
  "part_inv cmp p xs pa pb pc1 pd1 \<longleftrightarrow> xs ! 0 = p \<and>
     (\<forall>i < pa. cmp (xs ! i) p = 0) \<and> (\<forall>i. pa \<le> i \<longrightarrow> i < pb \<longrightarrow> cmp (xs ! i) p < 0) \<and>
     (\<forall>i. pc1 \<le> i \<longrightarrow> i < pd1 \<longrightarrow> cmp (xs ! i) p > 0) \<and> (\<forall>i. pd1 \<le> i \<longrightarrow> i < length xs \<longrightarrow> cmp (xs ! i) p = 0)"

lemma part_inv_up_equal:
  assumes "part_inv cmp p xs pa pb pc1 pd1" "1 \<le> pa" "pa \<le> pb" "pb < pc1" "pc1 \<le> pd1" "pd1 \<le> length xs" "cmp (xs ! pb) p = 0"
  shows "part_inv cmp p (swap xs pa pb) (pa + 1) (pb + 1) pc1 pd1"
proof -
  have n: "swap xs pa pb ! k = (if k = pa then xs ! pb else if k = pb then xs ! pa else xs ! k)" for k
    using assms by (intro nth_swap) auto
  show ?thesis unfolding part_inv_def n using assms by (auto simp: part_inv_def less_Suc_eq)
qed

lemma part_inv_up_less:
  assumes "part_inv cmp p xs pa pb pc1 pd1" "cmp (xs ! pb) p < 0"
  shows "part_inv cmp p xs pa (pb + 1) pc1 pd1"
  using assms by (auto simp: part_inv_def less_Suc_eq)

lemma part_inv_down_equal:
  assumes "part_inv cmp p xs pa pb pc1 pd1" "1 \<le> pa" "pa \<le> pb" "pb < pc1" "pc1 \<le> pd1" "pd1 \<le> length xs" "cmp (xs ! (pc1 - 1)) p = 0"
  shows "part_inv cmp p (swap xs (pc1 - 1) (pd1 - 1)) pa pb (pc1 - 1) (pd1 - 1)"
proof -
  have n: "swap xs (pc1 - 1) (pd1 - 1) ! k = (if k = pc1 - 1 then xs ! (pd1 - 1) else if k = pd1 - 1 then xs ! (pc1 - 1) else xs ! k)" for k
    using assms by (intro nth_swap) auto
  have a: "xs ! 0 = p" "\<And>i. i < pa \<Longrightarrow> cmp (xs ! i) p = 0" "\<And>i. pa \<le> i \<Longrightarrow> i < pb \<Longrightarrow> cmp (xs ! i) p < 0"
    "\<And>i. pc1 \<le> i \<Longrightarrow> i < pd1 \<Longrightarrow> cmp (xs ! i) p > 0" "\<And>i. pd1 \<le> i \<Longrightarrow> i < length xs \<Longrightarrow> cmp (xs ! i) p = 0"
    using assms(1) by (auto simp: part_inv_def)
  have "cmp (swap xs (pc1 - 1) (pd1 - 1) ! i) p > 0" if "pc1 - 1 \<le> i" "i < pd1 - 1" for i
    unfolding n using a(4) [of i] a(4) [of "pd1 - 1"] that assms(4-6) by auto
  moreover have "cmp (swap xs (pc1 - 1) (pd1 - 1) ! i) p = 0" if "pd1 - 1 \<le> i" "i < length xs" for i
    unfolding n using a(5) [of i] that assms(4-7) by auto
  moreover have "swap xs (pc1 - 1) (pd1 - 1) ! i = xs ! i" if "i < pb" for i
    unfolding n using that assms(4,5) by auto
  ultimately show ?thesis unfolding part_inv_def using a(1-3) assms(2,3) by simp
qed

lemma part_inv_down_greater:
  assumes "part_inv cmp p xs pa pb pc1 pd1" "0 < cmp (xs ! (pc1 - 1)) p"
  shows "part_inv cmp p xs pa pb (pc1 - 1) pd1"
proof -
  have "0 < cmp (xs ! i) p" if "pc1 - 1 \<le> i" "i < pd1" for i
    using assms that by (cases "i = pc1 - 1") (auto simp: part_inv_def)
  then show ?thesis using assms(1) by (simp add: part_inv_def)
qed

lemma part_inv_exchange:
  assumes "part_inv cmp p xs pa pb pc1 pd1" "1 \<le> pa" "pa \<le> pb" "pb + 1 \<le> pc1 - 1" "pc1 \<le> pd1" "pd1 \<le> length xs"
    "0 < cmp (xs ! pb) p" "cmp (xs ! (pc1 - 1)) p < 0"
  shows "part_inv cmp p (swap xs pb (pc1 - 1)) pa (pb + 1) (pc1 - 1) pd1"
proof -
  have n: "swap xs pb (pc1 - 1) ! k = (if k = pb then xs ! (pc1 - 1) else if k = pc1 - 1 then xs ! pb else xs ! k)" for k
    using assms by (intro nth_swap) auto
  have "0 < cmp (swap xs pb (pc1 - 1) ! i) p" if "pc1 - 1 \<le> i" "i < pd1" for i
    unfolding n using that assms by (cases "i = pc1 - 1") (auto simp: part_inv_def)
  then show ?thesis using assms unfolding part_inv_def n by (auto simp: less_Suc_eq)
qed


lemma scan_up_inv:
  "scan_up cmp xs pa pb pc1 cnt = (xs', pa', pb', cnt') \<Longrightarrow> part_inv cmp p xs pa pb pc1 pd1 \<Longrightarrow>
   1 \<le> pa \<Longrightarrow> pa \<le> pb \<Longrightarrow> pc1 \<le> pd1 \<Longrightarrow> pd1 \<le> length xs \<Longrightarrow> part_inv cmp p xs' pa' pb' pc1 pd1"
proof (induction cmp xs pa pb pc1 cnt rule: scan_up.induct)
  case (1 cmp xs pa pb pc1 cnt)
  have z: "xs ! 0 = p" using "1.prems"(2) by (simp add: part_inv_def)
  show ?case
  proof (cases "pb < pc1 \<and> cmp (xs ! pb) (xs ! 0) \<le> 0")
    case True
    note step = scan_up.simps [of cmp xs pa pb pc1 cnt, unfolded if_P [OF True]]
    show ?thesis
    proof (cases "cmp (xs ! pb) (xs ! 0) = 0")
      case eq: True
      have s: "scan_up cmp (swap xs pa pb) (pa + 1) (pb + 1) pc1 True = (xs', pa', pb', cnt')" using step "1.prems"(1) eq by simp
      have i: "part_inv cmp p (swap xs pa pb) (pa + 1) (pb + 1) pc1 pd1"
        using True eq z "1.prems" by (intro part_inv_up_equal) auto
      show ?thesis using "1.IH"(1) [OF True eq s i] "1.prems" by simp
    next
      case ne: False
      have s: "scan_up cmp xs pa (pb + 1) pc1 cnt = (xs', pa', pb', cnt')" using step "1.prems"(1) ne by simp
      have i: "part_inv cmp p xs pa (pb + 1) pc1 pd1"
        using True ne z "1.prems" by (intro part_inv_up_less) auto
      show ?thesis using "1.IH"(2) [OF True ne s i] "1.prems" by simp
    qed
  next
    case False
    then show ?thesis using "1.prems" scan_up.simps [of cmp xs pa pb pc1 cnt] by auto
  qed
qed

lemma scan_down_inv:
  "scan_down cmp xs pb pc1 pd1 cnt = (xs', pc1', pd1', cnt') \<Longrightarrow> part_inv cmp p xs pa pb pc1 pd1 \<Longrightarrow>
   1 \<le> pa \<Longrightarrow> pa \<le> pb \<Longrightarrow> pc1 \<le> pd1 \<Longrightarrow> pd1 \<le> length xs \<Longrightarrow> part_inv cmp p xs' pa pb pc1' pd1'"
proof (induction cmp xs pb pc1 pd1 cnt rule: scan_down.induct)
  case (1 cmp xs pb pc1 pd1 cnt)
  have z: "xs ! 0 = p" using "1.prems"(2) by (simp add: part_inv_def)
  show ?case
  proof (cases "pb < pc1 \<and> cmp (xs ! (pc1 - 1)) (xs ! 0) \<ge> 0")
    case True
    note step = scan_down.simps [of cmp xs pb pc1 pd1 cnt, unfolded if_P [OF True]]
    show ?thesis
    proof (cases "cmp (xs ! (pc1 - 1)) (xs ! 0) = 0")
      case eq: True
      have s: "scan_down cmp (swap xs (pc1 - 1) (pd1 - 1)) pb (pc1 - 1) (pd1 - 1) True = (xs', pc1', pd1', cnt')"
        using step "1.prems"(1) eq by simp
      have i: "part_inv cmp p (swap xs (pc1 - 1) (pd1 - 1)) pa pb (pc1 - 1) (pd1 - 1)"
        using True eq z "1.prems" by (intro part_inv_down_equal) auto
      show ?thesis using "1.IH"(1) [OF True eq s i "1.prems"(3,4)] "1.prems"(5,6) by simp
    next
      case ne: False
      have s: "scan_down cmp xs pb (pc1 - 1) pd1 cnt = (xs', pc1', pd1', cnt')" using step "1.prems"(1) ne by simp
      have "0 < cmp (xs ! (pc1 - 1)) p" using True ne z by simp
      note i = part_inv_down_greater [OF "1.prems"(2) this]
      show ?thesis using "1.IH"(2) [OF True ne s i "1.prems"(3,4)] "1.prems"(5,6) by simp
    qed
  next
    case False
    then have "(xs', pc1', pd1', cnt') = (xs, pc1, pd1, cnt)" using "1.prems"(1) scan_down.simps [of cmp xs pb pc1 pd1 cnt] by auto
    then show ?thesis using "1.prems"(2) by simp
  qed
qed

lemma partition_loop_inv:
  "partition_loop cmp xs pa pb pc1 pd1 cnt = (xs', pa', pb', pc1', pd1', cnt') \<Longrightarrow> part_inv cmp p xs pa pb pc1 pd1 \<Longrightarrow>
   1 \<le> pa \<Longrightarrow> pa \<le> pb \<Longrightarrow> pb \<le> pc1 \<Longrightarrow> pc1 \<le> pd1 \<Longrightarrow> pd1 \<le> length xs \<Longrightarrow> part_inv cmp p xs' pa' pb' pc1' pd1'"
proof (induction cmp xs pa pb pc1 pd1 cnt rule: partition_loop.induct)
  case (1 cmp xs pa pb pc1 pd1 cnt)
  obtain xs1 pa1 pb1 cnt1 where u: "scan_up cmp xs pa pb pc1 cnt = (xs1, pa1, pb1, cnt1)" by (metis prod_cases4)
  obtain xs2 pc2 pd2 cnt2 where d: "scan_down cmp xs1 pb1 pc1 pd1 cnt1 = (xs2, pc2, pd2, cnt2)" by (metis prod_cases4)
  note step = partition_loop.simps [of cmp xs pa pb pc1 pd1 cnt, unfolded u d Let_def split]
  note r = partition_round [OF u d "1.prems"(3-6)]
  have len: "pd1 \<le> length xs1" "pd2 \<le> length xs2" using r "1.prems"(7) by simp_all
  have i1: "part_inv cmp p xs1 pa1 pb1 pc1 pd1"
    using scan_up_inv [OF u "1.prems"(2)] "1.prems" by simp
  have i2: "part_inv cmp p xs2 pa1 pb1 pc2 pd2"
    using scan_down_inv [OF d i1 r(1,2) "1.prems"(6) len(1)] .
  show ?case
  proof (cases "pb1 < pc2")
    case True
    then have p: "partition_loop cmp (swap xs2 pb1 (pc2 - 1)) pa1 (pb1 + 1) (pc2 - 1) pd2 True = (xs', pa', pb', pc1', pd1', cnt')"
      using step "1.prems"(1) by simp
    have b: "pa1 \<le> pb1 + 1" "pc2 - 1 \<le> pd2" "pd2 \<le> length (swap xs2 pb1 (pc2 - 1))" using r len by auto
    note down = scan_down_bounds [OF d r(3) "1.prems"(6)]
    have "pb1 < pc1" using down True by linarith
    then have "0 < cmp (xs1 ! pb1) (xs1 ! 0)" using scan_up_stop [OF u] by simp
    moreover have "xs2 ! pb1 = xs1 ! pb1" using down True by blast
    moreover have "cmp (xs2 ! (pc2 - 1)) (xs2 ! 0) < 0" using down True by blast
    ultimately have c: "0 < cmp (xs2 ! pb1) p" "cmp (xs2 ! (pc2 - 1)) p < 0"
      using i1 i2 by (simp_all add: part_inv_def)
    note i3 = part_inv_exchange [OF i2 r(1,2) r(11) [OF True] r(5) len(2) c]
    from "1.IH" [OF u [symmetric] refl refl refl d [symmetric] refl refl refl _ p i3 r(1) b(1) r(11) [OF True] b(2,3)] True
    show ?thesis by simp
  next
    case False
    then show ?thesis using step "1.prems"(1) i2 by auto
  qed
qed

text \<open>Exchanging the ends of two neighbouring blocks of lengths \<open>a\<close> and \<open>b\<close> exchanges the blocks, up to the order inside.\<close>

lemma vecswap_blocks:
  assumes P: "\<And>k. i \<le> k \<Longrightarrow> k < i + a \<Longrightarrow> P (xs ! k)" and Q: "\<And>k. i + a \<le> k \<Longrightarrow> k < i + a + b \<Longrightarrow> Q (xs ! k)"
    and r: "r = min a b" and j: "j = i + a + b - r" and len: "i + a + b \<le> length xs"
  shows "i \<le> k \<Longrightarrow> k < i + b \<Longrightarrow> Q (vecswap xs i j r ! k)"
    and "i + b \<le> k \<Longrightarrow> k < i + a + b \<Longrightarrow> P (vecswap xs i j r ! k)"
    and "k < i \<or> i + a + b \<le> k \<Longrightarrow> vecswap xs i j r ! k = xs ! k"
proof -
  have le: "i + r \<le> j" "j + r = i + a + b" "r \<le> a" "r \<le> b" "r = a \<or> r = b" using r j by auto
  have n: "vecswap xs i j r ! k = (if i \<le> k \<and> k < i + r then xs ! (j + (k - i))
      else if j \<le> k \<and> k < j + r then xs ! (i + (k - j)) else xs ! k)"
    using le len by (intro nth_vecswap) simp_all
  show "Q (vecswap xs i j r ! k)" if "i \<le> k" "k < i + b"
  proof (cases "k < i + r")
    case True
    have "Q (xs ! (j + (k - i)))" using True that le by (intro Q) linarith+
    then show ?thesis using True that n by simp
  next
    case False
    then have "r = a" "\<not> (j \<le> k)" using that le by linarith+
    moreover have "Q (xs ! k)" using False that le \<open>r = a\<close> by (intro Q) linarith+
    ultimately show ?thesis using False n by simp
  qed
  show "P (vecswap xs i j r ! k)" if "i + b \<le> k" "k < i + a + b"
  proof (cases "j \<le> k")
    case True
    have "P (xs ! (i + (k - j)))" using True that le by (intro P) linarith+
    moreover have "\<not> k < i + r" using that le by linarith
    ultimately show ?thesis using True that n le by simp
  next
    case False
    then have "r = b" using that le by linarith
    then have "P (xs ! k)" using False that le by (intro P) linarith+
    moreover have "\<not> k < i + r" using that le by linarith
    ultimately show ?thesis using False n by simp
  qed
  show "vecswap xs i j r ! k = xs ! k" if "k < i \<or> i + a + b \<le> k"
    using that n le by auto
qed

text \<open>After the exchanges of the equal elements: smaller, equal, larger.\<close>

lemma qsort_partition_order:
  assumes "qsort_partition cmp xs = (ys, lo, hi, True)" "7 \<le> length xs" and refl: "\<And>x. x \<in> set xs \<Longrightarrow> cmp x x = 0"
  obtains p where "p \<in> set xs" "\<And>i. i < lo \<Longrightarrow> cmp (ys ! i) p < 0"
    "\<And>i. lo \<le> i \<Longrightarrow> i < length xs - hi \<Longrightarrow> cmp (ys ! i) p = 0"
    "\<And>i. length xs - hi \<le> i \<Longrightarrow> i < length xs \<Longrightarrow> 0 < cmp (ys ! i) p"
proof -
  let ?n = "length xs"
  let ?xs = "swap xs 0 (choose_pivot cmp xs)"
  define p where "p = ?xs ! 0"
  have pv: "choose_pivot cmp xs < ?n" "0 < ?n" using choose_pivot_less [OF assms(2)] assms(2) by auto
  then have p: "p \<in> set xs" unfolding p_def by (simp add: nth_swap)
  obtain zs pa pb pc1 pd1 c where l: "partition_loop cmp ?xs 1 1 ?n ?n False = (zs, pa, pb, pc1, pd1, c)"
    by (metis prod_cases6)
  have b: "1 \<le> pa" "pa \<le> pb" "pb = pc1" "pc1 \<le> pd1" "pd1 \<le> ?n" "length zs = ?n"
    using partition_loop_bounds [OF l] assms(2) by auto
  have "part_inv cmp p ?xs 1 1 ?n ?n" using refl [OF p] by (auto simp: part_inv_def p_def)
  then have i: "part_inv cmp p zs pa pb pc1 pd1"
    using partition_loop_inv [OF l] assms(2) by simp
  define r where "r = min pa (pb - pa)"
  define q where "q = min (pd1 - pc1) (?n - pd1)"
  have ys: "ys = vecswap (vecswap zs 0 (pb - r) r) pb (?n - q) q" "lo = pb - pa" "hi = pd1 - pc1"
    using assms(1) unfolding qsort_partition_def Let_def l split r_def q_def by (auto split: if_splits)
  let ?eq = "\<lambda>x. cmp x p = 0" let ?lt = "\<lambda>x. cmp x p < 0" let ?gt = "\<lambda>x. 0 < cmp x p"
  let ?vs = "vecswap zs 0 (pb - r) r"
  have z: "\<And>k. k < pa \<Longrightarrow> ?eq (zs ! k)" "\<And>k. pa \<le> k \<Longrightarrow> k < pb \<Longrightarrow> ?lt (zs ! k)" "\<And>k. pb \<le> k \<Longrightarrow> k < pd1 \<Longrightarrow> ?gt (zs ! k)"
    "\<And>k. pd1 \<le> k \<Longrightarrow> k < ?n \<Longrightarrow> ?eq (zs ! k)" using i b by (auto simp: part_inv_def)
  have len: "0 + pa + (pb - pa) \<le> length zs" "pb + (pd1 - pc1) + (?n - pd1) \<le> length ?vs" using b by simp_all
  have j: "pb - r = 0 + pa + (pb - pa) - r" "?n - q = pb + (pd1 - pc1) + (?n - pd1) - q" using b by simp_all
  have v: "k < pb - pa \<Longrightarrow> ?lt (?vs ! k)" "pb - pa \<le> k \<Longrightarrow> k < pb \<Longrightarrow> ?eq (?vs ! k)" "pb \<le> k \<Longrightarrow> ?vs ! k = zs ! k" for k
    using vecswap_blocks [where xs = zs and P = ?eq and Q = ?lt and k = k, OF _ _ r_def j(1) len(1)] z(1,2) b by auto
  have "pb \<le> k \<Longrightarrow> k < pb + (pd1 - pc1) \<Longrightarrow> ?gt (?vs ! k)" "pb + (pd1 - pc1) \<le> k \<Longrightarrow> k < pb + (pd1 - pc1) + (?n - pd1) \<Longrightarrow> ?eq (?vs ! k)" for k
    using v(3) [of k] z(3,4) [of k] b by simp_all
  note w = vecswap_blocks [where xs = ?vs and P = ?gt and Q = ?eq, OF this q_def j(2) len(2), folded ys(1)]
  show thesis
  proof (rule that [OF p])
    show "?lt (ys ! k)" if "k < lo" for k
    proof -
      have "k < pb" using that ys(2) by linarith
      then show ?thesis using that v(1) [of k] w(3) [of k] ys(2) by simp
    qed
    show "?eq (ys ! k)" if "lo \<le> k" "k < ?n - hi" for k
    proof (cases "k < pb")
      case True
      then show ?thesis using that v(2) [of k] w(3) [of k] ys(2) by simp
    next
      case False
      then show ?thesis using that w(1) [of k] ys(3) b by simp
    qed
    show "?gt (ys ! k)" if "?n - hi \<le> k" "k < ?n" for k using that w(2) [of k] ys(3) b by simp
  qed
qed


context compare_spec
begin

text \<open>The insertion sort. While an element sinks, all the others are in order, and it is not above those it has passed.\<close>

definition sinking :: "'k list \<Rightarrow> nat \<Rightarrow> nat \<Rightarrow> bool" where
  "sinking xs p pm \<longleftrightarrow> p \<le> pm \<and> pm < length xs \<and>
     (\<forall>i j. i < j \<longrightarrow> j \<le> pm \<longrightarrow> i \<noteq> p \<longrightarrow> j \<noteq> p \<longrightarrow> cmp (xs ! i) (xs ! j) \<le> 0) \<and>
     (\<forall>j. p < j \<longrightarrow> j \<le> pm \<longrightarrow> cmp (xs ! p) (xs ! j) \<le> 0)"

lemma sinking_step:
  assumes "sinking xs (Suc p) pm" "0 < cmp (xs ! p) (xs ! Suc p)" "\<forall>x \<in> set xs. ok x"
  shows "sinking (swap xs (Suc p) p) p pm"
proof -
  have s: "Suc p \<le> pm" "pm < length xs" "\<And>i j. i < j \<Longrightarrow> j \<le> pm \<Longrightarrow> i \<noteq> Suc p \<Longrightarrow> j \<noteq> Suc p \<Longrightarrow> cmp (xs ! i) (xs ! j) \<le> 0"
    "\<And>j. Suc p < j \<Longrightarrow> j \<le> pm \<Longrightarrow> cmp (xs ! Suc p) (xs ! j) \<le> 0" using assms(1) by (auto simp: sinking_def)
  have n: "swap xs (Suc p) p ! k = (if k = Suc p then xs ! p else if k = p then xs ! Suc p else xs ! k)" for k
    using s by (intro nth_swap) simp_all
  have le: "cmp (xs ! Suc p) (xs ! p) \<le> 0"
    using assms(2,3) s(1,2) cmp_sym [of "xs ! Suc p" "xs ! p"] by simp
  have "cmp (swap xs (Suc p) p ! i) (swap xs (Suc p) p ! j) \<le> 0" if "i < j" "j \<le> pm" "i \<noteq> p" "j \<noteq> p" for i j
    using that s(3) [of i j] s(3) [of p j] s(3) [of i p] unfolding n by auto
  moreover have "cmp (swap xs (Suc p) p ! p) (swap xs (Suc p) p ! j) \<le> 0" if "p < j" "j \<le> pm" for j
    using that s(4) [of j] le unfolding n by auto
  ultimately show ?thesis using s(1,2) by (simp add: sinking_def)
qed

lemma sinking_end:
  assumes "sinking xs p pm" "\<forall>x \<in> set xs. ok x" "p = 0 \<or> cmp (xs ! (p - 1)) (xs ! p) \<le> 0" "i < j" "j \<le> pm"
  shows "cmp (xs ! i) (xs ! j) \<le> 0"
proof (cases "j = p")
  case True
  then have p: "cmp (xs ! (p - 1)) (xs ! p) \<le> 0" "p < length xs" using assms by (auto simp: sinking_def)
  show ?thesis
  proof (cases "i = p - 1")
    case False
    then have "cmp (xs ! i) (xs ! (p - 1)) \<le> 0" using assms(1,4,5) True by (simp add: sinking_def)
    then show ?thesis using cmp_trans [of "xs ! i" "xs ! (p - 1)" "xs ! p"] p True assms(2,4) by simp
  qed (use p True in simp)
next
  case False
  then show ?thesis using assms(1,4,5) by (cases "i = p") (simp_all add: sinking_def)
qed

definition sorted_to :: "'k list \<Rightarrow> nat \<Rightarrow> bool" where
  "sorted_to xs n \<longleftrightarrow> (\<forall>i j. i < j \<longrightarrow> j < n \<longrightarrow> cmp (xs ! i) (xs ! j) \<le> 0)"

lemma sift_down_sorted:
  "sinking xs p pm \<Longrightarrow> \<forall>x \<in> set xs. ok x \<Longrightarrow> sorted_to (sift_down cmp xs p) (Suc pm)"
proof (induction p arbitrary: xs)
  case 0
  then show ?case using sinking_end [of xs 0 pm] by (auto simp: sorted_to_def less_Suc_eq_le)
next
  case (Suc p)
  show ?case
  proof (cases "0 < cmp (xs ! p) (xs ! Suc p)")
    case True
    have "set (swap xs (Suc p) p) = set xs"
      using mset_swap [of "Suc p" xs p] Suc.prems(1) by (metis sinking_def Suc_leD le_less_trans mset_eq_setD)
    then show ?thesis using Suc.IH [OF sinking_step [OF Suc.prems(1) True Suc.prems(2)]] Suc.prems(2) True by simp
  next
    case False
    then show ?thesis using sinking_end [OF Suc.prems] by (auto simp: sorted_to_def less_Suc_eq_le)
  qed
qed

lemma insertion_loop_sorted:
  "sorted_to xs pm \<Longrightarrow> pm \<le> length xs \<Longrightarrow> \<forall>x \<in> set xs. ok x \<Longrightarrow> sorted_to (insertion_loop cmp xs pm) (length xs)"
proof (induction "length xs - pm" arbitrary: xs pm)
  case (Suc n)
  then have lt: "pm < length xs" by simp
  have "sinking xs pm pm" using Suc.prems(1) lt by (auto simp: sinking_def sorted_to_def)
  then have s: "sorted_to (sift_down cmp xs pm) (pm + 1)" using sift_down_sorted Suc.prems(3) by simp
  have "set (sift_down cmp xs pm) = set xs" using mset_sift_down [OF lt] by (metis mset_eq_setD)
  then show ?case using Suc.hyps(1) [OF _ s] Suc.hyps(2) Suc.prems(3) lt by (simp add: insertion_loop.simps [of cmp xs pm])
next
  case 0
  then show ?case by (simp add: insertion_loop.simps)
qed

lemma insertion_sorted: "\<forall>x \<in> set xs. ok x \<Longrightarrow> sorted_wrt (\<lambda>x y. cmp x y \<le> 0) (insertion_loop cmp xs 1)"
proof (cases "xs = []")
  case False
  assume "\<forall>x \<in> set xs. ok x"
  moreover have "sorted_to xs 1" by (simp add: sorted_to_def)
  ultimately have "sorted_to (insertion_loop cmp xs 1) (length xs)" using insertion_loop_sorted [of xs 1] False by (simp add: Suc_le_eq)
  moreover have "length (insertion_loop cmp xs 1) = length xs" using mset_insertion_loop by (metis size_mset)
  ultimately show ?thesis by (simp add: sorted_wrt_iff_nth_less sorted_to_def)
qed (simp add: insertion_loop.simps)

text \<open>Sorting the outer parts of a partition sorts the array.\<close>

lemma partition_sorted:
  assumes "ok p" "\<forall>x \<in> set (ls @ es @ gs). ok x" "\<forall>x \<in> set ls. cmp x p < 0" "\<forall>x \<in> set es. cmp x p = 0" "\<forall>x \<in> set gs. 0 < cmp x p"
    and "sorted_wrt (\<lambda>x y. cmp x y \<le> 0) ls" "sorted_wrt (\<lambda>x y. cmp x y \<le> 0) gs"
  shows "sorted_wrt (\<lambda>x y. cmp x y \<le> 0) (ls @ es @ gs)"
proof -
  have le: "cmp x y \<le> 0" if "cmp x p \<le> 0" "0 \<le> cmp y p" "ok x" "ok y" for x y
    using that assms(1) cmp_trans [of x p y] cmp_ge [of y p] by blast
  have o: "x \<in> set ls \<Longrightarrow> ok x" "x \<in> set es \<Longrightarrow> ok x" "x \<in> set gs \<Longrightarrow> ok x" for x using assms(2) by auto
  have "cmp x y \<le> 0" if "x \<in> set es" "y \<in> set es" for x y by (rule le) (use that assms(4) o in auto)
  then have e: "sorted_wrt (\<lambda>x y. cmp x y \<le> 0) es" by (simp add: sorted_wrt_iff_nth_less)
  have "cmp x y \<le> 0" if "x \<in> set ls" "y \<in> set es \<union> set gs" for x y
  proof (rule le)
    show "cmp x p \<le> 0" "0 \<le> cmp y p" using that assms(3-5) by (auto simp: less_imp_le)
    show "ok x" "ok y" using that o by auto
  qed
  moreover have "cmp x y \<le> 0" if "x \<in> set es" "y \<in> set gs" for x y
  proof (rule le)
    show "cmp x p \<le> 0" "0 \<le> cmp y p" using that assms(4,5) by (auto simp: less_imp_le)
    show "ok x" "ok y" using that o by auto
  qed
  ultimately show ?thesis using e assms(6,7) by (simp add: sorted_wrt_append)
qed

lemma qsort_sorted: "\<forall>x \<in> set xs. ok x \<Longrightarrow> sorted_wrt (\<lambda>x y. cmp x y \<le> 0) (qsort cmp xs)"
proof (induction xs rule: length_induct)
  case (1 xs)
  show ?case
  proof (cases "length xs < 7")
    case True
    then show ?thesis using insertion_sorted "1.prems" by (simp add: qsort.simps)
  next
    case False
    obtain ys lo hi cnt where p: "qsort_partition cmp xs = (ys, lo, hi, cnt)" by (metis prod_cases4)
    have len: "7 \<le> length xs" using False by simp
    note b = qsort_partition_bounds [OF p len]
    note step = qsort.simps [of cmp xs, unfolded if_not_P [OF False] p Let_def split]
    have set: "set ys = set xs" using mset_qsort_partition [OF p len] by (metis mset_eq_setD)
    show ?thesis
    proof (cases cnt)
      case True
      obtain pv where pv: "pv \<in> set xs" "\<And>i. i < lo \<Longrightarrow> cmp (ys ! i) pv < 0"
        "\<And>i. lo \<le> i \<Longrightarrow> i < length xs - hi \<Longrightarrow> cmp (ys ! i) pv = 0"
        "\<And>i. length xs - hi \<le> i \<Longrightarrow> i < length xs \<Longrightarrow> 0 < cmp (ys ! i) pv"
        using qsort_partition_order [of cmp xs ys lo hi] p len True "1.prems" cmp_refl by auto
      let ?l = "take lo ys" and ?e = "take (length xs - hi - lo) (drop lo ys)" and ?g = "drop (length xs - hi) ys"
      let ?s = "\<lambda>zs. if length zs > 1 then qsort cmp zs else zs"
      have srt: "sorted_wrt (\<lambda>x y. cmp x y \<le> 0) (?s zs) \<and> set (?s zs) = set zs" if "length zs < length xs" "set zs \<subseteq> set xs" for zs
      proof (cases "length zs > 1")
        case True
        have "sorted_wrt (\<lambda>x y. cmp x y \<le> 0) (qsort cmp zs)" using that "1.IH" "1.prems" by blast
        moreover have "set (qsort cmp zs) = set zs" using mset_qsort by (rule mset_eq_setD)
        ultimately show ?thesis using True by simp
      next
        case False
        then show ?thesis by (simp add: sorted_wrt_iff_nth_less)
      qed
      have s: "set ?l \<subseteq> set xs" "set ?e \<subseteq> set xs" "set ?g \<subseteq> set xs"
        using set set_take_subset set_drop_subset by (metis order_trans)+
      have lens: "length ?l = lo" "length ?g = hi" using b by simp_all
      have q: "qsort cmp xs = ?s ?l @ ?e @ ?s ?g" using True lens by (simp add: step)
      show ?thesis unfolding q
      proof (rule partition_sorted)
        show "\<forall>x \<in> set (?s ?l). cmp x pv < 0" using srt [OF _ s(1)] lens b pv(2) by (auto simp: in_set_conv_nth)
        show "\<forall>x \<in> set ?e. cmp x pv = 0" using pv(3) b by (auto simp: in_set_conv_nth)
        show "\<forall>x \<in> set (?s ?g). 0 < cmp x pv" using srt [OF _ s(3)] lens b pv(4) by (auto simp: in_set_conv_nth)
      qed (use srt [OF _ s(1)] srt [OF _ s(3)] lens b s "1.prems" pv(1) in auto)
    next
      case False
      then show ?thesis using insertion_sorted set "1.prems" by (simp add: step)
    qed
  qed
qed

end

section \<open>Properties\<close>

text \<open>C32. \<open>qsort\<close> ends for every comparison function with a permutation of the array, and when the comparison function orders
  the elements, the array is sorted: the insertion sort, the choice of the pivot, the partition with its equal elements at both
  ends, their exchange into the middle and the switch to insertion sort on presorted arrays all included.\<close>

theorem qsort_correct:
  "mset (qsort cmp xs) = mset xs \<and>
   (compare_spec cmp ok \<longrightarrow> (\<forall>x \<in> set xs. ok x) \<longrightarrow> sorted_wrt (\<lambda>x y. cmp x y \<le> 0) (qsort cmp xs))"
  using mset_qsort compare_spec.qsort_sorted by blast

theorem qsort_correct_witness:
  "sorted_wrt (\<lambda>x y. x - y \<le> 0) (qsort (\<lambda>x y. x - y) [5, 3, 9, 3, 1, 8, 2, 3 :: int]) \<and>
   mset (qsort (\<lambda>x y. x - y) [5, 3, 9, 3, 1, 8, 2, 3 :: int]) = {#1, 2, 3, 3, 3, 5, 8, 9#}"
proof -
  have "compare_spec (\<lambda>x y. x - y) (\<lambda>x :: int. True)" by unfold_locales auto
  then show ?thesis using qsort_correct [of "\<lambda>x y. x - y" "[5, 3, 9, 3, 1, 8, 2, 3]" "\<lambda>_. True"] by simp
qed

end
