(* ===== verification/SwapBytes.thy ===== *)
theory SwapBytes
  imports Qsort WordCopy
begin

text \<open>
  The exchange of two elements in memory, as \<open>qsort\<close> of \<^verbatim>\<open>src/library/stdlib/qsort.c\<close> does it with \<open>swap\<close> and
  \<open>swapfunc\<close>: word by word where base and size allow it, byte by byte otherwise. The lemmas show that it is the exchange of
  list elements that \<open>Qsort\<close> works with.
\<close>

text \<open>\<open>SWAPINIT\<close>, and \<open>swapcode\<close> for \<open>char\<close> and \<open>long\<close>: a \<open>do\<close> loop.\<close>

definition SWAPINIT :: "addr \<Rightarrow> size_t \<Rightarrow> nat" where
  "SWAPINIT a es = (if a mod 4 \<noteq> 0 \<or> es mod 4 \<noteq> 0 then 2 else if es = 4 then 0 else 1)"

function swapcode_char :: "byte list \<Rightarrow> addr \<Rightarrow> addr \<Rightarrow> nat \<Rightarrow> byte list option" where
  "swapcode_char m pi pj i = do {
     t \<leftarrow> load m pi;
     u \<leftarrow> load m pj;
     m \<leftarrow> store m pi u;
     m \<leftarrow> store m pj t;
     if i - 1 > 0 then swapcode_char m (pi + 1) (pj + 1) (i - 1) else Some m }"
  by pat_completeness auto
termination
  by (relation "measure (\<lambda>(m, a, b, i). i)") auto

function swapcode_long :: "byte list \<Rightarrow> addr \<Rightarrow> addr \<Rightarrow> nat \<Rightarrow> byte list option" where
  "swapcode_long m pi pj i = do {
     t \<leftarrow> load32 m pi;
     u \<leftarrow> load32 m pj;
     m \<leftarrow> store32 m pi u;
     m \<leftarrow> store32 m pj t;
     if i - 1 > 0 then swapcode_long m (pi + 4) (pj + 4) (i - 1) else Some m }"
  by pat_completeness auto
termination
  by (relation "measure (\<lambda>(m, a, b, i). i)") auto

declare swapcode_char.simps [simp del] swapcode_long.simps [simp del]

definition swapfunc :: "byte list \<Rightarrow> addr \<Rightarrow> addr \<Rightarrow> size_t \<Rightarrow> nat \<Rightarrow> byte list option" where
  "swapfunc m a b n swaptype = (if swaptype \<le> 1 then swapcode_long m a b (n div 4) else swapcode_char m a b n)"

definition swap_elements :: "byte list \<Rightarrow> addr \<Rightarrow> addr \<Rightarrow> size_t \<Rightarrow> nat \<Rightarrow> byte list option" where
  "swap_elements m a b es swaptype =
     (if swaptype = 0 then do { t \<leftarrow> load32 m a; u \<leftarrow> load32 m b; m \<leftarrow> store32 m a u; store32 m b t }
      else swapfunc m a b es swaptype)"

section \<open>The exchange of two runs of bytes\<close>

definition exchange :: "byte list \<Rightarrow> addr \<Rightarrow> addr \<Rightarrow> size_t \<Rightarrow> byte list" where
  "exchange m a b n = put (put m a (slice m b n)) b (slice m a n)"

lemma nth_slice: "region m a n \<Longrightarrow> i < n \<Longrightarrow> slice m a n ! i = m ! (a + i)"
  by (simp add: slice_def region_def)

lemma nth_exchange:
  assumes "region m a n" "region m b n" "apart a n b n" "x < length m"
  shows "exchange m a b n ! x = (if a \<le> x \<and> x < a + n then m ! (b + (x - a)) else if b \<le> x \<and> x < b + n then m ! (a + (x - b)) else m ! x)"
  using assms by (auto simp: exchange_def nth_put length_slice nth_slice apart_def)

lemma length_exchange [simp]: "length (exchange m a b n) = length m"
  by (simp add: exchange_def)

lemma region_exchange [simp]: "region (exchange m a b n) c k = region m c k"
  by (simp add: exchange_def)

lemma region_less: "region m a n \<Longrightarrow> 0 < n \<Longrightarrow> a + n \<le> length m"
  by (simp add: region_def)

lemma exchange_add:
  assumes "region m a (j + k)" "region m b (j + k)" "apart a (j + k) b (j + k)"
  shows "exchange (exchange m a b j) (a + j) (b + j) k = exchange m a b (j + k)"
proof (rule nth_equalityI)
  fix x assume "x < length (exchange (exchange m a b j) (a + j) (b + j) k)"
  then have x: "x < length m" by simp
  have r: "region m a j" "region m b j" "region (exchange m a b j) (a + j) k" "region (exchange m a b j) (b + j) k"
    using assms by (simp_all add: region_append)
  have ap: "apart a j b j" "apart (a + j) k (b + j) k" using assms(3) by (auto simp: apart_def)
  have e1: "exchange m a b j ! y = (if a \<le> y \<and> y < a + j then m ! (b + (y - a)) else if b \<le> y \<and> y < b + j then m ! (a + (y - b)) else m ! y)"
    if "y < length m" for y using nth_exchange [OF r(1,2) ap(1) that] .
  have e2: "exchange (exchange m a b j) (a + j) (b + j) k ! x =
    (if a + j \<le> x \<and> x < a + j + k then exchange m a b j ! (b + j + (x - (a + j)))
     else if b + j \<le> x \<and> x < b + j + k then exchange m a b j ! (a + j + (x - (b + j))) else exchange m a b j ! x)"
    using nth_exchange [OF r(3,4) ap(2)] x by simp
  have e3: "exchange m a b (j + k) ! x = (if a \<le> x \<and> x < a + (j + k) then m ! (b + (x - a)) else if b \<le> x \<and> x < b + (j + k) then m ! (a + (x - b)) else m ! x)"
    using nth_exchange [OF assms x] .
  consider "a + j \<le> x \<and> x < a + j + k" | "b + j \<le> x \<and> x < b + j + k" | "\<not> (a + j \<le> x \<and> x < a + j + k)" "\<not> (b + j \<le> x \<and> x < b + j + k)"
    by blast
  then show "exchange (exchange m a b j) (a + j) (b + j) k ! x = exchange m a b (j + k) ! x"
  proof cases
    case 1
    then have y: "b + j + (x - (a + j)) = b + (x - a)" "b + (x - a) < length m"
      "\<not> (a \<le> b + (x - a) \<and> b + (x - a) < a + j)" "\<not> (b \<le> b + (x - a) \<and> b + (x - a) < b + j)"
      using region_less [OF assms(2)] assms(3) by (auto simp: apart_def)
    have "exchange (exchange m a b j) (a + j) (b + j) k ! x = m ! (b + (x - a))"
      unfolding e2 if_P [OF 1] y(1) e1 [OF y(2)] using y(3,4) by (simp only: if_False)
    moreover have c: "a \<le> x \<and> x < a + (j + k)" using 1 by linarith
    ultimately show ?thesis unfolding e3 if_P [OF c] by simp
  next
    case 2
    then have n: "\<not> (a + j \<le> x \<and> x < a + j + k)" "\<not> (a \<le> x \<and> x < a + (j + k))" "b \<le> x \<and> x < b + (j + k)"
      using assms(3) by (auto simp: apart_def)
    have y: "a + j + (x - (b + j)) = a + (x - b)" "a + (x - b) < length m"
      "\<not> (a \<le> a + (x - b) \<and> a + (x - b) < a + j)" "\<not> (b \<le> a + (x - b) \<and> a + (x - b) < b + j)"
      using 2 region_less [OF assms(1)] assms(3) by (auto simp: apart_def)
    have "exchange (exchange m a b j) (a + j) (b + j) k ! x = m ! (a + (x - b))"
      unfolding e2 if_not_P [OF n(1)] if_P [OF 2] y(1) e1 [OF y(2)] using y(3,4) by (simp only: if_False)
    then show ?thesis unfolding e3 if_not_P [OF n(2)] if_P [OF n(3)] .
  next
    case 3
    have "a \<le> x \<and> x < a + j \<longleftrightarrow> a \<le> x \<and> x < a + (j + k)" "b \<le> x \<and> x < b + j \<longleftrightarrow> b \<le> x \<and> x < b + (j + k)"
      using 3 by linarith+
    then show ?thesis unfolding e2 if_not_P [OF 3(1)] if_not_P [OF 3(2)] e1 [OF x] e3 by (simp only:)
  qed
qed simp

lemma swapcode_char_exchange:
  "region m a n \<Longrightarrow> region m b n \<Longrightarrow> apart a n b n \<Longrightarrow> 0 < n \<Longrightarrow> swapcode_char m a b n = Some (exchange m a b n)"
proof (induction n arbitrary: m a b)
  case (Suc n)
  have r1: "region m a 1" "region m b 1" using Suc.prems region_mono [of m _ "Suc n" 1] by simp_all
  then have "slice m b 1 = [m ! b]" "slice m a 1 = [m ! a]" "mapped m a" "mapped m b"
    using slice_Suc [of m a 0] slice_Suc [of m b 0] region_Suc [of m a 0] region_Suc [of m b 0] by simp_all
  then have e: "exchange m a b 1 = m[a := m ! b, b := m ! a]" "mapped m a" "mapped m b" by (simp_all add: exchange_def)
  have step: "swapcode_char m a b (Suc n) = (if n > 0 then swapcode_char (exchange m a b 1) (a + 1) (b + 1) n else Some (exchange m a b 1))"
    using e by (simp add: swapcode_char.simps [of m] load_def store_mapped)
  show ?case
  proof (cases "n > 0")
    case True
    have "region m a (1 + n)" "region m b (1 + n)" "apart a (1 + n) b (1 + n)" using Suc.prems by simp_all
    note x = exchange_add [OF this]
    have "swapcode_char (exchange m a b 1) (a + 1) (b + 1) n = Some (exchange (exchange m a b 1) (a + 1) (b + 1) n)"
      using Suc.prems True by (intro Suc.IH) (auto simp: region_Suc apart_def)
    then show ?thesis using True step x by simp
  qed (use step in simp)
qed simp


lemma exchange_word:
  assumes "region m a 4" "region m b 4" "apart a 4 b 4"
  shows "do { t \<leftarrow> load32 m a; u \<leftarrow> load32 m b; m \<leftarrow> store32 m a u; store32 m b t } = Some (exchange m a b 4)"
  using assms by (simp add: load32_region store32_be32 exchange_def slice_4)

lemma swapcode_long_exchange:
  "region m a (4 * n) \<Longrightarrow> region m b (4 * n) \<Longrightarrow> apart a (4 * n) b (4 * n) \<Longrightarrow> 0 < n \<Longrightarrow>
   swapcode_long m a b n = Some (exchange m a b (4 * n))"
proof (induction n arbitrary: m a b)
  case (Suc n)
  have four: "4 * Suc n = 4 + 4 * n" by simp
  have r4: "region m a 4" "region m b 4" "region m (a + 4) (4 * n)" "region m (b + 4) (4 * n)" "apart a 4 b 4"
    "apart (a + 4) (4 * n) (b + 4) (4 * n)"
    using Suc.prems(1-3) unfolding four region_append by (auto simp: apart_def)
  have step: "swapcode_long m a b (Suc n) =
      (if n > 0 then swapcode_long (exchange m a b 4) (a + 4) (b + 4) n else Some (exchange m a b 4))"
    using exchange_word [OF r4(1,2,5)] unfolding swapcode_long.simps [of m a b] by (auto simp: bind_eq_Some_conv)
  show ?case
  proof (cases "n > 0")
    case True
    have x: "exchange (exchange m a b 4) (a + 4) (b + 4) (4 * n) = exchange m a b (4 * Suc n)"
      unfolding four using Suc.prems(1-3) by (intro exchange_add) (simp_all only: four)
    have "swapcode_long (exchange m a b 4) (a + 4) (b + 4) n = Some (exchange (exchange m a b 4) (a + 4) (b + 4) (4 * n))"
      using r4 True by (intro Suc.IH) simp_all
    then show ?thesis using True step x by simp
  qed (use step in simp)
qed simp

lemma swap_elements_exchange:
  assumes "region m a es" "region m b es" "apart a es b es" "0 < es"
  shows "swap_elements m a b es (SWAPINIT base es) = Some (exchange m a b es)"
proof -
  consider "SWAPINIT base es = 0" "es = 4" | "SWAPINIT base es = 1" "es mod 4 = 0" | "SWAPINIT base es = 2"
    unfolding SWAPINIT_def by (cases "base mod 4 \<noteq> 0 \<or> es mod 4 \<noteq> 0"; cases "es = 4") simp_all
  then show ?thesis
  proof cases
    case 1
    then show ?thesis using exchange_word assms by (simp add: swap_elements_def)
  next
    case 2
    then have e: "4 * (es div 4) = es" by auto
    then have "0 < es div 4" using assms(4) by linarith
    from swapcode_long_exchange [of m a "es div 4" b, unfolded e, OF assms(1-3) this] 2
    show ?thesis by (simp add: swap_elements_def swapfunc_def)
  next
    case 3
    then show ?thesis using swapcode_char_exchange assms by (simp add: swap_elements_def swapfunc_def)
  qed
qed

section \<open>The elements of an array\<close>

definition elements :: "byte list \<Rightarrow> addr \<Rightarrow> size_t \<Rightarrow> size_t \<Rightarrow> byte list list" where
  "elements m base n es = map (\<lambda>i. slice m (base + i * es) es) [0..<n]"

lemma element_region:
  assumes "region m base (n * es)" "i < n"
  shows "region m (base + i * es) es"
proof -
  have "n = i + (1 + (n - i - 1))" using assms(2) by simp
  then have "n * es = (i + (1 + (n - i - 1))) * es" by (rule arg_cong)
  then have "n * es = i * es + (es + (n - i - 1) * es)" by (simp only: add_mult_distrib nat_mult_1)
  then show ?thesis using assms(1) region_append [of m base "i * es" "es + (n - i - 1) * es"] region_append [of m "base + i * es" es]
    by simp
qed

lemma element_apart:
  assumes "i \<noteq> j"
  shows "apart (base + i * es) es (base + j * es) es"
proof (cases "i < j")
  case True
  then have "(i + 1) * es \<le> j * es" by (intro mult_le_mono1) simp
  then show ?thesis by (simp add: apart_def)
next
  case False
  then have "(j + 1) * es \<le> i * es" using assms by (intro mult_le_mono1) simp
  then show ?thesis by (simp add: apart_def)
qed

text \<open>C37. Exchanging two elements of an array in memory, by words or by bytes as \<open>SWAPINIT\<close> decides, never faults, exchanges
  exactly these two elements of the list of elements, and changes nothing outside the array.\<close>

theorem swap_elements_correct:
  assumes "region m base (n * es)" "i < n" "j < n" "i \<noteq> j" "0 < es"
  shows "\<exists>m'. swap_elements m (base + i * es) (base + j * es) es (SWAPINIT base es) = Some m' \<and>
    elements m' base n es = swap (elements m base n es) i j \<and>
    (\<forall>x < length m. x < base \<or> base + n * es \<le> x \<longrightarrow> m' ! x = m ! x)"
proof -
  note r = element_region [OF assms(1,2)] element_region [OF assms(1,3)]
  note ap = element_apart [OF assms(4), of base es]
  let ?m = "exchange m (base + i * es) (base + j * es) es"
  have s: "swap_elements m (base + i * es) (base + j * es) es (SWAPINIT base es) = Some ?m"
    using swap_elements_exchange [OF r ap assms(5)] .
  have l: "length (slice m (base + i * es) es) = es" "length (slice m (base + j * es) es) = es"
    using r by (simp_all add: length_slice)
  have e: "slice ?m (base + k * es) es = (if k = i then slice m (base + j * es) es else if k = j then slice m (base + i * es) es
      else slice m (base + k * es) es)" if "k < n" for k
  proof -
    let ?m1 = "put m (base + i * es) (slice m (base + j * es) es)"
    have o: "slice (put m' a xs) (base + k * es) es = slice m' (base + k * es) es" if "a = base + h * es" "length xs = es" "k \<noteq> h" for m' a h xs
      using slice_put_other [of a xs "base + k * es" es m'] element_apart [of h k base es] that by simp
    show ?thesis
    proof (cases "k = j")
      case True
      then show ?thesis using slice_put_same [of ?m1 "base + j * es" "slice m (base + i * es) es"] r l assms(4)
        by (simp add: exchange_def)
    next
      case False
      then have "slice ?m (base + k * es) es = slice ?m1 (base + k * es) es" using o [OF refl l(1)] by (simp add: exchange_def)
      then show ?thesis using False o [OF refl l(2), of i m] slice_put_same [of m "base + i * es" "slice m (base + j * es) es"] r l
        by (cases "k = i") simp_all
    qed
  qed
  have "elements ?m base n es = swap (elements m base n es) i j"
    using assms(2,3) e by (intro nth_equalityI) (auto simp: elements_def nth_swap)
  moreover have "?m ! x = m ! x" if "x < length m" "x < base \<or> base + n * es \<le> x" for x
  proof -
    have "(i + 1) * es \<le> n * es" "(j + 1) * es \<le> n * es" 
      by (rule mult_le_mono1, use assms(2,3) in simp)+
    then show ?thesis using that nth_exchange [OF r ap that(1)] by auto
  qed
  ultimately show ?thesis using s by blast
qed

theorem swap_elements_correct_witness:
  "\<exists>m'. swap_elements [0, 0, 0, 0, 1, 2, 3, 4] 4 6 2 (SWAPINIT 4 2) = Some m' \<and> elements m' 4 2 2 = [[3, 4], [1, 2]]"
proof -
  have "region ([0, 0, 0, 0, 1, 2, 3, 4] :: byte list) 4 (2 * 2)" by (simp add: region_def)
  from swap_elements_correct [OF this, of 0 1] show ?thesis
    by (auto simp: elements_def slice_def swap_def upt_conv_Cons)
qed

end
