(* ===== verification/WmemList.thy ===== *)
theory WmemList
  imports Compare "HOL-Library.Multiset"
begin

text \<open>
  The doubly linked list of \<^verbatim>\<open>src/library/wmem/wmem_list.c\<close>, and the stack and the queue built on it
  (\<^verbatim>\<open>wmem_stack.c\<close>, \<^verbatim>\<open>wmem_queue.h\<close>). Frames live in a store from addresses to frames; an access to an address that
  holds no frame is a fault, \<open>None\<close>, and freeing a frame takes it out of the store. The address of a new frame is an argument.
  The lemmas relate the pointers to the list of the data.
\<close>

section \<open>The operations\<close>

record wmem_list_frame =
  frame_next :: addr
  frame_prev :: addr
  frame_data :: addr

record wmem_list =
  count :: u32
  head :: addr
  tail :: addr
  frames :: "addr \<rightharpoonup> wmem_list_frame"

definition wmem_list_new :: "(addr \<rightharpoonup> wmem_list_frame) \<Rightarrow> wmem_list" where
  "wmem_list_new h = \<lparr>count = 0, head = NULL, tail = NULL, frames = h\<rparr>"

definition wmem_list_count :: "wmem_list \<Rightarrow> u32" where
  "wmem_list_count l = count l"

definition wmem_list_head :: "wmem_list \<Rightarrow> addr" where
  "wmem_list_head l = head l"

definition wmem_list_tail :: "wmem_list \<Rightarrow> addr" where
  "wmem_list_tail l = tail l"

definition wmem_list_frame_next :: "wmem_list \<Rightarrow> addr \<Rightarrow> addr option" where
  "wmem_list_frame_next l frame = do { f \<leftarrow> frames l frame; Some (frame_next f) }"

definition wmem_list_frame_prev :: "wmem_list \<Rightarrow> addr \<Rightarrow> addr option" where
  "wmem_list_frame_prev l frame = do { f \<leftarrow> frames l frame; Some (frame_prev f) }"

definition wmem_list_frame_data :: "wmem_list \<Rightarrow> addr \<Rightarrow> addr option" where
  "wmem_list_frame_data l frame = do { f \<leftarrow> frames l frame; Some (frame_data f) }"

text \<open>\<open>frame->next = v\<close> and \<open>frame->prev = v\<close>.\<close>

definition set_next :: "addr \<Rightarrow> addr \<Rightarrow> wmem_list \<Rightarrow> wmem_list option" where
  "set_next frame v l = do { f \<leftarrow> frames l frame; Some (l\<lparr>frames := (frames l)(frame \<mapsto> f\<lparr>frame_next := v\<rparr>)\<rparr>) }"

definition set_prev :: "addr \<Rightarrow> addr \<Rightarrow> wmem_list \<Rightarrow> wmem_list option" where
  "set_prev frame v l = do { f \<leftarrow> frames l frame; Some (l\<lparr>frames := (frames l)(frame \<mapsto> f\<lparr>frame_prev := v\<rparr>)\<rparr>) }"

definition wmem_list_remove_frame :: "wmem_list \<Rightarrow> addr \<Rightarrow> wmem_list option" where
  "wmem_list_remove_frame l frame = do {
     f \<leftarrow> frames l frame;
     l \<leftarrow> (if frame_prev f \<noteq> NULL then set_next (frame_prev f) (frame_next f) l else Some (l\<lparr>head := frame_next f\<rparr>));
     f \<leftarrow> frames l frame;
     l \<leftarrow> (if frame_next f \<noteq> NULL then set_prev (frame_next f) (frame_prev f) l else Some (l\<lparr>tail := frame_prev f\<rparr>));
     Some (l\<lparr>count := count l - 1, frames := (frames l)(frame := None)\<rparr>) }"

text \<open>The walks follow \<open>next\<close> (\<open>prev\<close>); a walk that does not end is \<open>None\<close> as well.\<close>

partial_function (option) find_loop :: "(addr \<Rightarrow> bool) \<Rightarrow> wmem_list \<Rightarrow> addr \<Rightarrow> addr option" where
  "find_loop P l frame =
     (if frame = NULL then Some NULL
      else do { f \<leftarrow> frames l frame; if P (frame_data f) then Some frame else find_loop P l (frame_next f) })"

definition wmem_list_find :: "wmem_list \<Rightarrow> addr \<Rightarrow> addr option" where
  "wmem_list_find l data = find_loop (\<lambda>d. d = data) l (head l)"

definition wmem_list_find_custom :: "(addr \<Rightarrow> addr \<Rightarrow> int) \<Rightarrow> wmem_list \<Rightarrow> addr \<Rightarrow> addr option" where
  "wmem_list_find_custom compare_func l data = find_loop (\<lambda>d. compare_func d data = 0) l (head l)"

definition wmem_list_remove :: "wmem_list \<Rightarrow> addr \<Rightarrow> wmem_list option" where
  "wmem_list_remove l data = do {
     frame \<leftarrow> find_loop (\<lambda>d. d = data) l (head l);
     if frame = NULL then Some l else wmem_list_remove_frame l frame }"

definition wmem_list_prepend :: "addr \<Rightarrow> wmem_list \<Rightarrow> addr \<Rightarrow> wmem_list option" where
  "wmem_list_prepend new l data = do {
     let l = l\<lparr>frames := (frames l)(new \<mapsto> \<lparr>frame_next = head l, frame_prev = NULL, frame_data = data\<rparr>)\<rparr>;
     l \<leftarrow> (if head l \<noteq> NULL then set_prev (head l) new l else Some (l\<lparr>tail := new\<rparr>));
     Some (l\<lparr>head := new, count := count l + 1\<rparr>) }"

definition wmem_list_append :: "addr \<Rightarrow> wmem_list \<Rightarrow> addr \<Rightarrow> wmem_list option" where
  "wmem_list_append new l data = do {
     let l = l\<lparr>frames := (frames l)(new \<mapsto> \<lparr>frame_next = NULL, frame_prev = tail l, frame_data = data\<rparr>)\<rparr>;
     l \<leftarrow> (if tail l \<noteq> NULL then set_next (tail l) new l else Some (l\<lparr>head := new\<rparr>));
     Some (l\<lparr>tail := new, count := count l + 1\<rparr>) }"

text \<open>\<open>do prev = cur, cur = cur->next while (cur && func(cur->data, data) <= 0)\<close>: the last values of \<open>prev\<close> and \<open>cur\<close>.\<close>

partial_function (option) insert_loop :: "(addr \<Rightarrow> addr \<Rightarrow> int) \<Rightarrow> addr \<Rightarrow> wmem_list \<Rightarrow> addr \<Rightarrow> (addr \<times> addr) option" where
  "insert_loop func data l cur = do {
     f \<leftarrow> frames l cur;
     let prev = cur;
     let cur = frame_next f;
     if cur = NULL then Some (prev, cur)
     else do { f \<leftarrow> frames l cur; if func (frame_data f) data \<le> 0 then insert_loop func data l cur else Some (prev, cur) } }"

definition wmem_list_insert_sorted :: "addr \<Rightarrow> (addr \<Rightarrow> addr \<Rightarrow> int) \<Rightarrow> wmem_list \<Rightarrow> addr \<Rightarrow> wmem_list option" where
  "wmem_list_insert_sorted new func l data = do {
     let l = l\<lparr>frames := (frames l)(new \<mapsto> \<lparr>frame_next = NULL, frame_prev = NULL, frame_data = data\<rparr>), count := count l + 1\<rparr>;
     if head l = NULL then Some (l\<lparr>head := new, tail := new\<rparr>)
     else do {
       f \<leftarrow> frames l (head l);
       if func (frame_data f) data \<ge> 0 then do {
         let cur = head l;
         l \<leftarrow> set_prev cur new l;
         l \<leftarrow> set_next new cur l;
         Some (l\<lparr>head := new\<rparr>) }
       else do {
         (prev, cur) \<leftarrow> insert_loop func data l (head l);
         if cur = NULL then do {
           l \<leftarrow> set_next prev new l;
           l \<leftarrow> set_prev new prev l;
           Some (l\<lparr>tail := new\<rparr>) }
         else do {
           l \<leftarrow> set_prev new prev l;
           l \<leftarrow> set_next new cur l;
           l \<leftarrow> set_next prev new l;
           set_prev cur new l } } } }"

partial_function (option) append_loop :: "(addr \<Rightarrow> addr \<Rightarrow> int) \<Rightarrow> addr \<Rightarrow> wmem_list \<Rightarrow> addr \<Rightarrow> (addr \<times> addr) option" where
  "append_loop func data l cur = do {
     f \<leftarrow> frames l cur;
     let nxt = cur;
     let cur = frame_prev f;
     if cur = NULL then Some (nxt, cur)
     else do { f \<leftarrow> frames l cur; if func (frame_data f) data \<ge> 0 then append_loop func data l cur else Some (nxt, cur) } }"

definition wmem_list_append_sorted :: "addr \<Rightarrow> (addr \<Rightarrow> addr \<Rightarrow> int) \<Rightarrow> wmem_list \<Rightarrow> addr \<Rightarrow> wmem_list option" where
  "wmem_list_append_sorted new func l data = do {
     let l = l\<lparr>frames := (frames l)(new \<mapsto> \<lparr>frame_next = NULL, frame_prev = NULL, frame_data = data\<rparr>), count := count l + 1\<rparr>;
     if head l = NULL then Some (l\<lparr>head := new, tail := new\<rparr>)
     else do {
       f \<leftarrow> frames l (tail l);
       if func (frame_data f) data \<le> 0 then do {
         let cur = tail l;
         l \<leftarrow> set_next cur new l;
         l \<leftarrow> set_prev new cur l;
         Some (l\<lparr>tail := new\<rparr>) }
       else do {
         (nxt, cur) \<leftarrow> append_loop func data l (tail l);
         if cur = NULL then do {
           l \<leftarrow> set_prev nxt new l;
           l \<leftarrow> set_next new nxt l;
           Some (l\<lparr>head := new\<rparr>) }
         else do {
           l \<leftarrow> set_next new nxt l;
           l \<leftarrow> set_prev new cur l;
           l \<leftarrow> set_next cur new l;
           set_prev nxt new l } } } }"

text \<open>The frames \<open>wmem_destroy_list\<close> frees, and the data \<open>wmem_list_foreach\<close> passes on, in order.\<close>

partial_function (option) destroy_loop :: "wmem_list \<Rightarrow> addr \<Rightarrow> wmem_list option" where
  "destroy_loop l cur =
     (if cur = NULL then Some l
      else do { f \<leftarrow> frames l cur; destroy_loop (l\<lparr>frames := (frames l)(cur := None)\<rparr>) (frame_next f) })"

definition wmem_destroy_list :: "wmem_list \<Rightarrow> (addr \<rightharpoonup> wmem_list_frame) option" where
  "wmem_destroy_list l = do { l \<leftarrow> destroy_loop l (head l); Some (frames l) }"

partial_function (option) foreach_loop :: "wmem_list \<Rightarrow> addr \<Rightarrow> addr list option" where
  "foreach_loop l cur =
     (if cur = NULL then Some []
      else do { f \<leftarrow> frames l cur; ds \<leftarrow> foreach_loop l (frame_next f); Some (frame_data f # ds) })"

definition wmem_list_foreach :: "wmem_list \<Rightarrow> addr list option" where
  "wmem_list_foreach l = foreach_loop l (head l)"

text \<open>The stack pushes at the head and the queue at the tail; both pop at the head. \<open>peek\<close> needs a frame.\<close>

definition wmem_stack_peek :: "wmem_list \<Rightarrow> addr option" where
  "wmem_stack_peek l = do { let frame = wmem_list_head l; if frame = NULL then None else wmem_list_frame_data l frame }"

definition wmem_stack_pop :: "wmem_list \<Rightarrow> (addr \<times> wmem_list) option" where
  "wmem_stack_pop l = do { data \<leftarrow> wmem_stack_peek l; l \<leftarrow> wmem_list_remove l data; Some (data, l) }"

definition wmem_stack_push :: "addr \<Rightarrow> wmem_list \<Rightarrow> addr \<Rightarrow> wmem_list option" where
  "wmem_stack_push new l data = wmem_list_prepend new l data"

definition wmem_queue_push :: "addr \<Rightarrow> wmem_list \<Rightarrow> addr \<Rightarrow> wmem_list option" where
  "wmem_queue_push new l data = wmem_list_append new l data"

definition wmem_queue_pop :: "wmem_list \<Rightarrow> (addr \<times> wmem_list) option" where
  "wmem_queue_pop l = wmem_stack_pop l"


section \<open>The list of the data\<close>

text \<open>A chain of frames \<open>(address, data)\<close> between the frame \<open>p\<close> before it and the frame \<open>n\<close> behind it.\<close>

definition first :: "(addr \<times> addr) list \<Rightarrow> addr \<Rightarrow> addr" where
  "first xs n = (case xs of [] \<Rightarrow> n | x # _ \<Rightarrow> fst x)"

definition final :: "(addr \<times> addr) list \<Rightarrow> addr \<Rightarrow> addr" where
  "final xs p = (if xs = [] then p else fst (last xs))"

primrec seg :: "(addr \<rightharpoonup> wmem_list_frame) \<Rightarrow> addr \<Rightarrow> (addr \<times> addr) list \<Rightarrow> addr \<Rightarrow> bool" where
  "seg h p [] n \<longleftrightarrow> True"
| "seg h p (x # xs) n \<longleftrightarrow>
     h (fst x) = Some \<lparr>frame_next = first xs n, frame_prev = p, frame_data = snd x\<rparr> \<and> seg h (fst x) xs n"

definition is_list :: "wmem_list \<Rightarrow> (addr \<times> addr) list \<Rightarrow> bool" where
  "is_list l xs \<longleftrightarrow> seg (frames l) NULL xs NULL \<and> head l = first xs NULL \<and> tail l = final xs NULL \<and>
     count l = of_nat (length xs) \<and> distinct (map fst xs) \<and> NULL \<notin> fst ` set xs"

lemma first_simps [simp]: "first [] n = n" "first (x # xs) n = fst x" "first (xs @ ys) n = first xs (first ys n)"
  by (simp_all add: first_def split: list.splits)

lemma final_simps [simp]: "final [] p = p" "final (x # xs) p = final xs (fst x)" "final (xs @ ys) p = final ys (final xs p)"
  by (simp_all add: final_def)

lemma first_mem: "xs \<noteq> [] \<Longrightarrow> first xs n \<in> fst ` set xs"
  by (cases xs) auto

lemma final_mem: "xs \<noteq> [] \<Longrightarrow> final xs p \<in> fst ` set xs"
  by (auto simp: final_def)

lemma seg_append: "seg h p (xs @ ys) n \<longleftrightarrow> seg h p xs (first ys n) \<and> seg h (final xs p) ys n"
  by (induction xs arbitrary: p) auto

lemma seg_other: "a \<notin> fst ` set xs \<Longrightarrow> seg (h(a := v)) p xs n = seg h p xs n"
  by (induction xs arbitrary: p) auto

lemma seg_set_next:
  assumes "seg h p xs n" "xs \<noteq> []" "distinct (map fst xs)"
  shows "\<exists>f. h (final xs p) = Some f \<and> seg (h(final xs p \<mapsto> f\<lparr>frame_next := n'\<rparr>)) p xs n'"
proof -
  obtain us x where xs: "xs = us @ [x]" using assms(2) by (metis rev_exhaust)
  have d: "fst x \<notin> fst ` set us" using assms(3) by (auto simp: xs)
  have s: "seg h p us (fst x)" "h (fst x) = Some \<lparr>frame_next = n, frame_prev = final us p, frame_data = snd x\<rparr>"
    using assms(1) by (simp_all add: xs seg_append)
  show ?thesis using s d by (simp add: xs seg_append seg_other)
qed

lemma seg_set_prev:
  assumes "seg h p xs n" "xs \<noteq> []" "distinct (map fst xs)"
  shows "\<exists>f. h (first xs m) = Some f \<and> seg (h(first xs m \<mapsto> f\<lparr>frame_prev := p'\<rparr>)) p' xs n"
  using assms by (cases xs) (auto simp: seg_other)

text \<open>Linking two chains: \<open>xs\<close> gets \<open>n\<close> behind it if it is not empty, \<open>ys\<close> gets \<open>p\<close> before it.\<close>

lemma link_next:
  assumes "seg (frames l) p xs n" "distinct (map fst xs)" "xs \<noteq> []" "a = final xs p"
  obtains l' where "set_next a n' l = Some l'" "seg (frames l') p xs n'" "head l' = head l" "tail l' = tail l" "count l' = count l"
    "\<And>b. b \<noteq> a \<Longrightarrow> frames l' b = frames l b"
  using seg_set_next [OF assms(1,3,2), of n'] assms(4) by (auto simp: set_next_def)

lemma link_prev:
  assumes "seg (frames l) p xs n" "distinct (map fst xs)" "xs \<noteq> []" "a = first xs m"
  obtains l' where "set_prev a p' l = Some l'" "seg (frames l') p' xs n" "head l' = head l" "tail l' = tail l" "count l' = count l"
    "\<And>b. b \<noteq> a \<Longrightarrow> frames l' b = frames l b"
  using seg_set_prev [OF assms(1,3,2), of m p'] assms(4) by (auto simp: set_prev_def)

lemma seg_cong: "(\<And>a. a \<in> fst ` set xs \<Longrightarrow> h a = h' a) \<Longrightarrow> seg h p xs n = seg h' p xs n"
  by (induction xs arbitrary: p) auto

section \<open>Removing\<close>

lemma remove_frame_list:
  assumes "is_list l (xs @ (a, d) # ys)"
  obtains l' where "wmem_list_remove_frame l a = Some l'" "is_list l' (xs @ ys)" "frames l' a = None"
proof -
  let ?p = "final xs NULL" and ?n = "first ys NULL"
  have i: "seg (frames l) NULL xs a" "seg (frames l) a ys NULL" "head l = first xs a" "tail l = final ys a"
    "count l = of_nat (length xs + length ys) + 1" "distinct (map fst xs)" "distinct (map fst ys)" "a \<noteq> NULL"
    and f: "frames l a = Some \<lparr>frame_next = ?n, frame_prev = ?p, frame_data = d\<rparr>"
    and o: "a \<notin> fst ` set xs" "a \<notin> fst ` set ys" "fst ` set xs \<inter> fst ` set ys = {}" "NULL \<notin> fst ` set xs" "NULL \<notin> fst ` set ys"
    using assms by (auto simp: is_list_def seg_append ac_simps)
  have p: "?p = NULL \<longleftrightarrow> xs = []" "?n = NULL \<longleftrightarrow> ys = []" using o final_mem [of xs NULL] first_mem [of ys NULL] by auto
  obtain l1 where l1: "(if ?p \<noteq> NULL then set_next ?p ?n l else Some (l\<lparr>head := ?n\<rparr>)) = Some l1"
    "seg (frames l1) NULL xs ?n" "head l1 = first xs ?n" "tail l1 = tail l" "count l1 = count l" "\<And>b. b \<notin> fst ` set xs \<Longrightarrow> frames l1 b = frames l b"
  proof (cases "xs = []")
    case False
    obtain l1 where a: "set_next ?p ?n l = Some l1" "seg (frames l1) NULL xs ?n" "head l1 = head l" "tail l1 = tail l"
      "count l1 = count l" "\<And>b. b \<noteq> ?p \<Longrightarrow> frames l1 b = frames l b"
      using link_next [OF i(1,6) False refl, of ?n] by blast
    have "first xs a = first xs ?n" using False by (cases xs) simp_all
    moreover have "frames l1 b = frames l b" if "b \<notin> fst ` set xs" for b using a(6) final_mem [OF False, of NULL] that by metis
    ultimately show ?thesis using that [of l1] a False p i(3) by simp
  next
    case True
    then show ?thesis using that [of "l\<lparr>head := ?n\<rparr>"] by simp
  qed
  have s1: "seg (frames l1) a ys NULL" using i(2) l1(6) o(3) seg_cong [of ys "frames l1" "frames l"] by blast
  have f1: "frames l1 a = Some \<lparr>frame_next = ?n, frame_prev = ?p, frame_data = d\<rparr>" using f l1(6) o(1) by simp
  obtain l2 where l2: "(if ?n \<noteq> NULL then set_prev ?n ?p l1 else Some (l1\<lparr>tail := ?p\<rparr>)) = Some l2"
    "seg (frames l2) ?p ys NULL" "head l2 = head l1" "tail l2 = final ys ?p" "count l2 = count l1" "\<And>b. b \<notin> fst ` set ys \<Longrightarrow> frames l2 b = frames l1 b"
  proof (cases "ys = []")
    case False
    obtain l2 where a: "set_prev ?n ?p l1 = Some l2" "seg (frames l2) ?p ys NULL" "head l2 = head l1" "tail l2 = tail l1"
      "count l2 = count l1" "\<And>b. b \<noteq> ?n \<Longrightarrow> frames l2 b = frames l1 b"
      using link_prev [OF s1 i(7) False refl, of NULL ?p] by blast
    have "final ys a = final ys ?p" using False by (simp add: final_def)
    moreover have "frames l2 b = frames l1 b" if "b \<notin> fst ` set ys" for b using a(6) first_mem [OF False, of NULL] that by metis
    ultimately show ?thesis using that [of l2] a False p i(4) l1(4) by simp
  next
    case True
    then show ?thesis using that [of "l1\<lparr>tail := ?p\<rparr>"] by simp
  qed
  have s2: "seg (frames l2) NULL xs ?n" using l1(2) l2(6) o(3) seg_cong [of xs "frames l2" "frames l1"] by blast
  let ?l = "l2\<lparr>count := count l2 - 1, frames := (frames l2)(a := None)\<rparr>"
  have "wmem_list_remove_frame l a = Some ?l"
    unfolding wmem_list_remove_frame_def f bind.bind_lunit wmem_list_frame.select_convs l1(1) f1 l2(1) ..
  moreover have "is_list ?l (xs @ ys)"
    using s2 l2(2-5) l1(3,5) i(5-7) o by (auto simp: is_list_def seg_append seg_other)
  ultimately show thesis using that by simp
qed


section \<open>Walking\<close>

lemma find_loop_seg:
  "seg (frames l) p xs NULL \<Longrightarrow> NULL \<notin> fst ` set xs \<Longrightarrow>
   find_loop P l (first xs NULL) = Some (case List.find (\<lambda>x. P (snd x)) xs of Some x \<Rightarrow> fst x | None \<Rightarrow> NULL)"
proof (induction xs arbitrary: p)
  case (Cons x xs)
  then show ?case using Cons.IH [of "fst x"] by (auto simp: find_loop.simps [of P l "fst x"])
qed (simp add: find_loop.simps)

lemma foreach_loop_seg:
  "seg (frames l) p xs NULL \<Longrightarrow> NULL \<notin> fst ` set xs \<Longrightarrow> foreach_loop l (first xs NULL) = Some (map snd xs)"
proof (induction xs arbitrary: p)
  case (Cons x xs)
  then show ?case using Cons.IH [of "fst x"] by (auto simp: foreach_loop.simps [of l "fst x"])
qed (simp add: foreach_loop.simps)

lemma destroy_loop_seg:
  "seg (frames l) p xs NULL \<Longrightarrow> NULL \<notin> fst ` set xs \<Longrightarrow> distinct (map fst xs) \<Longrightarrow>
   \<exists>l'. destroy_loop l (first xs NULL) = Some l' \<and> frames l' = (\<lambda>a. if a \<in> fst ` set xs then None else frames l a)"
proof (induction xs arbitrary: p l)
  case (Cons x xs)
  let ?l = "l\<lparr>frames := (frames l)(fst x := None)\<rparr>"
  have c: "seg (frames ?l) (fst x) xs NULL" "NULL \<notin> fst ` set xs" "distinct (map fst xs)" using Cons.prems by (simp_all add: seg_other)
  obtain l' where "destroy_loop ?l (first xs NULL) = Some l'" "frames l' = (\<lambda>a. if a \<in> fst ` set xs then None else frames ?l a)"
    using Cons.IH [OF c] by blast
  moreover have "destroy_loop l (first (x # xs) NULL) = destroy_loop ?l (first xs NULL)"
    using Cons.prems by (simp add: destroy_loop.simps [of l "fst x"])
  ultimately show ?case by auto
qed (simp add: destroy_loop.simps)

lemma find_SomeE:
  assumes "List.find P xs = Some x"
  obtains us vs where "xs = us @ x # vs" "P x" "\<forall>y \<in> set us. \<not> P y"
proof -
  have f: "List.find P (us @ y # vs) = Some y" if "\<forall>z \<in> set us. \<not> P z" "P y" for us y vs
    using that by (induction us) auto
  have "\<exists>y \<in> set xs. P y" using assms by (auto simp: find_Some_iff)
  then obtain us y vs where "xs = us @ y # vs" "P y" "\<forall>z \<in> set us. \<not> P z" using split_list_first_prop [of xs P] by blast
  then show thesis using that [of us vs] f assms by auto
qed

lemma remove_list:
  assumes "is_list l xs"
  obtains l' xs' where "wmem_list_remove l data = Some l'" "is_list l' xs'" "map snd xs' = remove1 data (map snd xs)" "set xs' \<subseteq> set xs"
proof -
  have f: "find_loop (\<lambda>d. d = data) l (head l) = Some (case List.find (\<lambda>x. snd x = data) xs of Some x \<Rightarrow> fst x | None \<Rightarrow> NULL)"
    using assms find_loop_seg [of l NULL xs] by (simp add: is_list_def)
  show thesis
  proof (cases "List.find (\<lambda>x. snd x = data) xs")
    case None
    then have "remove1 data (map snd xs) = map snd xs" by (intro remove1_idem) (auto simp: find_None_iff)
    then show ?thesis using that [of l xs] None f assms by (simp add: wmem_list_remove_def)
  next
    case (Some x)
    then obtain us vs where xs: "xs = us @ x # vs" "snd x = data" "\<forall>y \<in> set us. snd y \<noteq> data"
      by (rule find_SomeE)
    have "is_list l (us @ (fst x, snd x) # vs)" using assms xs(1) by simp
    then obtain l' where l': "wmem_list_remove_frame l (fst x) = Some l'" "is_list l' (us @ vs)"
      using remove_frame_list by blast
    have "fst x \<noteq> NULL" using assms xs(1) by (auto simp: is_list_def)
    moreover have "map snd (us @ vs) = remove1 data (map snd xs)"
      using xs by (auto simp: remove1_append)
    ultimately show ?thesis using that [of l' "us @ vs"] l' Some f xs(1) by (auto simp: wmem_list_remove_def)
  qed
qed

section \<open>Inserting\<close>

definition fresh :: "addr \<Rightarrow> wmem_list \<Rightarrow> bool" where
  "fresh new l \<longleftrightarrow> new \<noteq> NULL \<and> frames l new = None"

lemma seg_dom: "seg h p xs n \<Longrightarrow> fst ` set xs \<subseteq> dom h"
  by (induction xs arbitrary: p) auto

lemma fresh_notin: "fresh new l \<Longrightarrow> is_list l xs \<Longrightarrow> new \<notin> fst ` set xs"
  using seg_dom by (fastforce simp: fresh_def is_list_def)

text \<open>The store with the new frame, and then the links of both neighbours to it, where there are any.\<close>

lemma link_left:
  assumes "seg (frames l) NULL xs n" "distinct (map fst xs)" "NULL \<notin> fst ` set xs"
  obtains l' where "(if xs = [] then Some l else set_next (final xs NULL) n' l) = Some l'" "seg (frames l') NULL xs n'"
    "head l' = head l" "tail l' = tail l" "count l' = count l" "\<And>b. b \<notin> fst ` set xs \<Longrightarrow> frames l' b = frames l b"
proof (cases "xs = []")
  case False
  obtain l' where a: "set_next (final xs NULL) n' l = Some l'" "seg (frames l') NULL xs n'" "head l' = head l" "tail l' = tail l"
    "count l' = count l" "\<And>b. b \<noteq> final xs NULL \<Longrightarrow> frames l' b = frames l b"
    using link_next [OF assms(1,2) False refl, of n'] by blast
  have "frames l' b = frames l b" if "b \<notin> fst ` set xs" for b using a(6) final_mem [OF False, of NULL] that by metis
  then show ?thesis using that [of l'] a False by simp
qed (use that in simp)

lemma link_right:
  assumes "seg (frames l) p ys NULL" "distinct (map fst ys)" "NULL \<notin> fst ` set ys"
  obtains l' where "(if ys = [] then Some l else set_prev (first ys NULL) p' l) = Some l'" "seg (frames l') p' ys NULL"
    "head l' = head l" "tail l' = tail l" "count l' = count l" "\<And>b. b \<notin> fst ` set ys \<Longrightarrow> frames l' b = frames l b"
proof (cases "ys = []")
  case False
  obtain l' where a: "set_prev (first ys NULL) p' l = Some l'" "seg (frames l') p' ys NULL" "head l' = head l" "tail l' = tail l"
    "count l' = count l" "\<And>b. b \<noteq> first ys NULL \<Longrightarrow> frames l' b = frames l b"
    using link_prev [OF assms(1,2) False refl, of NULL p'] by blast
  have "frames l' b = frames l b" if "b \<notin> fst ` set ys" for b using a(6) first_mem [OF False, of NULL] that by metis
  then show ?thesis using that [of l'] a False by simp
qed (use that in simp)

lemma splice:
  assumes i: "is_list l (xs @ ys)" and new: "fresh new l"
    and l0: "frames l0 = (frames l)(new \<mapsto> \<lparr>frame_next = first ys NULL, frame_prev = final xs NULL, frame_data = d\<rparr>)"
  obtains l1 l2 where "(if xs = [] then Some l0 else set_next (final xs NULL) new l0) = Some l1"
    "(if ys = [] then Some l1 else set_prev (first ys NULL) new l1) = Some l2"
    "head l1 = head l0" "tail l1 = tail l0" "count l1 = count l0" "head l2 = head l0" "tail l2 = tail l0" "count l2 = count l0"
    "is_list (l2\<lparr>head := first xs new, tail := final ys new, count := count l + 1\<rparr>) (xs @ (new, d) # ys)"
proof -
  have s: "seg (frames l) NULL xs (first ys NULL)" "seg (frames l) (final xs NULL) ys NULL"
    "distinct (map fst xs)" "distinct (map fst ys)" "NULL \<notin> fst ` set xs" "NULL \<notin> fst ` set ys" "fst ` set xs \<inter> fst ` set ys = {}"
    "count l = of_nat (length xs + length ys)"
    using i by (auto simp: is_list_def seg_append)
  have n: "new \<notin> fst ` set xs" "new \<notin> fst ` set ys" "new \<noteq> NULL" using fresh_notin [OF new i] new by (auto simp: fresh_def)
  have "seg (frames l0) NULL xs (first ys NULL)" using s(1) n(1) by (simp add: l0 seg_other)
  from link_left [OF this s(3,5), of new] obtain l1 where
    l1: "(if xs = [] then Some l0 else set_next (final xs NULL) new l0) = Some l1" "seg (frames l1) NULL xs new" "head l1 = head l0"
      "tail l1 = tail l0" "count l1 = count l0" "\<And>b. b \<notin> fst ` set xs \<Longrightarrow> frames l1 b = frames l0 b" by blast
  have "seg (frames l0) (final xs NULL) ys NULL" using s(2) n(2) by (simp add: l0 seg_other)
  then have "seg (frames l1) (final xs NULL) ys NULL" using l1(6) s(7) seg_cong [of ys "frames l1" "frames l0"] by blast
  from link_right [OF this s(4,6), of new] obtain l2 where
    l2: "(if ys = [] then Some l1 else set_prev (first ys NULL) new l1) = Some l2" "seg (frames l2) new ys NULL" "head l2 = head l1"
      "tail l2 = tail l1" "count l2 = count l1" "\<And>b. b \<notin> fst ` set ys \<Longrightarrow> frames l2 b = frames l1 b" by blast
  have "seg (frames l2) NULL xs new" using l1(2) l2(6) s(7) seg_cong [of xs "frames l2" "frames l1"] by blast
  moreover have "frames l2 new = Some \<lparr>frame_next = first ys NULL, frame_prev = final xs NULL, frame_data = d\<rparr>"
    using l2(6) l1(6) n by (simp add: l0)
  ultimately have "is_list (l2\<lparr>head := first xs new, tail := final ys new, count := count l + 1\<rparr>) (xs @ (new, d) # ys)"
    using l2(2) s n by (auto simp: is_list_def seg_append)
  then show thesis using that [OF l1(1) l2(1)] l1(3-5) l2(3-5) by simp
qed


lemma first_NULL: "is_list l xs \<Longrightarrow> first xs NULL = NULL \<longleftrightarrow> xs = []"
  using first_mem [of xs NULL] by (cases "xs = []") (simp, metis is_list_def)

lemma final_NULL: "is_list l xs \<Longrightarrow> final xs NULL = NULL \<longleftrightarrow> xs = []"
  using final_mem [of xs NULL] by (cases "xs = []") (simp, metis is_list_def)

lemma final_any: "xs \<noteq> [] \<Longrightarrow> final xs p = final xs q" and first_any: "xs \<noteq> [] \<Longrightarrow> first xs p = first xs q"
  by (auto simp: final_def first_def split: list.splits)

lemma prepend_list:
  assumes i: "is_list l xs" and new: "fresh new l"
  obtains l' where "wmem_list_prepend new l data = Some l'" "is_list l' ((new, data) # xs)"
proof -
  let ?l0 = "l\<lparr>frames := (frames l)(new \<mapsto> \<lparr>frame_next = head l, frame_prev = NULL, frame_data = data\<rparr>)\<rparr>"
  have h: "head l = first xs NULL" "tail l = final xs NULL" using i by (simp_all add: is_list_def)
  obtain l2 where l2: "(if xs = [] then Some ?l0 else set_prev (first xs NULL) new ?l0) = Some l2"
    "head l2 = head l" "tail l2 = tail l" "count l2 = count l"
    "is_list (l2\<lparr>head := new, tail := final xs new, count := count l + 1\<rparr>) ((new, data) # xs)"
  proof -
    have i': "is_list l ([] @ xs)" using i by simp
    have f: "frames ?l0 = (frames l)(new \<mapsto> \<lparr>frame_next = first xs NULL, frame_prev = final [] NULL, frame_data = data\<rparr>)"
      using h by simp
    show thesis by (rule splice [OF i' new f], rule that) auto
  qed
  show thesis
  proof (cases "xs = []")
    case True
    then have "l2 = ?l0" using l2(1) by simp
    then show thesis using that [of "l2\<lparr>head := new, tail := final xs new, count := count l + 1\<rparr>"] True l2(5) h
      by (simp add: wmem_list_prepend_def)
  next
    case False
    then have "set_prev (first xs NULL) new ?l0 = Some l2" "first xs NULL \<noteq> NULL" using l2(1) first_NULL [OF i] by simp_all
    then have "wmem_list_prepend new l data = Some (l2\<lparr>head := new, count := count l2 + 1\<rparr>)"
      using h by (simp add: wmem_list_prepend_def)
    moreover have "l2\<lparr>head := new, count := count l2 + 1\<rparr> = l2\<lparr>head := new, tail := final xs new, count := count l + 1\<rparr>"
      using l2(3,4) h(2) final_any [OF False] by simp
    ultimately show thesis using that l2(5) by simp
  qed
qed

lemma append_list:
  assumes i: "is_list l xs" and new: "fresh new l"
  obtains l' where "wmem_list_append new l data = Some l'" "is_list l' (xs @ [(new, data)])"
proof -
  let ?l0 = "l\<lparr>frames := (frames l)(new \<mapsto> \<lparr>frame_next = NULL, frame_prev = tail l, frame_data = data\<rparr>)\<rparr>"
  have h: "head l = first xs NULL" "tail l = final xs NULL" using i by (simp_all add: is_list_def)
  obtain l2 where l2: "(if xs = [] then Some ?l0 else set_next (final xs NULL) new ?l0) = Some l2"
    "head l2 = head l" "tail l2 = tail l" "count l2 = count l"
    "is_list (l2\<lparr>head := first xs new, tail := new, count := count l + 1\<rparr>) (xs @ [(new, data)])"
  proof -
    have i': "is_list l (xs @ [])" using i by simp
    have f: "frames ?l0 = (frames l)(new \<mapsto> \<lparr>frame_next = first [] NULL, frame_prev = final xs NULL, frame_data = data\<rparr>)"
      using h by simp
    show thesis by (rule splice [OF i' new f], rule that) auto
  qed
  show thesis
  proof (cases "xs = []")
    case True
    then have "l2 = ?l0" using l2(1) by simp
    then show thesis using that [of "l2\<lparr>head := first xs new, tail := new, count := count l + 1\<rparr>"] True l2(5) h
      by (simp add: wmem_list_append_def)
  next
    case False
    then have "set_next (final xs NULL) new ?l0 = Some l2" "final xs NULL \<noteq> NULL" using l2(1) final_NULL [OF i] by simp_all
    then have "wmem_list_append new l data = Some (l2\<lparr>tail := new, count := count l2 + 1\<rparr>)"
      using h by (simp add: wmem_list_append_def)
    moreover have "l2\<lparr>tail := new, count := count l2 + 1\<rparr> = l2\<lparr>head := first xs new, tail := new, count := count l + 1\<rparr>"
      using l2(2,4) h(1) first_any [OF False] by simp
    ultimately show thesis using that l2(5) by simp
  qed
qed


section \<open>Sorted insertion\<close>

lemma insert_loop_seg:
  "seg (frames l) p (x # xs) NULL \<Longrightarrow> NULL \<notin> fst ` set (x # xs) \<Longrightarrow>
   insert_loop func data l (fst x) =
     Some (final (takeWhile (\<lambda>y. func (snd y) data \<le> 0) xs) (fst x), first (dropWhile (\<lambda>y. func (snd y) data \<le> 0) xs) NULL)"
proof (induction xs arbitrary: p x)
  case Nil
  then show ?case by (simp add: insert_loop.simps [of func data l "fst x"])
next
  case (Cons y ys)
  have "seg (frames l) (fst x) (y # ys) NULL" "NULL \<notin> fst ` set (y # ys)" using Cons.prems by simp_all
  note IH = Cons.IH [OF this]
  show ?case using Cons.prems IH by (simp add: insert_loop.simps [of func data l "fst x"])
qed

lemma append_loop_seg:
  "seg (frames l) NULL (xs @ [x]) n \<Longrightarrow> NULL \<notin> fst ` set (xs @ [x]) \<Longrightarrow>
   append_loop func data l (fst x) =
     Some (first (rev (takeWhile (\<lambda>y. func (snd y) data \<ge> 0) (rev xs))) (fst x),
           final (rev (dropWhile (\<lambda>y. func (snd y) data \<ge> 0) (rev xs))) NULL)"
proof (induction xs arbitrary: x n rule: rev_induct)
  case Nil
  then show ?case by (simp add: append_loop.simps [of func data l "fst x"])
next
  case (snoc y ys)
  have s: "seg (frames l) NULL (ys @ [y]) (fst x)" "NULL \<notin> fst ` set (ys @ [y])"
    using snoc.prems seg_append [of "frames l" NULL "ys @ [y]" "[x]" n] by simp_all
  have f: "frames l (fst x) = Some \<lparr>frame_next = n, frame_prev = fst y, frame_data = snd x\<rparr>"
    "frames l (fst y) = Some \<lparr>frame_next = fst x, frame_prev = final ys NULL, frame_data = snd y\<rparr>" "fst y \<noteq> NULL"
    using snoc.prems by (simp_all add: seg_append)
  note IH = snoc.IH [OF s]
  show ?case using f IH by (simp add: append_loop.simps [of func data l "fst x"])
qed

lemma set_commute: "a \<noteq> b \<Longrightarrow> Option.bind (set_prev a v l) (set_next b w) = Option.bind (set_next b w l) (set_prev a v)"
  by (cases "frames l a"; cases "frames l b") (auto simp: set_prev_def set_next_def fun_upd_twist)

text \<open>Where \<open>wmem_list_insert_sorted\<close> and \<open>wmem_list_append_sorted\<close> put a new element.\<close>

definition sorted_place :: "(addr \<Rightarrow> addr \<Rightarrow> int) \<Rightarrow> addr \<times> addr \<Rightarrow> (addr \<times> addr) list \<Rightarrow> (addr \<times> addr) list" where
  "sorted_place func e xs =
     (case xs of [] \<Rightarrow> [e]
      | x # ys \<Rightarrow> if func (snd x) (snd e) \<ge> 0 then e # xs
          else x # takeWhile (\<lambda>y. func (snd y) (snd e) \<le> 0) ys @ e # dropWhile (\<lambda>y. func (snd y) (snd e) \<le> 0) ys)"

definition sorted_place_end :: "(addr \<Rightarrow> addr \<Rightarrow> int) \<Rightarrow> addr \<times> addr \<Rightarrow> (addr \<times> addr) list \<Rightarrow> (addr \<times> addr) list" where
  "sorted_place_end func e xs =
     (if xs = [] then [e] else if func (snd (last xs)) (snd e) \<le> 0 then xs @ [e]
      else rev (dropWhile (\<lambda>y. func (snd y) (snd e) \<ge> 0) (rev (butlast xs))) @ e #
           rev (takeWhile (\<lambda>y. func (snd y) (snd e) \<ge> 0) (rev (butlast xs))) @ [last xs])"

lemma insert_splice:
  assumes i: "is_list l (xs @ ys)" and new: "fresh new l" and ne: "xs \<noteq> [] \<or> ys \<noteq> []"
    and l0: "l0 = l\<lparr>frames := (frames l)(new \<mapsto> \<lparr>frame_next = NULL, frame_prev = NULL, frame_data = d\<rparr>), count := count l + 1\<rparr>"
  shows "xs = [] \<Longrightarrow> \<exists>l'. Option.bind (set_prev (first ys NULL) new l0) (\<lambda>l. Option.bind (set_next new (first ys NULL) l)
      (\<lambda>l. Some (l\<lparr>head := new\<rparr>))) = Some l' \<and> is_list l' ((new, d) # ys)"
    and "ys = [] \<Longrightarrow> \<exists>l'. Option.bind (set_next (final xs NULL) new l0) (\<lambda>l. Option.bind (set_prev new (final xs NULL) l)
      (\<lambda>l. Some (l\<lparr>tail := new\<rparr>))) = Some l' \<and> is_list l' (xs @ [(new, d)])"
    and "xs \<noteq> [] \<Longrightarrow> ys \<noteq> [] \<Longrightarrow> \<exists>l'. Option.bind (set_prev new (final xs NULL) l0) (\<lambda>l. Option.bind (set_next new (first ys NULL) l)
      (\<lambda>l. Option.bind (set_next (final xs NULL) new l) (set_prev (first ys NULL) new))) = Some l' \<and> is_list l' (xs @ (new, d) # ys)"
    and "xs \<noteq> [] \<Longrightarrow> ys \<noteq> [] \<Longrightarrow> \<exists>l'. Option.bind (set_next new (first ys NULL) l0) (\<lambda>l. Option.bind (set_prev new (final xs NULL) l)
      (\<lambda>l. Option.bind (set_next (final xs NULL) new l) (set_prev (first ys NULL) new))) = Some l' \<and> is_list l' (xs @ (new, d) # ys)"
proof -
  let ?lp = "l\<lparr>frames := (frames l)(new \<mapsto> \<lparr>frame_next = NULL, frame_prev = final xs NULL, frame_data = d\<rparr>), count := count l + 1\<rparr>"
  let ?ln = "l\<lparr>frames := (frames l)(new \<mapsto> \<lparr>frame_next = first ys NULL, frame_prev = NULL, frame_data = d\<rparr>), count := count l + 1\<rparr>"
  let ?l1 = "l\<lparr>frames := (frames l)(new \<mapsto> \<lparr>frame_next = first ys NULL, frame_prev = final xs NULL, frame_data = d\<rparr>), count := count l + 1\<rparr>"
  have s: "set_prev new (final xs NULL) l0 = Some ?lp" "set_next new (first ys NULL) l0 = Some ?ln"
    "set_next new (first ys NULL) ?lp = Some ?l1" "set_prev new (final xs NULL) ?ln = Some ?l1"
    by (simp_all add: l0 set_prev_def set_next_def)
  have n: "new \<notin> fst ` set xs" "new \<notin> fst ` set ys" using fresh_notin [OF new i] by auto
  have ht: "head l = first xs (first ys NULL)" "tail l = final ys (final xs NULL)" using i by (simp_all add: is_list_def)
  have f: "frames ?l1 = (frames l)(new \<mapsto> \<lparr>frame_next = first ys NULL, frame_prev = final xs NULL, frame_data = d\<rparr>)" by simp
  obtain l1 l2 where l1: "(if xs = [] then Some ?l1 else set_next (final xs NULL) new ?l1) = Some l1"
    and l2: "(if ys = [] then Some l1 else set_prev (first ys NULL) new l1) = Some l2"
      "head l2 = head l" "tail l2 = tail l" "count l2 = count l + 1" "head l1 = head l" "tail l1 = tail l" "count l1 = count l + 1"
    and r: "is_list (l2\<lparr>head := first xs new, tail := final ys new, count := count l + 1\<rparr>) (xs @ (new, d) # ys)"
    by (rule splice [OF i new f]) simp
  show "\<exists>l'. Option.bind (set_prev (first ys NULL) new l0) (\<lambda>l. Option.bind (set_next new (first ys NULL) l)
      (\<lambda>l. Some (l\<lparr>head := new\<rparr>))) = Some l' \<and> is_list l' ((new, d) # ys)" if e: "xs = []"
  proof -
    have y: "ys \<noteq> []" using ne e by simp
    then have "first ys NULL \<noteq> new" using first_mem [OF y, of NULL] n by auto
    have "Option.bind (set_prev (first ys NULL) new l0) (set_next new (first ys NULL)) = Some l2"
      using set_commute [OF \<open>first ys NULL \<noteq> new\<close>, of new l0 "first ys NULL"] s(2) l1 l2(1) e y by simp
    moreover have "l2\<lparr>head := new\<rparr> = l2\<lparr>head := first xs new, tail := final ys new, count := count l + 1\<rparr>"
      using l2(3,4) ht(2) final_any [OF y] e by simp
    ultimately show ?thesis using r e by (auto simp: bind_eq_Some_conv)
  qed
  show "\<exists>l'. Option.bind (set_next (final xs NULL) new l0) (\<lambda>l. Option.bind (set_prev new (final xs NULL) l)
      (\<lambda>l. Some (l\<lparr>tail := new\<rparr>))) = Some l' \<and> is_list l' (xs @ [(new, d)])" if e: "ys = []"
  proof -
    have x: "xs \<noteq> []" using ne e by simp
    then have "new \<noteq> final xs NULL" using final_mem [OF x, of NULL] n by auto
    have "Option.bind (set_next (final xs NULL) new l0) (set_prev new (final xs NULL)) = Some l2"
      using set_commute [OF \<open>new \<noteq> final xs NULL\<close>, of "final xs NULL" l0 new] s(1) l1 l2(1) e x by simp
    moreover have "l2\<lparr>tail := new\<rparr> = l2\<lparr>head := first xs new, tail := final ys new, count := count l + 1\<rparr>"
      using l2(2,4) ht(1) first_any [OF x] e by simp
    ultimately show ?thesis using r e by (auto simp: bind_eq_Some_conv)
  qed
  have m: "is_list l2 (xs @ (new, d) # ys)" if "xs \<noteq> []" "ys \<noteq> []"
  proof -
    have "l2 = l2\<lparr>head := first xs new, tail := final ys new, count := count l + 1\<rparr>"
      using l2(2-4) ht first_any [OF that(1)] final_any [OF that(2)] by simp
    then show ?thesis using r by simp
  qed
  show "\<exists>l'. Option.bind (set_prev new (final xs NULL) l0) (\<lambda>l. Option.bind (set_next new (first ys NULL) l)
      (\<lambda>l. Option.bind (set_next (final xs NULL) new l) (set_prev (first ys NULL) new))) = Some l' \<and> is_list l' (xs @ (new, d) # ys)"
    if "xs \<noteq> []" "ys \<noteq> []" using that l1 l2(1) m s by simp
  show "\<exists>l'. Option.bind (set_next new (first ys NULL) l0) (\<lambda>l. Option.bind (set_prev new (final xs NULL) l)
      (\<lambda>l. Option.bind (set_next (final xs NULL) new l) (set_prev (first ys NULL) new))) = Some l' \<and> is_list l' (xs @ (new, d) # ys)"
    if "xs \<noteq> []" "ys \<noteq> []" using that l1 l2(1) m s by simp
qed


lemma first_eq_NULL: "NULL \<notin> fst ` set xs \<Longrightarrow> first xs NULL = NULL \<longleftrightarrow> xs = []"
  by (cases xs) auto

lemma final_eq_NULL: "NULL \<notin> fst ` set xs \<Longrightarrow> final xs NULL = NULL \<longleftrightarrow> xs = []"
  using final_mem [of xs NULL] by (cases "xs = []") (simp, metis)

lemma insert_sorted_list:
  assumes i: "is_list l xs" and new: "fresh new l"
  obtains l' where "wmem_list_insert_sorted new func l data = Some l'" "is_list l' (sorted_place func (new, data) xs)"
proof -
  define l0 where "l0 = l\<lparr>frames := (frames l)(new \<mapsto> \<lparr>frame_next = NULL, frame_prev = NULL, frame_data = data\<rparr>), count := count l + 1\<rparr>"
  let ?P = "\<lambda>y. func (snd y) data \<le> 0"
  have h: "head l0 = first xs NULL" using i by (simp add: is_list_def l0_def)
  have nn: "NULL \<notin> fst ` set xs" using i by (simp add: is_list_def)
  have s: "seg (frames l0) NULL xs NULL" using i fresh_notin [OF new i] by (simp add: is_list_def l0_def seg_other)
  show thesis
  proof (cases xs)
    case Nil
    then have "is_list (l0\<lparr>head := new, tail := new\<rparr>) [(new, data)]" using i new by (simp add: is_list_def l0_def fresh_def)
    then show thesis using that Nil h by (simp add: wmem_list_insert_sorted_def sorted_place_def l0_def)
  next
    case (Cons x ys)
    have f: "frames l0 (fst x) = Some \<lparr>frame_next = first ys NULL, frame_prev = NULL, frame_data = snd x\<rparr>" "fst x \<noteq> NULL" "head l0 = fst x"
      using s nn h by (auto simp: Cons)
    have code: "wmem_list_insert_sorted new func l data =
      (if func (snd x) data \<ge> 0 then Option.bind (set_prev (fst x) new l0) (\<lambda>l. Option.bind (set_next new (fst x) l) (\<lambda>l. Some (l\<lparr>head := new\<rparr>)))
       else Option.bind (insert_loop func data l0 (fst x)) (\<lambda>(prev, cur). if cur = NULL
         then Option.bind (set_next prev new l0) (\<lambda>l. Option.bind (set_prev new prev l) (\<lambda>l. Some (l\<lparr>tail := new\<rparr>)))
         else Option.bind (set_prev new prev l0) (\<lambda>l. Option.bind (set_next new cur l) (\<lambda>l. Option.bind (set_next prev new l) (set_prev cur new)))))"
      unfolding wmem_list_insert_sorted_def Let_def l0_def [symmetric] f(3) f(1) bind.bind_lunit wmem_list_frame.select_convs if_not_P [OF f(2)] ..
    show thesis
    proof (cases "func (snd x) data \<ge> 0")
      case True
      have "is_list l ([] @ xs)" using i by simp
      from insert_splice(1) [OF this new _ l0_def refl] show thesis using that True code Cons by (auto simp: sorted_place_def)
    next
      case False
      define us where "us = takeWhile ?P ys"
      define vs where "vs = dropWhile ?P ys"
      have ys: "ys = us @ vs" by (simp add: us_def vs_def)
      have loop: "insert_loop func data l0 (fst x) = Some (final (x # us) NULL, first vs NULL)"
        using insert_loop_seg [of l0 NULL x ys] s nn Cons by (simp add: us_def vs_def)
      have i': "is_list l ((x # us) @ vs)" using i Cons ys by simp
      have v: "first vs NULL = NULL \<longleftrightarrow> vs = []" by (rule first_eq_NULL) (use nn Cons ys in auto)
      have r: "sorted_place func (new, data) xs = (x # us) @ (new, data) # vs" using False by (simp add: Cons sorted_place_def us_def vs_def)
      have neq: "x # us \<noteq> [] \<or> vs \<noteq> []" "x # us \<noteq> []" by simp_all
      show thesis
      proof (cases "vs = []")
        case True
        from insert_splice(2) [OF i' new neq(1) l0_def True] show thesis using that code False loop v True r by auto
      next
        case ne: False
        from insert_splice(3) [OF i' new neq(1) l0_def neq(2) ne] show thesis using that code False loop v ne r by auto
      qed
    qed
  qed
qed

lemma append_sorted_list:
  assumes i: "is_list l xs" and new: "fresh new l"
  obtains l' where "wmem_list_append_sorted new func l data = Some l'" "is_list l' (sorted_place_end func (new, data) xs)"
proof -
  define l0 where "l0 = l\<lparr>frames := (frames l)(new \<mapsto> \<lparr>frame_next = NULL, frame_prev = NULL, frame_data = data\<rparr>), count := count l + 1\<rparr>"
  let ?P = "\<lambda>y. func (snd y) data \<ge> 0"
  have h: "head l0 = first xs NULL" "tail l0 = final xs NULL" using i by (simp_all add: is_list_def l0_def)
  have nn: "NULL \<notin> fst ` set xs" using i by (simp add: is_list_def)
  have s: "seg (frames l0) NULL xs NULL" using i fresh_notin [OF new i] by (simp add: is_list_def l0_def seg_other)
  show thesis
  proof (cases xs rule: rev_cases)
    case Nil
    then have "is_list (l0\<lparr>head := new, tail := new\<rparr>) [(new, data)]" using i new by (simp add: is_list_def l0_def fresh_def)
    then show thesis using that Nil h by (simp add: wmem_list_append_sorted_def sorted_place_end_def l0_def)
  next
    case (snoc ys x)
    have hn: "head l0 \<noteq> NULL" using h(1) first_NULL [OF i] snoc by simp
    have f: "frames l0 (fst x) = Some \<lparr>frame_next = NULL, frame_prev = final ys NULL, frame_data = snd x\<rparr>" "tail l0 = fst x"
      using s h(2) by (auto simp: snoc seg_append)
    have code: "wmem_list_append_sorted new func l data =
      (if func (snd x) data \<le> 0 then Option.bind (set_next (fst x) new l0) (\<lambda>l. Option.bind (set_prev new (fst x) l) (\<lambda>l. Some (l\<lparr>tail := new\<rparr>)))
       else Option.bind (append_loop func data l0 (fst x)) (\<lambda>(nxt, cur). if cur = NULL
         then Option.bind (set_prev nxt new l0) (\<lambda>l. Option.bind (set_next new nxt l) (\<lambda>l. Some (l\<lparr>head := new\<rparr>)))
         else Option.bind (set_next new nxt l0) (\<lambda>l. Option.bind (set_prev new cur l) (\<lambda>l. Option.bind (set_next cur new l) (set_prev nxt new)))))"
      unfolding wmem_list_append_sorted_def Let_def l0_def [symmetric] if_not_P [OF hn] f(2) f(1) bind.bind_lunit wmem_list_frame.select_convs ..
    show thesis
    proof (cases "func (snd x) data \<le> 0")
      case True
      have "is_list l (xs @ [])" using i by simp
      from insert_splice(2) [OF this new _ l0_def refl] show thesis using that True code snoc by (auto simp: sorted_place_end_def)
    next
      case False
      define us where "us = rev (dropWhile ?P (rev ys))"
      define vs where "vs = rev (takeWhile ?P (rev ys))"
      have ys: "ys = us @ vs" unfolding us_def vs_def by (metis rev_append rev_rev_ident takeWhile_dropWhile_id)
      have loop: "append_loop func data l0 (fst x) = Some (first (vs @ [x]) NULL, final us NULL)"
        using append_loop_seg [of l0 ys x NULL] s nn snoc by (simp add: us_def vs_def)
      have i': "is_list l (us @ (vs @ [x]))" using i snoc ys by simp
      have u: "final us NULL = NULL \<longleftrightarrow> us = []" by (rule final_eq_NULL) (use nn snoc ys in auto)
      have r: "sorted_place_end func (new, data) xs = us @ (new, data) # vs @ [x]"
        using False by (simp add: snoc sorted_place_end_def us_def vs_def)
      have neq: "us \<noteq> [] \<or> vs @ [x] \<noteq> []" "vs @ [x] \<noteq> []" by simp_all
      show thesis
      proof (cases "us = []")
        case True
        from insert_splice(1) [OF i' new neq(1) l0_def True] show thesis using that code False loop u True r by auto
      next
        case ne: False
        from insert_splice(4) [OF i' new neq(1) l0_def ne neq(2)] show thesis using that code False loop u ne r by auto
      qed
    qed
  qed
qed


lemma sorted_place_mset: "mset (sorted_place func e xs) = add_mset e (mset xs)"
proof (cases xs)
  case (Cons x ys)
  have "mset ys = mset (takeWhile (\<lambda>y. func (snd y) (snd e) \<le> 0) ys) + mset (dropWhile (\<lambda>y. func (snd y) (snd e) \<le> 0) ys)"
    by (simp flip: mset_append)
  then show ?thesis by (simp add: sorted_place_def Cons)
qed (simp add: sorted_place_def)

lemma sorted_place_end_mset: "mset (sorted_place_end func e xs) = add_mset e (mset xs)"
proof (cases xs rule: rev_cases)
  case (snoc ys x)
  have "mset ys = mset (takeWhile (\<lambda>y. func (snd y) (snd e) \<ge> 0) (rev ys)) + mset (dropWhile (\<lambda>y. func (snd y) (snd e) \<ge> 0) (rev ys))"
    by (simp flip: mset_append)
  then show ?thesis by (simp add: sorted_place_end_def snoc)
qed (simp add: sorted_place_end_def)

text \<open>Both keep an ordered list ordered.\<close>

lemma sorted_place_sorted:
  assumes c: "compare_spec func ok" and ok: "ok (snd e)" "\<forall>x \<in> set xs. ok (snd x)"
    and s: "sorted_wrt (\<lambda>x y. func (snd x) (snd y) \<le> 0) xs"
  shows "sorted_wrt (\<lambda>x y. func (snd x) (snd y) \<le> 0) (sorted_place func e xs)"
proof (cases xs)
  case (Cons x ys)
  let ?P = "\<lambda>y. func (snd y) (snd e) \<le> 0"
  have le: "func (snd e) (snd y) \<le> 0" if "0 \<le> func (snd z) (snd e)" "func (snd z) (snd y) \<le> 0" "z \<in> set xs" "y \<in> set xs" for z y
    using that compare_spec.cmp_trans [OF c, of "snd e" "snd z" "snd y"] compare_spec.cmp_ge [OF c, of "snd z" "snd e"] ok by blast
  show ?thesis
  proof (cases "func (snd x) (snd e) \<ge> 0")
    case True
    have "func (snd e) (snd y) \<le> 0" if "y \<in> set xs" for y
      using le [OF True _ _ that] that s compare_spec.cmp_refl [OF c] ok(2) by (cases "y = x") (auto simp: Cons)
    then show ?thesis using s True by (simp add: sorted_place_def Cons)
  next
    case False
    define us where "us = takeWhile ?P ys"
    define vs where "vs = dropWhile ?P ys"
    have ys: "ys = us @ vs" by (simp add: us_def vs_def)
    have u: "\<forall>y \<in> set us. ?P y" by (auto simp: us_def dest: set_takeWhileD)
    have v: "func (snd e) (snd y) \<le> 0" if "y \<in> set vs" for y
    proof (cases vs)
      case vs: (Cons z zs)
      have z: "\<not> ?P z" using vs hd_dropWhile [of ?P ys] by (simp add: vs_def)
      have "func (snd z) (snd y) \<le> 0"
        using that vs s compare_spec.cmp_refl [OF c] ok(2) by (cases "y = z") (auto simp: Cons ys sorted_wrt_append)
      then show ?thesis using le [of z y] z that vs by (auto simp: Cons ys)
    qed (use that in simp)
    have "sorted_place func e xs = x # us @ e # vs" using False by (simp add: sorted_place_def Cons us_def vs_def)
    then show ?thesis using s u v False by (auto simp: Cons ys sorted_wrt_append)
  qed
qed (simp add: sorted_place_def)

lemma sorted_place_end_sorted:
  assumes c: "compare_spec func ok" and ok: "ok (snd e)" "\<forall>x \<in> set xs. ok (snd x)"
    and s: "sorted_wrt (\<lambda>x y. func (snd x) (snd y) \<le> 0) xs"
  shows "sorted_wrt (\<lambda>x y. func (snd x) (snd y) \<le> 0) (sorted_place_end func e xs)"
proof (cases xs rule: rev_cases)
  case (snoc ys x)
  let ?P = "\<lambda>y. func (snd y) (snd e) \<ge> 0"
  have le: "func (snd y) (snd e) \<le> 0" if "func (snd z) (snd e) \<le> 0" "func (snd y) (snd z) \<le> 0" "z \<in> set xs" "y \<in> set xs" for z y
    using that compare_spec.cmp_trans [OF c, of "snd y" "snd z" "snd e"] ok by blast
  show ?thesis
  proof (cases "func (snd x) (snd e) \<le> 0")
    case True
    have "func (snd y) (snd e) \<le> 0" if "y \<in> set xs" for y
      using le [OF True _ _ that] that s True by (cases "y = x") (auto simp: snoc sorted_wrt_append)
    then show ?thesis using s True by (simp add: sorted_place_end_def snoc sorted_wrt_append)
  next
    case False
    define us where "us = rev (dropWhile ?P (rev ys))"
    define vs where "vs = rev (takeWhile ?P (rev ys))"
    have ys: "ys = us @ vs" unfolding us_def vs_def by (metis rev_append rev_rev_ident takeWhile_dropWhile_id)
    have "\<forall>y \<in> set vs. ?P y" by (auto simp: vs_def dest: set_takeWhileD)
    then have "\<forall>y \<in> set (vs @ [x]). 0 \<le> func (snd y) (snd e)" using False by auto
    then have v: "\<forall>y \<in> set (vs @ [x]). func (snd e) (snd y) \<le> 0"
      using compare_spec.cmp_ge [OF c _ ok(1)] ok(2) by (auto simp: snoc ys)
    have u: "func (snd y) (snd e) \<le> 0" if "y \<in> set us" for y
    proof (cases us rule: rev_cases)
      case us: (snoc zs z)
      have "dropWhile ?P (rev ys) = z # rev zs" using us by (simp add: us_def rev_swap)
      then have z: "\<not> ?P z" using hd_dropWhile [of ?P "rev ys"] by simp
      show ?thesis
      proof (cases "y = z")
        case ne: False
        then have "func (snd y) (snd z) \<le> 0" using that us s by (auto simp: snoc ys sorted_wrt_append)
        moreover have "func (snd z) (snd e) \<le> 0" using z by simp
        moreover have "z \<in> set xs" "y \<in> set xs" using that us by (auto simp: snoc ys)
        ultimately show ?thesis using le by blast
      qed (use z in simp)
    qed (use that in simp)
    have "sorted_place_end func e xs = us @ e # vs @ [x]" using False by (simp add: sorted_place_end_def snoc us_def vs_def)
    then show ?thesis using s u v by (auto simp: snoc ys sorted_wrt_append)
  qed
qed (simp add: sorted_place_end_def)


section \<open>Stack and queue\<close>

text \<open>The contract of the list that the stack and the queue use, and what any series of pushes and pops delivers.\<close>

datatype 'd operation = Push 'd | Pop

fun spec_queue :: "'d operation list \<Rightarrow> 'd list \<Rightarrow> ('d list \<times> 'd list) option" where
  "spec_queue [] ds = Some ([], ds)"
| "spec_queue (Push d # ops) ds = spec_queue ops (ds @ [d])"
| "spec_queue (Pop # ops) [] = None"
| "spec_queue (Pop # ops) (d # ds) = map_option (\<lambda>(out, ds'). (d # out, ds')) (spec_queue ops ds)"

fun spec_stack :: "'d operation list \<Rightarrow> 'd list \<Rightarrow> ('d list \<times> 'd list) option" where
  "spec_stack [] ds = Some ([], ds)"
| "spec_stack (Push d # ops) ds = spec_stack ops (d # ds)"
| "spec_stack (Pop # ops) [] = None"
| "spec_stack (Pop # ops) (d # ds) = map_option (\<lambda>(out, ds'). (d # out, ds')) (spec_stack ops ds)"

text \<open>A series of operations: \<open>alloc\<close> gives the address for the next push; the run is \<open>None\<close> when an operation fails.\<close>

fun run_ops :: "('n \<Rightarrow> 's \<Rightarrow> 'd \<Rightarrow> 's option) \<Rightarrow> ('s \<Rightarrow> ('d \<times> 's) option) \<Rightarrow> ('s \<Rightarrow> 'n) \<Rightarrow>
    'd operation list \<Rightarrow> 's \<Rightarrow> ('d list \<times> 's) option" where
  "run_ops push pop alloc [] s = Some ([], s)"
| "run_ops push pop alloc (Push d # ops) s = do { s \<leftarrow> push (alloc s) s d; run_ops push pop alloc ops s }"
| "run_ops push pop alloc (Pop # ops) s = do { (d, s) \<leftarrow> pop s; (out, s) \<leftarrow> run_ops push pop alloc ops s; Some (d # out, s) }"

locale sequence =
  fixes repr :: "'s \<Rightarrow> 'd list \<Rightarrow> bool" and fresh :: "'n \<Rightarrow> 's \<Rightarrow> bool"
    and push_front :: "'n \<Rightarrow> 's \<Rightarrow> 'd \<Rightarrow> 's option" and push_back :: "'n \<Rightarrow> 's \<Rightarrow> 'd \<Rightarrow> 's option"
    and pop :: "'s \<Rightarrow> ('d \<times> 's) option"
  assumes push_front: "repr s ds \<Longrightarrow> fresh n s \<Longrightarrow> \<exists>s'. push_front n s d = Some s' \<and> repr s' (d # ds)"
    and push_back: "repr s ds \<Longrightarrow> fresh n s \<Longrightarrow> \<exists>s'. push_back n s d = Some s' \<and> repr s' (ds @ [d])"
    and pop: "repr s (d # ds) \<Longrightarrow> \<exists>s'. pop s = Some (d, s') \<and> repr s' ds"
    and pop_empty: "repr s [] \<Longrightarrow> pop s = None"
begin

lemma run_queue:
  assumes "\<And>s ds. repr s ds \<Longrightarrow> fresh (alloc s) s" "repr s ds"
  shows "case spec_queue ops ds of
      None \<Rightarrow> run_ops push_back pop alloc ops s = None
    | Some (out, ds') \<Rightarrow> \<exists>s'. run_ops push_back pop alloc ops s = Some (out, s') \<and> repr s' ds'"
  using assms(2)
proof (induction ops ds arbitrary: s rule: spec_queue.induct)
  case (2 d ops ds)
  obtain s' where "push_back (alloc s) s d = Some s'" "repr s' (ds @ [d])" using push_back [OF 2(2) assms(1) [OF 2(2)]] by blast
  then show ?case using "2.IH" [of s'] by (cases "spec_queue ops (ds @ [d])") auto
next
  case (4 ops d ds)
  obtain s' where "pop s = Some (d, s')" "repr s' ds" using pop [OF 4(2)] by blast
  then show ?case using "4.IH" [of s'] by (auto split: option.splits)
qed (simp_all add: pop_empty)

lemma run_stack:
  assumes "\<And>s ds. repr s ds \<Longrightarrow> fresh (alloc s) s" "repr s ds"
  shows "case spec_stack ops ds of
      None \<Rightarrow> run_ops push_front pop alloc ops s = None
    | Some (out, ds') \<Rightarrow> \<exists>s'. run_ops push_front pop alloc ops s = Some (out, s') \<and> repr s' ds'"
  using assms(2)
proof (induction ops ds arbitrary: s rule: spec_stack.induct)
  case (2 d ops ds)
  obtain s' where "push_front (alloc s) s d = Some s'" "repr s' (d # ds)" using push_front [OF 2(2) assms(1) [OF 2(2)]] by blast
  then show ?case using "2.IH" [of s'] by (cases "spec_stack ops (d # ds)") auto
next
  case (4 ops d ds)
  obtain s' where "pop s = Some (d, s')" "repr s' ds" using pop [OF 4(2)] by blast
  then show ?case using "4.IH" [of s'] by (auto split: option.splits)
qed (simp_all add: pop_empty)

end

text \<open>The frames in use. The list with finitely many of them is a sequence of data.\<close>

lemma dom_set_next: "set_next a v l = Some l' \<Longrightarrow> dom (frames l') = dom (frames l)"
  and dom_set_prev: "set_prev a v l = Some l' \<Longrightarrow> dom (frames l') = dom (frames l)"
  by (auto simp: set_next_def set_prev_def bind_eq_Some_conv split: if_splits)

lemma finite_push:
  assumes "finite (dom (frames l))"
  shows "wmem_list_prepend new l data = Some l' \<Longrightarrow> finite (dom (frames l'))"
    and "wmem_list_append new l data = Some l' \<Longrightarrow> finite (dom (frames l'))"
  using assms by (auto simp: wmem_list_prepend_def wmem_list_append_def Let_def bind_eq_Some_conv dest!: dom_set_next dom_set_prev split: if_splits)

lemma finite_remove:
  assumes "finite (dom (frames l))" "wmem_list_remove l data = Some l'"
  shows "finite (dom (frames l'))"
  using assms by (auto simp: wmem_list_remove_def wmem_list_remove_frame_def bind_eq_Some_conv dest!: dom_set_next dom_set_prev split: if_splits)

definition list_repr :: "wmem_list \<Rightarrow> addr list \<Rightarrow> bool" where
  "list_repr l ds \<longleftrightarrow> finite (dom (frames l)) \<and> (\<exists>xs. is_list l xs \<and> map snd xs = ds)"

interpretation wmem: sequence list_repr fresh wmem_stack_push wmem_queue_push wmem_queue_pop
proof
  fix l ds n d assume "list_repr l ds" and n: "fresh n l"
  then obtain xs where f: "finite (dom (frames l))" and i: "is_list l xs" and xs: "map snd xs = ds" unfolding list_repr_def by blast
  obtain l' where "wmem_list_prepend n l d = Some l'" "is_list l' ((n, d) # xs)" using prepend_list [OF i n] .
  then show "\<exists>l'. wmem_stack_push n l d = Some l' \<and> list_repr l' (d # ds)"
    using xs finite_push(1) [OF f] unfolding wmem_stack_push_def list_repr_def by fastforce
  obtain l' where "wmem_list_append n l d = Some l'" "is_list l' (xs @ [(n, d)])" using append_list [OF i n] .
  then show "\<exists>l'. wmem_queue_push n l d = Some l' \<and> list_repr l' (ds @ [d])"
    using xs finite_push(2) [OF f] unfolding wmem_queue_push_def list_repr_def by fastforce
next
  fix l d ds assume "list_repr l (d # ds)"
  then obtain a xs where f: "finite (dom (frames l))" and i: "is_list l ((a, d) # xs)" and xs: "map snd xs = ds"
    unfolding list_repr_def by force
  then have "wmem_stack_peek l = Some d"
    by (simp add: is_list_def wmem_stack_peek_def wmem_list_head_def wmem_list_frame_data_def)
  moreover obtain l' xs' where r: "wmem_list_remove l d = Some l'" "is_list l' xs'" "map snd xs' = remove1 d (map snd ((a, d) # xs))"
    using remove_list [OF i] by metis
  moreover have "finite (dom (frames l'))" using finite_remove [OF f r(1)] .
  ultimately show "\<exists>l'. wmem_queue_pop l = Some (d, l') \<and> list_repr l' ds"
    using xs by (auto simp: wmem_queue_pop_def wmem_stack_pop_def list_repr_def)
next
  fix l assume "list_repr l []"
  then show "wmem_queue_pop l = None"
    by (auto simp: list_repr_def is_list_def wmem_queue_pop_def wmem_stack_pop_def wmem_stack_peek_def wmem_list_head_def)
qed


section \<open>Properties\<close>

text \<open>
  C38. On a list whose frames hold the data \<open>map snd xs\<close>, \<open>wmem_list_prepend\<close> and \<open>wmem_list_append\<close> with a new frame,
  and \<open>wmem_list_remove\<close>, keep all forward and backward links, the ends and the count of the list right and add or remove
  the datum at the place they promise; \<open>wmem_list_find\<close> returns the first frame with the datum or NULL,
  \<open>wmem_list_foreach\<close> visits the data in order, and \<open>wmem_destroy_list\<close> frees exactly the frames of the list.
\<close>

theorem wmem_list_correct:
  assumes "is_list l xs" "fresh new l"
  shows "(\<exists>l'. wmem_list_prepend new l data = Some l' \<and> is_list l' ((new, data) # xs)) \<and>
    (\<exists>l'. wmem_list_append new l data = Some l' \<and> is_list l' (xs @ [(new, data)])) \<and>
    (\<exists>l' xs'. wmem_list_remove l data = Some l' \<and> is_list l' xs' \<and> set xs' \<subseteq> set xs \<and>
       map snd xs' = remove1 data (map snd xs)) \<and>
    wmem_list_find l data = Some (case List.find (\<lambda>x. snd x = data) xs of Some x \<Rightarrow> fst x | None \<Rightarrow> NULL) \<and>
    wmem_list_foreach l = Some (map snd xs) \<and>
    wmem_destroy_list l = Some (\<lambda>a. if a \<in> fst ` set xs then None else frames l a)"
proof (intro conjI)
  have i: "seg (frames l) NULL xs NULL" "NULL \<notin> fst ` set xs" "distinct (map fst xs)" "head l = first xs NULL"
    using assms(1) by (simp_all add: is_list_def)
  show "\<exists>l'. wmem_list_prepend new l data = Some l' \<and> is_list l' ((new, data) # xs)" using prepend_list [OF assms] by blast
  show "\<exists>l'. wmem_list_append new l data = Some l' \<and> is_list l' (xs @ [(new, data)])" using append_list [OF assms] by blast
  show "\<exists>l' xs'. wmem_list_remove l data = Some l' \<and> is_list l' xs' \<and> set xs' \<subseteq> set xs \<and> map snd xs' = remove1 data (map snd xs)"
    using remove_list [OF assms(1), of data] by metis
  show "wmem_list_find l data = Some (case List.find (\<lambda>x. snd x = data) xs of Some x \<Rightarrow> fst x | None \<Rightarrow> NULL)"
    using find_loop_seg [OF i(1,2)] i(4) by (simp add: wmem_list_find_def)
  show "wmem_list_foreach l = Some (map snd xs)" using foreach_loop_seg [OF i(1,2)] i(4) by (simp add: wmem_list_foreach_def)
  show "wmem_destroy_list l = Some (\<lambda>a. if a \<in> fst ` set xs then None else frames l a)"
    using destroy_loop_seg [OF i(1,2,3)] i(4) by (auto simp: wmem_destroy_list_def)
qed

definition two_frames :: wmem_list where
  "two_frames = \<lparr>count = 2, head = 8, tail = 24,
     frames = [8 \<mapsto> \<lparr>frame_next = 24, frame_prev = NULL, frame_data = 100\<rparr>,
               24 \<mapsto> \<lparr>frame_next = NULL, frame_prev = 8, frame_data = 200\<rparr>]\<rparr>"

lemma two_frames_list: "is_list two_frames [(8, 100), (24, 200)]" "fresh 40 two_frames"
  by (simp_all add: two_frames_def is_list_def fresh_def)

theorem wmem_list_correct_witness:
  "is_list two_frames [(8, 100), (24, 200)] \<and> fresh 40 two_frames \<and> wmem_list_foreach two_frames = Some [100, 200] \<and>
   wmem_list_find two_frames 200 = Some 24 \<and>
   (\<exists>l'. wmem_list_prepend 40 two_frames 200 = Some l' \<and> is_list l' [(40, 200), (8, 100), (24, 200)])"
  using wmem_list_correct [OF two_frames_list, of 200] two_frames_list by auto

text \<open>
  C39. Given a comparison function that is an order on the data, \<open>wmem_list_insert_sorted\<close> and \<open>wmem_list_append_sorted\<close>
  keep an ordered list ordered and add exactly the new frame.
\<close>

theorem wmem_list_sorted_correct:
  assumes c: "compare_spec func ok" and ok: "ok data" "\<forall>x \<in> set xs. ok (snd x)"
    and l: "is_list l xs" "fresh new l" and s: "sorted_wrt (\<lambda>x y. func (snd x) (snd y) \<le> 0) xs"
  shows "(\<exists>l' xs'. wmem_list_insert_sorted new func l data = Some l' \<and> is_list l' xs' \<and>
       mset xs' = add_mset (new, data) (mset xs) \<and> sorted_wrt (\<lambda>x y. func (snd x) (snd y) \<le> 0) xs') \<and>
    (\<exists>l' xs'. wmem_list_append_sorted new func l data = Some l' \<and> is_list l' xs' \<and>
       mset xs' = add_mset (new, data) (mset xs) \<and> sorted_wrt (\<lambda>x y. func (snd x) (snd y) \<le> 0) xs')"
proof (intro conjI)
  have ok': "ok (snd (new, data))" using ok(1) by simp
  obtain l' where "wmem_list_insert_sorted new func l data = Some l'" "is_list l' (sorted_place func (new, data) xs)"
    using insert_sorted_list [OF l] .
  then show "\<exists>l' xs'. wmem_list_insert_sorted new func l data = Some l' \<and> is_list l' xs' \<and>
       mset xs' = add_mset (new, data) (mset xs) \<and> sorted_wrt (\<lambda>x y. func (snd x) (snd y) \<le> 0) xs'"
    using sorted_place_sorted [OF c ok' ok(2) s] sorted_place_mset [of func "(new, data)" xs] by blast
  obtain l' where "wmem_list_append_sorted new func l data = Some l'" "is_list l' (sorted_place_end func (new, data) xs)"
    using append_sorted_list [OF l] .
  then show "\<exists>l' xs'. wmem_list_append_sorted new func l data = Some l' \<and> is_list l' xs' \<and>
       mset xs' = add_mset (new, data) (mset xs) \<and> sorted_wrt (\<lambda>x y. func (snd x) (snd y) \<le> 0) xs'"
    using sorted_place_end_sorted [OF c ok' ok(2) s] sorted_place_end_mset [of func "(new, data)" xs] by blast
qed

theorem wmem_list_sorted_correct_witness:
  "is_list two_frames [(8, 100), (24, 200)] \<and> fresh 40 two_frames \<and>
   (\<exists>l' xs'. wmem_list_insert_sorted 40 (\<lambda>a b. int a - int b) two_frames 150 = Some l' \<and> is_list l' xs' \<and>
      mset xs' = {#(40, 150), (8, 100), (24, 200)#} \<and> sorted_wrt (\<lambda>x y. int (snd x) - int (snd y) \<le> 0) xs')"
proof -
  have c: "compare_spec (\<lambda>a b. int a - int b) (\<lambda>_. True)" by unfold_locales auto
  show ?thesis using wmem_list_sorted_correct [OF c _ _ two_frames_list, of 150] two_frames_list by auto
qed

text \<open>
  C40. Whatever the series of pushes and pops, with an allocator that hands out unused addresses, the queue macros on the linked
  list deliver the data first in, first out, and the stack functions last in, first out; the run stops exactly at a pop from
  an empty list, which the assertion in \<open>wmem_stack_peek\<close> catches.
\<close>

theorem wmem_queue_stack_correct:
  assumes "\<And>l ds. list_repr l ds \<Longrightarrow> fresh (alloc l) l" "list_repr l ds"
  shows "(case spec_queue ops ds of
      None \<Rightarrow> run_ops wmem_queue_push wmem_queue_pop alloc ops l = None
    | Some (out, ds') \<Rightarrow> \<exists>l'. run_ops wmem_queue_push wmem_queue_pop alloc ops l = Some (out, l') \<and> list_repr l' ds') \<and>
    (case spec_stack ops ds of
      None \<Rightarrow> run_ops wmem_stack_push wmem_stack_pop alloc ops l = None
    | Some (out, ds') \<Rightarrow> \<exists>l'. run_ops wmem_stack_push wmem_stack_pop alloc ops l = Some (out, l') \<and> list_repr l' ds')"
proof
  have "wmem_queue_pop = wmem_stack_pop" by (simp add: fun_eq_iff wmem_queue_pop_def)
  then show "case spec_stack ops ds of
      None \<Rightarrow> run_ops wmem_stack_push wmem_stack_pop alloc ops l = None
    | Some (out, ds') \<Rightarrow> \<exists>l'. run_ops wmem_stack_push wmem_stack_pop alloc ops l = Some (out, l') \<and> list_repr l' ds'"
    using wmem.run_stack [of alloc l ds ops] assms by metis
qed (rule wmem.run_queue, auto intro: assms)

definition above_all :: "wmem_list \<Rightarrow> addr" where
  "above_all l = Suc (Max (insert 0 (dom (frames l))))"

lemma above_all_fresh: "list_repr l ds \<Longrightarrow> fresh (above_all l) l"
proof -
  assume "list_repr l ds"
  then have "finite (insert 0 (dom (frames l)))" by (simp add: list_repr_def)
  then have "above_all l \<notin> insert 0 (dom (frames l))" using Max_ge unfolding above_all_def by (metis not_less_eq_eq order_refl)
  then show "fresh (above_all l) l" by (auto simp: fresh_def)
qed

theorem wmem_queue_stack_correct_witness:
  "list_repr two_frames [100, 200] \<and>
   (\<exists>l'. run_ops wmem_queue_push wmem_queue_pop above_all [Push 300, Pop, Pop, Pop] two_frames = Some ([100, 200, 300], l') \<and> list_repr l' []) \<and>
   (\<exists>l'. run_ops wmem_stack_push wmem_stack_pop above_all [Push 300, Pop, Pop, Pop] two_frames = Some ([300, 100, 200], l') \<and> list_repr l' [])"
proof -
  have r: "list_repr two_frames [100, 200]"
    unfolding list_repr_def using two_frames_list(1) by (force simp: two_frames_def)
  show ?thesis
    using wmem_queue_stack_correct [of above_all, OF _ r, of "[Push 300, Pop, Pop, Pop]"] r above_all_fresh by simp
qed

end
