(* ===== verification/FdHook.thy ===== *)
theory FdHook
  imports CMem
begin

text \<open>
  File descriptors: \<^verbatim>\<open>src/library/stdio/fdhookentry.c\<close>, \<^verbatim>\<open>get_file_descriptor.c\<close>, \<^verbatim>\<open>resolve_fd_file.c\<close>,
  \<^verbatim>\<open>translateioerror.c\<close>, \<^verbatim>\<open>grow_file.c\<close>, and \<open>read\<close>, \<open>write\<close>, \<open>lseek\<close> of \<^verbatim>\<open>fcntl\<close> and \<^verbatim>\<open>unistd\<close>.

  The file functions of \<^verbatim>\<open>dos.library\<close> are the fields of the argument \<open>D\<close>, over a state \<open>'d\<close> of their own. Each bit of
  \<open>fd_Flags\<close> is an element of a set. Pointers to descriptors are indices of the descriptor table; an index outside the table
  is a fault. Sizes are natural numbers and file positions are integers. Locks and the check for a user break have no effect on
  these values and are left out, as are assertions, which the release build compiles to nothing.
\<close>

section \<open>Data\<close>

type_synonym bptr = nat

definition EPERM :: int where "EPERM = 1"
definition ENOENT :: int where "ENOENT = 2"
definition EINTR :: int where "EINTR = 4"
definition EIO :: int where "EIO = 5"
definition ENXIO :: int where "ENXIO = 6"
definition ENOEXEC :: int where "ENOEXEC = 8"
definition EBADF :: int where "EBADF = 9"
definition EACCES :: int where "EACCES = 13"
definition EBUSY :: int where "EBUSY = 16"
definition EEXIST :: int where "EEXIST = 17"
definition EXDEV :: int where "EXDEV = 18"
definition ENOTDIR :: int where "ENOTDIR = 20"
definition EFBIG :: int where "EFBIG = 27"
definition ENOSPC :: int where "ENOSPC = 28"
definition EROFS :: int where "EROFS = 30"
definition EAGAIN :: int where "EAGAIN = 35"
definition EWOULDBLOCK :: int where "EWOULDBLOCK = EAGAIN"
definition ENOBUFS :: int where "ENOBUFS = 55"
definition ENAMETOOLONG :: int where "ENAMETOOLONG = 63"
definition ENOTEMPTY :: int where "ENOTEMPTY = 66"
definition ENOSYS :: int where "ENOSYS = 78"
definition EFTYPE :: int where "EFTYPE = 79"

lemmas file_errno_defs = EPERM_def ENOENT_def EINTR_def EIO_def ENXIO_def ENOEXEC_def EBADF_def EACCES_def EBUSY_def EEXIST_def
  EXDEV_def ENOTDIR_def EFBIG_def ENOSPC_def EROFS_def EAGAIN_def EWOULDBLOCK_def ENOBUFS_def ENAMETOOLONG_def ENOTEMPTY_def
  ENOSYS_def EFTYPE_def errno_defs

text \<open>\<open>EOF\<close>, \<open>ERROR\<close> and \<open>OK\<close> of the result codes; 0 is the failure of \<open>ChangeFilePosition\<close>.\<close>

abbreviation (input) EOF :: int where "EOF \<equiv> -1"
abbreviation (input) ERROR :: int where "ERROR \<equiv> -1"
abbreviation (input) OK :: int where "OK \<equiv> 0"
abbreviation (input) CHANGE_FILE_ERROR :: int where "CHANGE_FILE_ERROR \<equiv> 0"
abbreviation (input) GETPOSITION_ERROR :: int where "GETPOSITION_ERROR \<equiv> -1"
abbreviation (input) SEEK_SET :: int where "SEEK_SET \<equiv> 0"
abbreviation (input) SEEK_CUR :: int where "SEEK_CUR \<equiv> 1"
abbreviation (input) SEEK_END :: int where "SEEK_END \<equiv> 2"

datatype fd_flag = FDF_READ | FDF_WRITE | FDF_APPEND | FDF_NO_CLOSE | FDF_NON_BLOCKING | FDF_IS_SOCKET | FDF_IS_LOCKED | FDF_IN_USE
  | FDF_CREATED | FDF_CACHE_POSITION | FDF_ASYNC_IO | FDF_IS_INTERACTIVE | FDF_STDIO | FDF_TERMIOS | FDF_POLL | FDF_IS_DIRECTORY
  | FDF_PATH_ONLY | FDF_STDIN_AS_SOCKET | FDF_STDIN_READ_MARK | FDF_PIPE | FDF_IS_SERIAL | FDF_CLOEXEC

record fd =
  fd_Flags :: "fd_flag set"
  fd_File :: bptr
  fd_Position :: int
  fd_Original :: "nat option"
  fd_NextAlias :: "nat option"

datatype dos_error = NO_DOS_ERROR | ERROR_NO_FREE_STORE | ERROR_TASK_TABLE_FULL | ERROR_BAD_TEMPLATE | ERROR_BAD_NUMBER
  | ERROR_REQUIRED_ARG_MISSING | ERROR_KEY_NEEDS_ARG | ERROR_TOO_MANY_ARGS | ERROR_UNMATCHED_QUOTES | ERROR_LINE_TOO_LONG
  | ERROR_FILE_NOT_OBJECT | ERROR_OBJECT_IN_USE | ERROR_OBJECT_EXISTS | ERROR_DIR_NOT_FOUND | ERROR_OBJECT_NOT_FOUND
  | ERROR_BAD_STREAM_NAME | ERROR_OBJECT_TOO_LARGE | ERROR_ACTION_NOT_KNOWN | ERROR_INVALID_COMPONENT_NAME | ERROR_INVALID_LOCK
  | ERROR_OBJECT_WRONG_TYPE | ERROR_DISK_NOT_VALIDATED | ERROR_DISK_WRITE_PROTECTED | ERROR_RENAME_ACROSS_DEVICES
  | ERROR_DIRECTORY_NOT_EMPTY | ERROR_TOO_MANY_LEVELS | ERROR_DEVICE_NOT_MOUNTED | ERROR_COMMENT_TOO_BIG | ERROR_DISK_FULL
  | ERROR_DELETE_PROTECTED | ERROR_WRITE_PROTECTED | ERROR_READ_PROTECTED | ERROR_NOT_A_DOS_DISK | ERROR_NO_DISK
  | ERROR_IS_SOFT_LINK | ERROR_BAD_HUNK | ERROR_NOT_IMPLEMENTED | ERROR_LOCK_COLLISION | ERROR_BREAK | ERROR_NOT_EXECUTABLE
  | ERROR_WOULD_BLOCK | OTHER_DOS_ERROR int

datatype seek_offset = OFFSET_BEGINNING | OFFSET_CURRENT | OFFSET_END

text \<open>
  The functions of \<^verbatim>\<open>dos.library\<close> and the socket library the hook calls: \<open>Read\<close> returns the count and the bytes it stored,
  \<open>dos_ExamineFileSize\<close> the size field of \<open>ExamineObjectTags\<close> (None when it returns NULL), \<open>dos_BlockSize\<close> the block size of the
  handler (0 when the packet fails), \<open>dos_malloc\<close> whether memory of a given size is to be had.
\<close>

record 'd dos =
  dos_Read :: "bptr \<Rightarrow> nat \<Rightarrow> 'd \<Rightarrow> int \<times> byte list \<times> 'd"
  dos_Write :: "bptr \<Rightarrow> byte list \<Rightarrow> 'd \<Rightarrow> int \<times> 'd"
  dos_ChangeFilePosition :: "bptr \<Rightarrow> int \<Rightarrow> seek_offset \<Rightarrow> 'd \<Rightarrow> int \<times> 'd"
  dos_GetFilePosition :: "bptr \<Rightarrow> 'd \<Rightarrow> int \<times> 'd"
  dos_GetFileSize :: "bptr \<Rightarrow> 'd \<Rightarrow> int \<times> 'd"
  dos_IoErr :: "'d \<Rightarrow> dos_error"
  dos_ExamineFileSize :: "bptr \<Rightarrow> 'd \<Rightarrow> int option \<times> 'd"
  dos_BlockSize :: "bptr \<Rightarrow> 'd \<Rightarrow> int \<times> 'd"
  dos_malloc :: "nat \<Rightarrow> 'd \<Rightarrow> bool \<times> 'd"
  dos_Input :: "'d \<Rightarrow> bptr"
  dos_Output :: "'d \<Rightarrow> bptr"
  dos_ErrorOutput :: "'d \<Rightarrow> bptr"
  dos_OpenConsole :: "'d \<Rightarrow> bptr \<times> 'd"
  dos_send :: "int \<Rightarrow> byte list \<Rightarrow> 'd \<Rightarrow> int \<times> 'd"
  dos_recv :: "int \<Rightarrow> nat \<Rightarrow> 'd \<Rightarrow> int \<times> byte list \<times> 'd"

record 'd files = clib +
  fd_table :: "fd list"
  unix_path_semantics :: bool
  dos_state :: 'd

text \<open>The messages to the hook, and its answer: the result, the bytes read, and the error code.\<close>

datatype fam = Action_read nat | Action_write "byte list" | Action_seek int int

type_synonym 's answer = "(int \<times> byte list \<times> int \<times> 's) option"

definition set_fd :: "nat \<Rightarrow> fd \<Rightarrow> ('d, 'x) files_scheme \<Rightarrow> ('d, 'x) files_scheme" where
  "set_fd f fd s = s\<lparr>fd_table := (fd_table s)[f := fd]\<rparr>"


section \<open>Error codes\<close>

definition io_error_table :: "(dos_error \<times> int) list" where
  "io_error_table =
    [(ERROR_NO_FREE_STORE, ENOMEM), (ERROR_TASK_TABLE_FULL, ENOMEM), (ERROR_BAD_TEMPLATE, EINVAL), (ERROR_BAD_NUMBER, EINVAL),
     (ERROR_REQUIRED_ARG_MISSING, EINVAL), (ERROR_KEY_NEEDS_ARG, EINVAL), (ERROR_TOO_MANY_ARGS, EINVAL),
     (ERROR_UNMATCHED_QUOTES, EINVAL), (ERROR_LINE_TOO_LONG, ENAMETOOLONG), (ERROR_FILE_NOT_OBJECT, ENOEXEC),
     (ERROR_OBJECT_IN_USE, EBUSY), (ERROR_OBJECT_EXISTS, EEXIST), (ERROR_DIR_NOT_FOUND, ENOENT), (ERROR_OBJECT_NOT_FOUND, ENOENT),
     (ERROR_BAD_STREAM_NAME, EINVAL), (ERROR_OBJECT_TOO_LARGE, EFBIG), (ERROR_ACTION_NOT_KNOWN, ENOSYS),
     (ERROR_INVALID_COMPONENT_NAME, EINVAL), (ERROR_INVALID_LOCK, EBADF), (ERROR_OBJECT_WRONG_TYPE, EFTYPE),
     (ERROR_DISK_NOT_VALIDATED, EROFS), (ERROR_DISK_WRITE_PROTECTED, EROFS), (ERROR_RENAME_ACROSS_DEVICES, EXDEV),
     (ERROR_DIRECTORY_NOT_EMPTY, ENOTEMPTY), (ERROR_TOO_MANY_LEVELS, ENAMETOOLONG), (ERROR_DEVICE_NOT_MOUNTED, ENXIO),
     (ERROR_COMMENT_TOO_BIG, ENAMETOOLONG), (ERROR_DISK_FULL, ENOSPC), (ERROR_DELETE_PROTECTED, EACCES),
     (ERROR_WRITE_PROTECTED, EACCES), (ERROR_READ_PROTECTED, EACCES), (ERROR_NOT_A_DOS_DISK, EFTYPE), (ERROR_NO_DISK, EACCES),
     (ERROR_IS_SOFT_LINK, EFTYPE), (ERROR_BAD_HUNK, ENOEXEC), (ERROR_NOT_IMPLEMENTED, ENOSYS), (ERROR_LOCK_COLLISION, EACCES),
     (ERROR_BREAK, EINTR), (ERROR_NOT_EXECUTABLE, ENOEXEC), (ERROR_WOULD_BLOCK, EWOULDBLOCK)]"

definition translate_io_error_to_errno :: "dos_error \<Rightarrow> int" where
  "translate_io_error_to_errno io_err = (case map_of io_error_table io_err of Some e \<Rightarrow> e | None \<Rightarrow> EIO)"

definition translate_access_io_error_to_errno :: "dos_error \<Rightarrow> int" where
  "translate_access_io_error_to_errno io_err =
     (if io_err = ERROR_OBJECT_WRONG_TYPE then ENOTDIR else translate_io_error_to_errno io_err)"


section \<open>Descriptors\<close>

definition get_file_descriptor :: "bool \<Rightarrow> int \<Rightarrow> ('d, 'x) files_scheme \<Rightarrow> nat option" where
  "get_file_descriptor resolve_alias n s =
     (if n < 0 \<or> int (length (fd_table s)) \<le> n then None
      else (let fd = fd_table s ! nat n in
        if FDF_IN_USE \<notin> fd_Flags fd then None
        else (case fd_Original fd of Some original \<Rightarrow> if resolve_alias then Some original else Some (nat n) | None \<Rightarrow> Some (nat n))))"

definition resolve_fd_file :: "'d dos \<Rightarrow> fd \<Rightarrow> 'd \<Rightarrow> bptr \<times> 'd" where
  "resolve_fd_file D fd d =
     (if FDF_STDIO \<in> fd_Flags fd then
        (if fd_File fd = 0 then (dos_Input D d, d)
         else if fd_File fd = 1 then (dos_Output D d, d)
         else if fd_File fd = 2 then (if dos_ErrorOutput D d \<noteq> 0 then (dos_ErrorOutput D d, d) else dos_OpenConsole D d)
         else (0, d))
      else (fd_File fd, d))"

text \<open>Writing zeros at the end of the file, block by block.\<close>

function grow_loop :: "'d dos \<Rightarrow> bptr \<Rightarrow> int \<Rightarrow> int \<Rightarrow> int \<Rightarrow> 'd \<Rightarrow> int \<times> 'd" where
  "grow_loop D file buffer_size alignment_skip num_bytes d =
     (if num_bytes > 0 \<and> buffer_size > 0 then
        (let size0 = (if buffer_size > num_bytes then num_bytes else buffer_size);
             size1 = (if alignment_skip > 0 \<and> size0 > alignment_skip then alignment_skip else size0);
             (bytes_written, d) = dos_Write D file (replicate (nat size1) 0) d
         in if bytes_written \<noteq> size1 then (ERROR, d) else grow_loop D file buffer_size 0 (num_bytes - size1) d)
      else (OK, d))"
  by pat_completeness auto

termination
  by (relation "measure (\<lambda>(D, file, buffer_size, alignment_skip, num_bytes, d). nat num_bytes)") auto

definition grow_file_size :: "'d dos \<Rightarrow> fd \<Rightarrow> int \<Rightarrow> 'd \<Rightarrow> int \<times> 'd" where
  "grow_file_size D fd num_bytes d =
     (let (b, d) = dos_BlockSize D (fd_File fd) d;
          block_size = (if b < 512 then 512 else b);
          buffer_size = (if 8 * block_size > num_bytes then num_bytes else 8 * block_size);
          (ok, d) = dos_malloc D (nat buffer_size) d
      in if \<not> ok then (ERROR, d)
      else (let (r, d) = dos_ChangeFilePosition D (fd_File fd) 0 OFFSET_END d
            in if r = CHANGE_FILE_ERROR then (ERROR, d)
            else (let (current_position, d) = dos_GetFilePosition D (fd_File fd) d;
                      alignment_skip = (if num_bytes > block_size \<and> cmod current_position block_size \<noteq> 0
                                        then block_size - cmod current_position block_size else 0)
                  in grow_loop D (fd_File fd) buffer_size alignment_skip num_bytes d)))"


section \<open>The hook\<close>

definition is_path :: "fd \<Rightarrow> bool" where
  "is_path fd \<longleftrightarrow> FDF_IS_DIRECTORY \<in> fd_Flags fd \<or> FDF_PATH_ONLY \<in> fd_Flags fd"

text \<open>
  On a read error the test \<open>FLAG_IS_CLEAR(fd_Flags, FDF_NON_BLOCKING && ...)\<close> has its parenthesis in the wrong place: for a pipe
  the mask is 1, which is \<open>FDF_READ\<close>.
\<close>

definition fd_hook_read :: "'d dos \<Rightarrow> nat \<Rightarrow> bptr \<Rightarrow> nat \<Rightarrow> ('d, 'x) files_scheme \<Rightarrow> ('d, 'x) files_scheme answer" where
  "fd_hook_read D f file n s = do {
     fd \<leftarrow> at (fd_table s) f;
     if is_path fd then Some (EOF, [], EBADF, s)
     else if FDF_STDIN_READ_MARK \<in> fd_Flags fd then
       Some (EOF, [], EAGAIN, set_fd f (fd\<lparr>fd_Flags := fd_Flags fd - {FDF_STDIN_READ_MARK}\<rparr>) s)
     else do {
       let (result, xs, d) = dos_Read D file n (dos_state s);
       let s = s\<lparr>dos_state := d\<rparr>;
       if result = EOF then
         Some (EOF, [], if FDF_PIPE \<notin> fd_Flags fd \<or> FDF_READ \<notin> fd_Flags fd
                        then translate_io_error_to_errno (dos_IoErr D d) else EAGAIN, s)
       else do {
         let fd = fd\<lparr>fd_Position := fd_Position fd + result\<rparr>;
         fd \<leftarrow> (if FDF_STDIN_AS_SOCKET \<in> fd_Flags fd \<and> result > 0
                then do { b \<leftarrow> at xs (nat (result - 1));
                          Some (if b = 13 \<or> b = 10 then fd\<lparr>fd_Flags := insert FDF_STDIN_READ_MARK (fd_Flags fd)\<rparr> else fd) }
                else Some fd);
         Some (result, xs, OK, set_fd f fd s) } } }"

definition fd_hook_write :: "'d dos \<Rightarrow> nat \<Rightarrow> bptr \<Rightarrow> byte list \<Rightarrow> ('d, 'x) files_scheme \<Rightarrow> ('d, 'x) files_scheme answer" where
  "fd_hook_write D f file xs s = do {
     fd \<leftarrow> at (fd_table s) f;
     if is_path fd then Some (EOF, [], EBADF, s)
     else do {
       let (ok, fd, d) =
         (if FDF_APPEND \<in> fd_Flags fd then
            (let (r, d) = dos_ChangeFilePosition D file 0 OFFSET_END (dos_state s)
             in if r = CHANGE_FILE_ERROR then (False, fd, d)
             else if FDF_CACHE_POSITION \<in> fd_Flags fd then
               (let (p, d) = dos_GetFilePosition D file d in (p \<noteq> GETPOSITION_ERROR, fd\<lparr>fd_Position := p\<rparr>, d))
             else (True, fd, d))
          else (True, fd, dos_state s));
       let s = set_fd f fd (s\<lparr>dos_state := d\<rparr>);
       if \<not> ok then Some (EOF, [], translate_io_error_to_errno (dos_IoErr D d), s)
       else do {
         let (result, d) = dos_Write D file xs d;
         let s = s\<lparr>dos_state := d\<rparr>;
         if result = -1 then Some (EOF, [], translate_io_error_to_errno (dos_IoErr D d), s)
         else Some (result, [], OK, set_fd f (fd\<lparr>fd_Position := fd_Position fd + result\<rparr>) s) } } }"

text \<open>The change of position itself, with the growing of a file that is too short.\<close>

definition fd_hook_move :: "'d dos \<Rightarrow> bool \<Rightarrow> fd \<Rightarrow> bptr \<Rightarrow> int \<Rightarrow> seek_offset \<Rightarrow> int \<Rightarrow> 'd \<Rightarrow> (int + int) \<times> 'd" where
  "fd_hook_move D unix fd file offset new_mode new_position d =
     (let (r, d) = dos_ChangeFilePosition D file offset new_mode d
      in if r = CHANGE_FILE_ERROR then
           (let err = translate_io_error_to_errno (dos_IoErr D d)
            in if \<not> unix then (Inl err, d)
            else (let (exd, d) = dos_ExamineFileSize D file d
              in case exd of None \<Rightarrow> (Inl err, d)
                 | Some file_size \<Rightarrow>
                     if new_position \<le> file_size then (Inl err, d)
                     else if FDF_WRITE \<notin> fd_Flags fd then (Inl EPERM, d)
                     else (let (g, d) = grow_file_size D fd (new_position - file_size) d
                           in if g < 0 then (Inl (translate_io_error_to_errno (dos_IoErr D d)), d) else (Inr new_position, d))))
         else (let (p, d) = dos_GetFilePosition D file d in (Inr p, d)))"

definition fd_hook_seek :: "'d dos \<Rightarrow> nat \<Rightarrow> bptr \<Rightarrow> int \<Rightarrow> int \<Rightarrow> ('d, 'x) files_scheme \<Rightarrow> ('d, 'x) files_scheme answer" where
  "fd_hook_seek D f file offset mode s = do {
     fd \<leftarrow> at (fd_table s) f;
     if is_path fd then Some (EOF, [], EBADF, s)
     else do {
       let new_mode = (if mode = SEEK_CUR then OFFSET_CURRENT else if mode = SEEK_SET then OFFSET_BEGINNING else OFFSET_END);
       let (ok, current_position, d) =
         (if FDF_CACHE_POSITION \<in> fd_Flags fd then (True, fd_Position fd, dos_state s)
          else (let (p, d) = dos_GetFilePosition D file (dos_state s)
                in (p \<noteq> GETPOSITION_ERROR \<and> dos_IoErr D d = NO_DOS_ERROR, p, d)));
       if \<not> ok then Some (EOF, [], EBADF, s\<lparr>dos_state := d\<rparr>)
       else do {
         let (new_position, d) =
           (case new_mode of OFFSET_CURRENT \<Rightarrow> (current_position + offset, d)
            | OFFSET_BEGINNING \<Rightarrow> (offset, d)
            | OFFSET_END \<Rightarrow> (let (size, d) = dos_GetFileSize D file d
                            in (if size \<noteq> GETPOSITION_ERROR then size + offset else current_position, d)));
         if new_position < 0 then do {
           let (r, d) = dos_ChangeFilePosition D file 0 OFFSET_BEGINNING d;
           Some (0, [], OK, set_fd f (fd\<lparr>fd_Position := 0\<rparr>) (s\<lparr>dos_state := d\<rparr>)) }
         else if new_position \<noteq> current_position then
           (case fd_hook_move D (unix_path_semantics s) fd file offset new_mode new_position d of
              (Inl err, d) \<Rightarrow> Some (EOF, [], err, s\<lparr>dos_state := d\<rparr>)
            | (Inr p, d) \<Rightarrow> Some (p, [], if p = GETPOSITION_ERROR then translate_io_error_to_errno (dos_IoErr D d) else OK,
                                set_fd f (fd\<lparr>fd_Position := p\<rparr>) (s\<lparr>dos_state := d\<rparr>)))
         else Some (new_position, [], OK, s\<lparr>dos_state := d\<rparr>) } } }"

definition fd_hook_entry :: "'d dos \<Rightarrow> nat \<Rightarrow> fam \<Rightarrow> ('d, 'x) files_scheme \<Rightarrow> ('d, 'x) files_scheme answer" where
  "fd_hook_entry D f fam s = do {
     fd \<leftarrow> at (fd_table s) f;
     let (file, d) = resolve_fd_file D fd (dos_state s);
     let s = s\<lparr>dos_state := d\<rparr>;
     if file = 0 then Some (EOF, [], EBADF, s)
     else (case fam of Action_read n \<Rightarrow> fd_hook_read D f file n s
           | Action_write xs \<Rightarrow> fd_hook_write D f file xs s
           | Action_seek offset mode \<Rightarrow> fd_hook_seek D f file offset mode s) }"


section \<open>Unbuffered input and output\<close>

text \<open>
  \<open>read\<close> stores what it gets at \<open>buffer\<close> of the memory, \<open>write\<close> takes the bytes from there; both fault outside the memory.
  A short write only changes \<open>errno\<close>.
\<close>

definition store_bytes :: "addr \<Rightarrow> byte list \<Rightarrow> ('d, 'x) files_scheme \<Rightarrow> ('d, 'x) files_scheme option" where
  "store_bytes a xs s = (if region (ram s) a (length xs) then Some (s\<lparr>ram := put (ram s) a xs\<rparr>) else None)"

definition load_bytes :: "addr \<Rightarrow> nat \<Rightarrow> ('d, 'x) files_scheme \<Rightarrow> byte list option" where
  "load_bytes a n s = (if region (ram s) a n then Some (slice (ram s) a n) else None)"

definition read :: "'d dos \<Rightarrow> int \<Rightarrow> addr \<Rightarrow> size_t \<Rightarrow> ('d, 'x) files_scheme \<Rightarrow> (int \<times> ('d, 'x) files_scheme) option" where
  "read D file_descriptor buffer num_bytes s = do {
     let s = s\<lparr>errno := 0\<rparr>;
     if buffer = NULL then Some (EOF, s\<lparr>errno := EFAULT\<rparr>)
     else (case get_file_descriptor True file_descriptor s of None \<Rightarrow> Some (EOF, s\<lparr>errno := EBADF\<rparr>)
       | Some f \<Rightarrow> do {
           fd \<leftarrow> at (fd_table s) f;
           if FDF_READ \<notin> fd_Flags fd then Some (EOF, s\<lparr>errno := EBADF\<rparr>)
           else if num_bytes = 0 then Some (0, s)
           else if FDF_IS_SOCKET \<in> fd_Flags fd then do {
             let (result, xs, d) = dos_recv D file_descriptor num_bytes (dos_state s);
             s \<leftarrow> store_bytes buffer xs (s\<lparr>dos_state := d\<rparr>);
             Some (result, s) }
           else do {
             (result, xs, err, s) \<leftarrow> fd_hook_entry D f (Action_read num_bytes) s;
             if result = EOF then Some (EOF, s\<lparr>errno := err\<rparr>)
             else do { s \<leftarrow> store_bytes buffer xs s; Some (result, s) } } }) }"

definition write_r :: "'d dos \<Rightarrow> int \<Rightarrow> addr \<Rightarrow> size_t \<Rightarrow> ('d, 'x) files_scheme \<Rightarrow> (int \<times> ('d, 'x) files_scheme) option" where
  "write_r D file_descriptor buffer num_bytes s =
     (if buffer = NULL then Some (EOF, s\<lparr>errno := EFAULT\<rparr>)
      else (case get_file_descriptor True file_descriptor s of None \<Rightarrow> Some (EOF, s\<lparr>errno := EBADF\<rparr>)
       | Some f \<Rightarrow> do {
           fd \<leftarrow> at (fd_table s) f;
           if FDF_IN_USE \<notin> fd_Flags fd \<and> FDF_PIPE \<in> fd_Flags fd then Some (EOF, s\<lparr>errno := 13\<rparr>)
           else if FDF_WRITE \<notin> fd_Flags fd then Some (EOF, s\<lparr>errno := EBADF\<rparr>)
           else if num_bytes = 0 then Some (0, s)
           else do {
             xs \<leftarrow> load_bytes buffer num_bytes s;
             if FDF_IS_SOCKET \<in> fd_Flags fd then do {
               let (result, d) = dos_send D file_descriptor xs (dos_state s);
               Some (result, s\<lparr>dos_state := d\<rparr>) }
             else do {
               (result, _, err, s) \<leftarrow> fd_hook_entry D f (Action_write xs) s;
               if result = EOF then Some (EOF, s\<lparr>errno := err\<rparr>)
               else if result \<noteq> int num_bytes
                 then Some (result, s\<lparr>errno := translate_io_error_to_errno (dos_IoErr D (dos_state s))\<rparr>)
               else Some (result, s) } } }))"

text \<open>\<open>lseek\<close> compares the answer with \<open>CHANGE_FILE_ERROR\<close>, which is 0, although the hook reports errors by -1.\<close>

definition lseek :: "'d dos \<Rightarrow> int \<Rightarrow> int \<Rightarrow> int \<Rightarrow> ('d, 'x) files_scheme \<Rightarrow> (int \<times> ('d, 'x) files_scheme) option" where
  "lseek D file_descriptor offset mode s =
     (case get_file_descriptor True file_descriptor s of None \<Rightarrow> Some (CHANGE_FILE_ERROR, s\<lparr>errno := EBADF\<rparr>)
      | Some f \<Rightarrow>
          if mode < SEEK_SET \<or> SEEK_END < mode then Some (CHANGE_FILE_ERROR, s\<lparr>errno := EINVAL\<rparr>)
          else do {
            (position, _, err, s) \<leftarrow> fd_hook_entry D f (Action_seek offset mode) s;
            if position = CHANGE_FILE_ERROR \<and> err \<noteq> OK then Some (CHANGE_FILE_ERROR, s\<lparr>errno := err\<rparr>)
            else Some (position, if position < 0 then s\<lparr>errno := OK\<rparr> else s) })"


section \<open>Ordinary files\<close>

text \<open>
  What the code relies on for a handle of an ordinary file with the content \<open>c\<close> at the position \<open>p\<close>: writing replaces the bytes
  from the position on and extends the file at its end, reading delivers the next bytes, the position can be set to any place in
  the file, and other handles are not touched.
\<close>

definition overlay :: "byte list \<Rightarrow> nat \<Rightarrow> byte list \<Rightarrow> byte list" where
  "overlay c p xs = take p c @ xs @ drop (p + length xs) c"

definition seek_target :: "byte list \<Rightarrow> nat \<Rightarrow> int \<Rightarrow> seek_offset \<Rightarrow> int" where
  "seek_target c p offset mode =
     (case mode of OFFSET_BEGINNING \<Rightarrow> offset | OFFSET_CURRENT \<Rightarrow> int p + offset | OFFSET_END \<Rightarrow> int (length c) + offset)"

definition dos_files :: "'d dos \<Rightarrow> ('d \<Rightarrow> bptr \<rightharpoonup> byte list \<times> nat) \<Rightarrow> bool" where
  "dos_files D content \<longleftrightarrow> (\<forall>d h c p. content d h = Some (c, p) \<longrightarrow>
     p \<le> length c \<and>
     (\<forall>xs. \<exists>d'. dos_Write D h xs d = (int (length xs), d') \<and> content d' = (content d)(h \<mapsto> (overlay c p xs, p + length xs))) \<and>
     (\<forall>n. \<exists>d'. dos_Read D h n d = (int (length (take n (drop p c))), take n (drop p c), d') \<and>
        content d' = (content d)(h \<mapsto> (c, p + length (take n (drop p c))))) \<and>
     (\<exists>d'. dos_GetFilePosition D h d = (int p, d') \<and> dos_IoErr D d' = NO_DOS_ERROR \<and> content d' = content d) \<and>
     (\<exists>d'. dos_GetFileSize D h d = (int (length c), d') \<and> content d' = content d) \<and>
     (\<forall>offset mode. let t = seek_target c p offset mode in
        if 0 \<le> t \<and> t \<le> int (length c)
        then \<exists>r d'. dos_ChangeFilePosition D h offset mode d = (r, d') \<and> r \<noteq> CHANGE_FILE_ERROR \<and>
               content d' = (content d)(h \<mapsto> (c, nat t))
        else \<exists>d'. dos_ChangeFilePosition D h offset mode d = (CHANGE_FILE_ERROR, d') \<and> content d' = content d))"

text \<open>A descriptor of such a file, and what the hook does with it. The cached position, where one is kept, is the position.\<close>

definition plain_fd :: "fd \<Rightarrow> bool" where
  "plain_fd fd \<longleftrightarrow> FDF_IN_USE \<in> fd_Flags fd \<and> fd_File fd \<noteq> 0 \<and>
     fd_Flags fd \<inter> {FDF_IS_DIRECTORY, FDF_PATH_ONLY, FDF_STDIN_READ_MARK, FDF_STDIN_AS_SOCKET, FDF_IS_SOCKET, FDF_APPEND, FDF_STDIO} = {}"

definition fd_ok :: "('d \<Rightarrow> bptr \<rightharpoonup> byte list \<times> nat) \<Rightarrow> ('d, 'x) files_scheme \<Rightarrow> nat \<Rightarrow> byte list \<Rightarrow> nat \<Rightarrow> bool" where
  "fd_ok content s f c p \<longleftrightarrow> f < length (fd_table s) \<and> plain_fd (fd_table s ! f) \<and>
     content (dos_state s) (fd_File (fd_table s ! f)) = Some (c, p) \<and>
     (FDF_CACHE_POSITION \<in> fd_Flags (fd_table s ! f) \<longrightarrow> fd_Position (fd_table s ! f) = int p)"

text \<open>
  The states an operation on the descriptor \<open>f\<close> may lead to: the handle has a new content and position, the descriptor at most
  a new cached position, nothing else changes.
\<close>

definition moved :: "('d \<Rightarrow> bptr \<rightharpoonup> byte list \<times> nat) \<Rightarrow> nat \<Rightarrow> byte list \<Rightarrow> nat \<Rightarrow> ('d, 'x) files_scheme \<Rightarrow> ('d, 'x) files_scheme \<Rightarrow> bool" where
  "moved content f c p s s' \<longleftrightarrow> (\<exists>q d. s' = s\<lparr>dos_state := d, fd_table := (fd_table s)[f := (fd_table s ! f)\<lparr>fd_Position := q\<rparr>]\<rparr> \<and>
     (FDF_CACHE_POSITION \<in> fd_Flags (fd_table s ! f) \<longrightarrow> q = int p) \<and>
     content d = (content (dos_state s))(fd_File (fd_table s ! f) \<mapsto> (c, p)))"

lemma overlay_length: "p \<le> length c \<Longrightarrow> p + length xs \<le> length (overlay c p xs)"
  by (simp add: overlay_def)

lemma overlay_Nil [simp]: "overlay c p [] = c"
  by (simp add: overlay_def)

lemma overlay_append: "p \<le> length c \<Longrightarrow> overlay (overlay c p xs) (p + length xs) ys = overlay c p (xs @ ys)"
  by (simp add: overlay_def min_def add.commute add.left_commute)

lemma set_fd_same: "f < length (fd_table s) \<Longrightarrow> set_fd f fd s = s\<lparr>fd_table := (fd_table s)[f := fd]\<rparr>"
  by (simp add: set_fd_def)

lemma plain_fdD:
  assumes "plain_fd fd"
  shows "FDF_IN_USE \<in> fd_Flags fd" "fd_File fd \<noteq> 0" "\<not> is_path fd" "FDF_STDIN_READ_MARK \<notin> fd_Flags fd"
    "FDF_STDIN_AS_SOCKET \<notin> fd_Flags fd" "FDF_IS_SOCKET \<notin> fd_Flags fd" "FDF_APPEND \<notin> fd_Flags fd"
    "resolve_fd_file D fd d = (fd_File fd, d)"
  using assms by (auto simp: plain_fd_def is_path_def resolve_fd_file_def)

lemma fd_ok_moved:
  assumes "fd_ok content s f c p" "moved content f c' p' s s'"
  shows "fd_ok content s' f c' p'"
  using assms by (auto simp: fd_ok_def moved_def plain_fd_def)

lemma movedI:
  "content d = (content (dos_state s))(fd_File (fd_table s ! f) \<mapsto> (c, p)) \<Longrightarrow>
   (FDF_CACHE_POSITION \<in> fd_Flags (fd_table s ! f) \<Longrightarrow> q = int p) \<Longrightarrow>
   moved content f c p s (s\<lparr>dos_state := d, fd_table := (fd_table s)[f := (fd_table s ! f)\<lparr>fd_Position := q\<rparr>]\<rparr>)"
  unfolding moved_def by blast

lemma fd_okD:
  assumes "fd_ok content s f c p"
  shows "at (fd_table s) f = Some (fd_table s ! f)" "f < length (fd_table s)" "plain_fd (fd_table s ! f)"
    "content (dos_state s) (fd_File (fd_table s ! f)) = Some (c, p)"
    "FDF_CACHE_POSITION \<in> fd_Flags (fd_table s ! f) \<Longrightarrow> fd_Position (fd_table s ! f) = int p"
  using assms by (simp_all add: fd_ok_def at_def)

lemma dos_filesD:
  assumes "dos_files D content" "content d h = Some (c, p)"
  shows "p \<le> length c"
    "\<exists>d'. dos_Write D h xs d = (int (length xs), d') \<and> content d' = (content d)(h \<mapsto> (overlay c p xs, p + length xs))"
    "\<exists>d'. dos_Read D h n d = (int (length (take n (drop p c))), take n (drop p c), d') \<and>
        content d' = (content d)(h \<mapsto> (c, p + length (take n (drop p c))))"
    "\<exists>d'. dos_GetFilePosition D h d = (int p, d') \<and> dos_IoErr D d' = NO_DOS_ERROR \<and> content d' = content d"
    "\<exists>d'. dos_GetFileSize D h d = (int (length c), d') \<and> content d' = content d"
    "0 \<le> seek_target c p offset mode \<Longrightarrow> seek_target c p offset mode \<le> int (length c) \<Longrightarrow>
     \<exists>r d'. dos_ChangeFilePosition D h offset mode d = (r, d') \<and> r \<noteq> CHANGE_FILE_ERROR \<and>
        content d' = (content d)(h \<mapsto> (c, nat (seek_target c p offset mode)))"
  using assms(1) [unfolded dos_files_def, rule_format, OF assms(2)] by (auto simp: Let_def split: if_splits)

lemma hook_entry_plain:
  assumes "fd_ok content s f c p"
  shows "fd_hook_entry D f fam s =
    (case fam of Action_read n \<Rightarrow> fd_hook_read D f (fd_File (fd_table s ! f)) n s
     | Action_write xs \<Rightarrow> fd_hook_write D f (fd_File (fd_table s ! f)) xs s
     | Action_seek offset mode \<Rightarrow> fd_hook_seek D f (fd_File (fd_table s ! f)) offset mode s)"
  using plain_fdD(1-7) [OF fd_okD(3) [OF assms]]
  by (simp add: fd_hook_entry_def fd_okD(1) [OF assms] plain_fdD(8) [OF fd_okD(3) [OF assms]])

lemma hook_write_ok:
  assumes D: "dos_files D content" and ok: "fd_ok content s f c p"
  obtains s' where "fd_hook_entry D f (Action_write xs) s = Some (int (length xs), [], OK, s')"
    "moved content f (overlay c p xs) (p + length xs) s s'"
proof -
  note fd = fd_okD [OF ok] and plain = plain_fdD [OF fd_okD(3) [OF ok]]
  obtain d' where w: "dos_Write D (fd_File (fd_table s ! f)) xs (dos_state s) = (int (length xs), d')"
    "content d' = (content (dos_state s))(fd_File (fd_table s ! f) \<mapsto> (overlay c p xs, p + length xs))"
    using dos_filesD(2) [OF D fd(4)] by blast
  have "fd_hook_entry D f (Action_write xs) s = Some (int (length xs), [], OK,
      s\<lparr>dos_state := d', fd_table := (fd_table s)[f := (fd_table s ! f)\<lparr>fd_Position := fd_Position (fd_table s ! f) + int (length xs)\<rparr>]\<rparr>)"
    using plain fd(2) w(1) by (simp add: hook_entry_plain [OF ok] fd_hook_write_def fd(1) set_fd_def)
  moreover have "moved content f (overlay c p xs) (p + length xs) s
      (s\<lparr>dos_state := d', fd_table := (fd_table s)[f := (fd_table s ! f)\<lparr>fd_Position := fd_Position (fd_table s ! f) + int (length xs)\<rparr>]\<rparr>)"
    by (rule movedI) (use w(2) fd(5) in simp_all)
  ultimately show thesis using that by blast
qed

lemma hook_read_ok:
  assumes D: "dos_files D content" and ok: "fd_ok content s f c p"
  obtains s' where "fd_hook_entry D f (Action_read n) s = Some (int (length (take n (drop p c))), take n (drop p c), OK, s')"
    "moved content f c (p + length (take n (drop p c))) s s'"
proof -
  note fd = fd_okD [OF ok] and plain = plain_fdD [OF fd_okD(3) [OF ok]]
  define ys where "ys = take n (drop p c)"
  obtain d' where w: "dos_Read D (fd_File (fd_table s ! f)) n (dos_state s) = (int (length ys), ys, d')"
    "content d' = (content (dos_state s))(fd_File (fd_table s ! f) \<mapsto> (c, p + length ys))"
    using dos_filesD(3) [OF D fd(4)] unfolding ys_def by blast
  have "fd_hook_entry D f (Action_read n) s = Some (int (length ys), ys, OK,
      s\<lparr>dos_state := d', fd_table := (fd_table s)[f := (fd_table s ! f)\<lparr>fd_Position := fd_Position (fd_table s ! f) + int (length ys)\<rparr>]\<rparr>)"
    using plain fd(2) w(1) by (simp add: hook_entry_plain [OF ok] fd_hook_read_def fd(1) set_fd_def)
  moreover have "moved content f c (p + length ys) s
      (s\<lparr>dos_state := d', fd_table := (fd_table s)[f := (fd_table s ! f)\<lparr>fd_Position := fd_Position (fd_table s ! f) + int (length ys)\<rparr>]\<rparr>)"
    by (rule movedI) (use w(2) fd(5) in simp_all)
  ultimately show thesis using that unfolding ys_def by blast
qed

text \<open>A seek to a place in the file moves there; a seek to before its start moves to the start.\<close>

definition seek_mode :: "int \<Rightarrow> seek_offset" where
  "seek_mode mode = (if mode = SEEK_CUR then OFFSET_CURRENT else if mode = SEEK_SET then OFFSET_BEGINNING else OFFSET_END)"

lemma hook_seek_ok:
  assumes D: "dos_files D content" and ok: "fd_ok content s f c p"
    and t: "t = seek_target c p offset (seek_mode mode)" "t \<le> int (length c)"
  obtains s' where "fd_hook_entry D f (Action_seek offset mode) s = Some (max 0 t, [], OK, s')"
    "moved content f c (nat t) s s'"
proof -
  note fd = fd_okD [OF ok] and plain = plain_fdD [OF fd_okD(3) [OF ok]]
  let ?fd = "fd_table s ! f"
  let ?h = "fd_File ?fd"
  obtain d1 where d1: "(if FDF_CACHE_POSITION \<in> fd_Flags ?fd then (True, fd_Position ?fd, dos_state s)
      else (let (p, d) = dos_GetFilePosition D ?h (dos_state s)
            in (p \<noteq> GETPOSITION_ERROR \<and> dos_IoErr D d = NO_DOS_ERROR, p, d))) = (True, int p, d1)" "content d1 = content (dos_state s)"
    using dos_filesD(4) [OF D fd(4)] fd(5) by (cases "FDF_CACHE_POSITION \<in> fd_Flags ?fd") auto
  have f1: "content d1 ?h = Some (c, p)" using d1(2) fd(4) by simp
  obtain d2 where d2: "(case seek_mode mode of OFFSET_CURRENT \<Rightarrow> (int p + offset, d1)
            | OFFSET_BEGINNING \<Rightarrow> (offset, d1)
            | OFFSET_END \<Rightarrow> (let (size, d) = dos_GetFileSize D ?h d1
                            in (if size \<noteq> GETPOSITION_ERROR then size + offset else int p, d))) = (t, d2)" "content d2 = content (dos_state s)"
    using dos_filesD(5) [OF D f1] d1(2) t(1) by (cases "seek_mode mode") (auto simp: seek_target_def)
  have f2: "content d2 ?h = Some (c, p)" using d2(2) fd(4) by simp
  have code: "fd_hook_entry D f (Action_seek offset mode) s =
     (if t < 0 then Some (0, [], OK, set_fd f (?fd\<lparr>fd_Position := 0\<rparr>) (s\<lparr>dos_state := snd (dos_ChangeFilePosition D ?h 0 OFFSET_BEGINNING d2)\<rparr>))
      else if t \<noteq> int p then
        (case fd_hook_move D (unix_path_semantics s) ?fd ?h offset (seek_mode mode) t d2 of
           (Inl err, d) \<Rightarrow> Some (EOF, [], err, s\<lparr>dos_state := d\<rparr>)
         | (Inr p, d) \<Rightarrow> Some (p, [], if p = GETPOSITION_ERROR then translate_io_error_to_errno (dos_IoErr D d) else OK,
                             set_fd f (?fd\<lparr>fd_Position := p\<rparr>) (s\<lparr>dos_state := d\<rparr>)))
      else Some (t, [], OK, s\<lparr>dos_state := d2\<rparr>))"
    unfolding hook_entry_plain [OF ok] fam.case fd_hook_seek_def fd(1) bind.bind_lunit seek_mode_def [symmetric] Let_def if_not_P [OF plain(3)]
    unfolding d1(1) [unfolded Let_def] prod.case
    unfolding d2(1) [unfolded Let_def] prod.case
    by (simp add: case_prod_beta)
  consider "t < 0" | "0 \<le> t" "t \<noteq> int p" | "t = int p" by linarith
  then show thesis
  proof cases
    case 1
    obtain r d3 where d3: "dos_ChangeFilePosition D ?h 0 OFFSET_BEGINNING d2 = (r, d3)" "content d3 = (content d2)(?h \<mapsto> (c, 0))"
      using dos_filesD(6) [OF D f2, of 0 OFFSET_BEGINNING] by (auto simp: seek_target_def)
    have "moved content f c (nat t) s (s\<lparr>dos_state := d3, fd_table := (fd_table s)[f := ?fd\<lparr>fd_Position := 0\<rparr>]\<rparr>)"
      by (rule movedI) (use 1 d3(2) d2(2) in simp_all)
    then show thesis using that 1 d3(1) by (simp add: code set_fd_def)
  next
    case 2
    have "0 \<le> seek_target c p offset (seek_mode mode)" "seek_target c p offset (seek_mode mode) \<le> int (length c)" using 2 t by simp_all
    from dos_filesD(6) [OF D f2 this] obtain r d3 where
      d3: "dos_ChangeFilePosition D ?h offset (seek_mode mode) d2 = (r, d3)" "r \<noteq> CHANGE_FILE_ERROR" "content d3 = (content d2)(?h \<mapsto> (c, nat t))"
      using t(1) by auto
    have f3: "content d3 ?h = Some (c, nat t)" using d3(3) by simp
    obtain d4 where d4: "dos_GetFilePosition D ?h d3 = (int (nat t), d4)" "content d4 = content d3" using dos_filesD(4) [OF D f3] by blast
    have "fd_hook_move D (unix_path_semantics s) ?fd ?h offset (seek_mode mode) t d2 = (Inr t, d4)"
      using d3(1,2) d4(1) 2 by (simp add: fd_hook_move_def)
    moreover have "moved content f c (nat t) s (s\<lparr>dos_state := d4, fd_table := (fd_table s)[f := ?fd\<lparr>fd_Position := t\<rparr>]\<rparr>)"
      by (rule movedI) (use 2 d3(3) d4(2) d2(2) in simp_all)
    ultimately show thesis using that 2 by (simp add: code set_fd_def)
  next
    case 3
    have "s\<lparr>dos_state := d2\<rparr> = s\<lparr>dos_state := d2, fd_table := (fd_table s)[f := ?fd\<lparr>fd_Position := fd_Position ?fd\<rparr>]\<rparr>"
      by (simp add: list_update_id)
    then have "moved content f c (nat t) s (s\<lparr>dos_state := d2\<rparr>)"
      unfolding moved_def using 3 d2(2) fd(4,5) by (metis fun_upd_triv nat_int)
    then show thesis using that 3 by (simp add: code)
  qed
qed

end
