(* ===== verification/Iob.thy ===== *)
theory Iob
  imports FdHook
begin

text \<open>
  Buffered streams: \<open>struct iob\<close>, the hook \<^verbatim>\<open>iobhookentry.c\<close> that passes requests on to the descriptor, and the operations on the
  buffer in \<^verbatim>\<open>src/library/stdio\<close>: \<open>__flush_iob_write_buffer\<close>, \<open>__fill_iob_read_buffer\<close>, \<open>__drop_iob_read_buffer\<close>,
  \<open>__flush_all_files\<close>, \<open>__flush_r\<close>.

  A stream is an index of the stream table. Its buffer is a list of bytes of its own, so a buffer does not overlap the memory of
  the program or another buffer; the two low bits of \<open>iob_Flags\<close>, the buffering mode, are a field of their own.
\<close>

datatype buffer_mode = IOBF_BUFFER_MODE_FULL | IOBF_BUFFER_MODE_LINE | IOBF_BUFFER_MODE_NONE

datatype iob_flag = IOBF_EOF_REACHED | IOBF_READ | IOBF_WRITE | IOBF_IN_USE | IOBF_ERROR | IOBF_TEMP | IOBF_NO_NUL | IOBF_INTERNAL
  | IOBF_LOCKED | IOBF_NO_CLOSE

record iob =
  iob_Flags :: "iob_flag set"
  iob_Mode :: buffer_mode
  iob_Buffer :: "byte list"
  iob_BufferSize :: nat
  iob_BufferPosition :: nat
  iob_BufferReadBytes :: nat
  iob_BufferWriteBytes :: nat
  iob_Flags2_SERR :: bool
  iob_Descriptor :: int

record 'd stdio = "'d files" +
  iob_table :: "iob list"

definition set_iob :: "nat \<Rightarrow> iob \<Rightarrow> 'd stdio \<Rightarrow> 'd stdio" where
  "set_iob i file s = s\<lparr>iob_table := (iob_table s)[i := file]\<rparr>"

definition set_iob_flag :: "nat \<Rightarrow> iob_flag \<Rightarrow> 'd stdio \<Rightarrow> 'd stdio" where
  "set_iob_flag i g s = set_iob i ((iob_table s ! i)\<lparr>iob_Flags := insert g (iob_Flags (iob_table s ! i))\<rparr>) s"

definition iob_write_buffer_is_full :: "iob \<Rightarrow> bool" where
  "iob_write_buffer_is_full file \<longleftrightarrow> iob_BufferSize file > 0 \<and> iob_BufferWriteBytes file = iob_BufferSize file"

definition iob_write_buffer_is_valid :: "iob \<Rightarrow> bool" where
  "iob_write_buffer_is_valid file \<longleftrightarrow> iob_BufferWriteBytes file > 0"

definition iob_num_unwritten_bytes :: "iob \<Rightarrow> nat" where
  "iob_num_unwritten_bytes file = iob_BufferWriteBytes file"

definition iob_read_buffer_is_empty :: "iob \<Rightarrow> bool" where
  "iob_read_buffer_is_empty file \<longleftrightarrow> iob_BufferReadBytes file = 0 \<or> iob_BufferPosition file = iob_BufferReadBytes file"

definition iob_num_unread_bytes :: "iob \<Rightarrow> nat" where
  "iob_num_unread_bytes file =
     (if iob_BufferReadBytes file > 0 \<and> iob_BufferPosition file < iob_BufferReadBytes file
      then iob_BufferReadBytes file - iob_BufferPosition file else 0)"

definition iob_read_buffer_is_valid :: "iob \<Rightarrow> bool" where
  "iob_read_buffer_is_valid file \<longleftrightarrow> iob_BufferReadBytes file > 0"

definition iob_hook_entry :: "'d dos \<Rightarrow> nat \<Rightarrow> fam \<Rightarrow> 'd stdio \<Rightarrow> 'd stdio answer" where
  "iob_hook_entry D i fam s = do {
     file \<leftarrow> at (iob_table s) i;
     _ \<leftarrow> at_int (fd_table s) (iob_Descriptor file);
     (case get_file_descriptor True (iob_Descriptor file) s of None \<Rightarrow> Some (EOF, [], EBADF, s)
      | Some f \<Rightarrow> fd_hook_entry D f fam s) }"

text \<open>Any count the hook reports, a short one as well, empties the buffer.\<close>

definition flush_iob_write_buffer :: "'d dos \<Rightarrow> nat \<Rightarrow> 'd stdio \<Rightarrow> (int \<times> 'd stdio) option" where
  "flush_iob_write_buffer D i s = do {
     file \<leftarrow> at (iob_table s) i;
     if IOBF_IN_USE \<in> iob_Flags file \<and> iob_BufferWriteBytes file > 0 then do {
       (result, _, err, s) \<leftarrow> iob_hook_entry D i (Action_write (take (iob_BufferWriteBytes file) (iob_Buffer file))) s;
       if result = EOF then Some (ERROR, (set_iob_flag i IOBF_ERROR s)\<lparr>errno := err\<rparr>)
       else Some (OK, set_iob i (file\<lparr>iob_BufferWriteBytes := 0\<rparr>) s) }
     else Some (OK, s) }"

text \<open>\<open>__flush_all_files\<close>; a mode of None (a negative number in the code) stands for all modes. \<open>fflush(NULL)\<close> runs the same loop.\<close>

primrec flush_all_loop :: "'d dos \<Rightarrow> buffer_mode option \<Rightarrow> nat list \<Rightarrow> 'd stdio \<Rightarrow> (int \<times> 'd stdio) option" where
  "flush_all_loop D mode [] s = Some (OK, s)"
| "flush_all_loop D mode (i # is) s = do {
     file \<leftarrow> at (iob_table s) i;
     if IOBF_IN_USE \<in> iob_Flags file \<and> IOBF_WRITE \<in> iob_Flags file \<and> (mode = None \<or> mode = Some (iob_Mode file)) \<and>
        iob_write_buffer_is_valid file
     then do {
       (r, s) \<leftarrow> flush_iob_write_buffer D i s;
       if r < 0 then Some (ERROR, s) else flush_all_loop D mode is s }
     else flush_all_loop D mode is s }"

definition flush_all_files :: "'d dos \<Rightarrow> buffer_mode option \<Rightarrow> 'd stdio \<Rightarrow> (int \<times> 'd stdio) option" where
  "flush_all_files D mode s = flush_all_loop D mode [0..<length (iob_table s)] s"

text \<open>The bytes the hook reads go to the start of the buffer.\<close>

definition fill_iob_read_buffer :: "'d dos \<Rightarrow> nat \<Rightarrow> 'd stdio \<Rightarrow> (int \<times> 'd stdio) option" where
  "fill_iob_read_buffer D i s = do {
     file \<leftarrow> at (iob_table s) i;
     (r, s) \<leftarrow> (if iob_Mode file = IOBF_BUFFER_MODE_LINE then flush_all_files D (Some IOBF_BUFFER_MODE_LINE) s else Some (OK, s));
     if r < 0 then Some (ERROR, s)
     else do {
       (num_bytes_read, xs, err, s) \<leftarrow> iob_hook_entry D i (Action_read (iob_BufferSize file)) s;
       if num_bytes_read = EOF then Some (ERROR, (set_iob_flag i IOBF_ERROR s)\<lparr>errno := err\<rparr>)
       else do {
         file \<leftarrow> at (iob_table s) i;
         if length xs \<le> length (iob_Buffer file)
         then Some (OK, set_iob i (file\<lparr>iob_Buffer := xs @ drop (length xs) (iob_Buffer file),
                                        iob_BufferReadBytes := nat num_bytes_read, iob_BufferPosition := 0\<rparr>) s)
         else None } } }"

definition drop_iob_read_buffer :: "'d dos \<Rightarrow> nat \<Rightarrow> 'd stdio \<Rightarrow> (int \<times> 'd stdio) option" where
  "drop_iob_read_buffer D i s = do {
     file \<leftarrow> at (iob_table s) i;
     if IOBF_IN_USE \<notin> iob_Flags file then Some (OK, s)
     else do {
       let file = file\<lparr>iob_Flags := iob_Flags file - {IOBF_EOF_REACHED}\<rparr>;
       let s = set_iob i file s;
       if \<not> iob_read_buffer_is_valid file then Some (OK, s)
       else do {
         let num_unread_bytes = iob_num_unread_bytes file;
         let empty = file\<lparr>iob_BufferReadBytes := 0, iob_BufferPosition := 0\<rparr>;
         if num_unread_bytes > 0 then do {
           (position, _, err, s) \<leftarrow> iob_hook_entry D i (Action_seek (- int num_unread_bytes) SEEK_CUR) s;
           if err \<noteq> OK then Some (ERROR, (set_iob_flag i IOBF_ERROR s)\<lparr>errno := err\<rparr>)
           else Some (OK, set_iob i empty (if position < 0 then s\<lparr>errno := OK\<rparr> else s)) }
         else Some (OK, set_iob i empty s) } } }"

definition flush_r :: "'d dos \<Rightarrow> nat \<Rightarrow> 'd stdio \<Rightarrow> (int \<times> 'd stdio) option" where
  "flush_r D i s = do {
     file \<leftarrow> at (iob_table s) i;
     last_c \<leftarrow> at_int (iob_Buffer file) (int (iob_BufferWriteBytes file) - 1);
     (r, s) \<leftarrow> flush_iob_write_buffer D i s;
     if r < 0 then do {
       file \<leftarrow> at (iob_table s) i;
       Some (EOF, set_iob i (file\<lparr>iob_BufferWriteBytes := iob_BufferWriteBytes file - 1\<rparr>) s) }
     else Some (uint last_c, s) }"

end
