(* ===== verification/Stdio.thy ===== *)
theory Stdio
  imports Iob StrScan
begin

text \<open>
  The stream functions of \<^verbatim>\<open>src/library/stdio\<close>: \<open>fputc\<close>, \<open>fgetc\<close>, \<open>ungetc\<close>, \<open>fputs\<close>, \<open>fgets\<close>, \<open>fread\<close>, \<open>fwrite\<close>, \<open>fseek\<close>,
  \<open>ftell\<close>, \<open>rewind\<close>, \<open>fflush\<close>, \<open>clearerr\<close>, \<open>feof\<close>, \<open>ferror\<close> and the macros they use. A \<open>FILE *\<close> is None for NULL.
\<close>

type_synonym FILE = "nat option"

section \<open>Single characters\<close>

definition fputc_check :: "'d dos \<Rightarrow> nat \<Rightarrow> 'd stdio \<Rightarrow> (int \<times> 'd stdio) option" where
  "fputc_check D i s = do {
     file \<leftarrow> at (iob_table s) i;
     if IOBF_IN_USE \<notin> iob_Flags file \<or> IOBF_WRITE \<notin> iob_Flags file then
       Some (EOF, (set_iob_flag i IOBF_ERROR s)\<lparr>errno := EBADF\<rparr>)
     else if iob_read_buffer_is_valid file then do {
       (r, s) \<leftarrow> drop_iob_read_buffer D i s;
       Some (if r < 0 then EOF else OK, s) }
     else Some (OK, s) }"

text \<open>Storing a character in the buffer and counting it.\<close>

definition buffer_store :: "nat \<Rightarrow> byte \<Rightarrow> 'd stdio \<Rightarrow> 'd stdio option" where
  "buffer_store i b s = do {
     file \<leftarrow> at (iob_table s) i;
     if iob_BufferWriteBytes file < length (iob_Buffer file)
     then Some (set_iob i (file\<lparr>iob_Buffer := (iob_Buffer file)[iob_BufferWriteBytes file := b],
                                iob_BufferWriteBytes := iob_BufferWriteBytes file + 1\<rparr>) s)
     else None }"

definition fputc_raw :: "'d dos \<Rightarrow> int \<Rightarrow> nat \<Rightarrow> buffer_mode \<Rightarrow> 'd stdio \<Rightarrow> (int \<times> 'd stdio) option" where
  "fputc_raw D c i buffer_mode s = do {
     file \<leftarrow> at (iob_table s) i;
     (r, s) \<leftarrow> (if iob_write_buffer_is_full file then flush_iob_write_buffer D i s else Some (OK, s));
     if r < 0 then Some (EOF, s)
     else do {
       s \<leftarrow> buffer_store i (word_of_int c) s;
       (r, s) \<leftarrow> (if buffer_mode = IOBF_BUFFER_MODE_NONE \<or> buffer_mode = IOBF_BUFFER_MODE_LINE \<and> c = 10
                 then flush_iob_write_buffer D i s else Some (OK, s));
       if r < 0 then do {
         file \<leftarrow> at (iob_table s) i;
         Some (EOF, set_iob i (file\<lparr>iob_BufferWriteBytes := iob_BufferWriteBytes file - 1\<rparr>) s) }
       else Some (c mod 256, s) } }"

definition fputc :: "'d dos \<Rightarrow> int \<Rightarrow> FILE \<Rightarrow> 'd stdio \<Rightarrow> (int \<times> 'd stdio) option" where
  "fputc D c stream s =
     (case stream of None \<Rightarrow> Some (EOF, s\<lparr>errno := EFAULT\<rparr>)
      | Some i \<Rightarrow> do {
          (r, s) \<leftarrow> fputc_check D i s;
          if r < 0 then Some (EOF, s)
          else do { file \<leftarrow> at (iob_table s) i; fputc_raw D c i (iob_Mode file) s } })"

text \<open>The macros \<open>__putc_fully_buffered\<close> and \<open>__putc_line_buffered\<close>, on an unsigned character.\<close>

definition putc_fully_buffered :: "'d dos \<Rightarrow> byte \<Rightarrow> nat \<Rightarrow> 'd stdio \<Rightarrow> (int \<times> 'd stdio) option" where
  "putc_fully_buffered D c i s = do {
     file \<leftarrow> at (iob_table s) i;
     if iob_BufferWriteBytes file < iob_BufferSize file then do { s \<leftarrow> buffer_store i c s; Some (uint c, s) }
     else fputc_raw D (uint c) i IOBF_BUFFER_MODE_FULL s }"

definition putc_line_buffered :: "'d dos \<Rightarrow> byte \<Rightarrow> nat \<Rightarrow> 'd stdio \<Rightarrow> (int \<times> 'd stdio) option" where
  "putc_line_buffered D c i s = do {
     file \<leftarrow> at (iob_table s) i;
     if iob_BufferWriteBytes file < iob_BufferSize file then do {
       s \<leftarrow> buffer_store i c s;
       if c = 10 then flush_r D i s else Some (uint c, s) }
     else fputc_raw D (uint c) i IOBF_BUFFER_MODE_LINE s }"

definition fgetc_check :: "'d dos \<Rightarrow> nat \<Rightarrow> 'd stdio \<Rightarrow> (int \<times> 'd stdio) option" where
  "fgetc_check D i s = do {
     file \<leftarrow> at (iob_table s) i;
     if IOBF_IN_USE \<notin> iob_Flags file \<or> IOBF_READ \<notin> iob_Flags file then
       Some (EOF, (set_iob_flag i IOBF_ERROR s)\<lparr>errno := EBADF\<rparr>)
     else if iob_write_buffer_is_valid file then do {
       (r, s) \<leftarrow> flush_iob_write_buffer D i s;
       Some (if r < 0 then EOF else OK, s) }
     else Some (OK, s) }"

text \<open>\<open>iob_Buffer[iob_BufferPosition++]\<close>.\<close>

definition buffer_next :: "nat \<Rightarrow> 'd stdio \<Rightarrow> (byte \<times> 'd stdio) option" where
  "buffer_next i s = do {
     file \<leftarrow> at (iob_table s) i;
     b \<leftarrow> at (iob_Buffer file) (iob_BufferPosition file);
     Some (b, set_iob i (file\<lparr>iob_BufferPosition := iob_BufferPosition file + 1\<rparr>) s) }"

definition fgetc_raw :: "'d dos \<Rightarrow> nat \<Rightarrow> 'd stdio \<Rightarrow> (int \<times> 'd stdio) option" where
  "fgetc_raw D i s = do {
     file \<leftarrow> at (iob_table s) i;
     if \<not> iob_read_buffer_is_empty file then do { (b, s) \<leftarrow> buffer_next i s; Some (uint b, s) }
     else do {
       (r, s) \<leftarrow> fill_iob_read_buffer D i s;
       if r < 0 then Some (EOF, s)
       else do {
         file \<leftarrow> at (iob_table s) i;
         if iob_read_buffer_is_empty file then Some (EOF, set_iob_flag i IOBF_EOF_REACHED s)
         else do { (b, s) \<leftarrow> buffer_next i s; Some (uint b, s) } } } }"

definition getc :: "'d dos \<Rightarrow> nat \<Rightarrow> 'd stdio \<Rightarrow> (int \<times> 'd stdio) option" where
  "getc D i s = do {
     file \<leftarrow> at (iob_table s) i;
     if iob_BufferPosition file < iob_BufferReadBytes file then do { (b, s) \<leftarrow> buffer_next i s; Some (uint b, s) }
     else fgetc_raw D i s }"

definition fgetc :: "'d dos \<Rightarrow> FILE \<Rightarrow> 'd stdio \<Rightarrow> (int \<times> 'd stdio) option" where
  "fgetc D stream s =
     (case stream of None \<Rightarrow> Some (EOF, s\<lparr>errno := EFAULT\<rparr>)
      | Some i \<Rightarrow> do {
          (r, s) \<leftarrow> fgetc_check D i s;
          if r < 0 then Some (EOF, s) else getc D i s })"

definition ungetc :: "'d dos \<Rightarrow> int \<Rightarrow> FILE \<Rightarrow> 'd stdio \<Rightarrow> (int \<times> 'd stdio) option" where
  "ungetc D c stream s =
     (case stream of None \<Rightarrow> Some (EOF, s\<lparr>errno := EFAULT\<rparr>)
      | Some i \<Rightarrow> do {
          file \<leftarrow> at (iob_table s) i;
          if IOBF_IN_USE \<notin> iob_Flags file then Some (EOF, (set_iob_flag i IOBF_ERROR s)\<lparr>errno := EBADF\<rparr>)
          else if IOBF_READ \<notin> iob_Flags file then Some (EOF, (set_iob_flag i IOBF_ERROR s)\<lparr>errno := EACCES\<rparr>)
          else if c = EOF then Some (EOF, (set_iob_flag i IOBF_ERROR s)\<lparr>errno := EINVAL\<rparr>)
          else do {
            (r, s) \<leftarrow> (if iob_write_buffer_is_valid file then flush_iob_write_buffer D i s else Some (OK, s));
            if r < 0 then Some (EOF, s)
            else do {
              file \<leftarrow> at (iob_table s) i;
              if iob_BufferPosition file = 0 then Some (EOF, (set_iob_flag i IOBF_ERROR s)\<lparr>errno := ENOBUFS\<rparr>)
              else Some (c mod 256,
                set_iob i (file\<lparr>iob_Flags := iob_Flags file - {IOBF_EOF_REACHED},
                                iob_BufferPosition := iob_BufferPosition file - 1,
                                iob_Buffer := (iob_Buffer file)[iob_BufferPosition file - 1 := word_of_int c]\<rparr>) s) } } })"


section \<open>Positions and state\<close>

text \<open>The conversion of a 64-bit position to the \<open>long\<close> that \<open>ftell\<close> returns.\<close>

definition to_long :: "int \<Rightarrow> int" where
  "to_long p = sint (word_of_int p :: 32 word)"

definition ftell :: "'d dos \<Rightarrow> FILE \<Rightarrow> 'd stdio \<Rightarrow> (int \<times> 'd stdio) option" where
  "ftell D stream s =
     (case stream of None \<Rightarrow> Some (ERROR, s\<lparr>errno := EFAULT\<rparr>)
      | Some i \<Rightarrow> do {
          file \<leftarrow> at (iob_table s) i;
          if IOBF_IN_USE \<notin> iob_Flags file then Some (ERROR, (set_iob_flag i IOBF_ERROR s)\<lparr>errno := EBADF\<rparr>)
          else do {
            (position, _, err, s) \<leftarrow> iob_hook_entry D i (Action_seek 0 SEEK_CUR) s;
            if position = GETPOSITION_ERROR \<and> err \<noteq> OK then Some (ERROR, (set_iob_flag i IOBF_ERROR s)\<lparr>errno := err\<rparr>)
            else do {
              let s = (if position < 0 then s\<lparr>errno := OK\<rparr> else s);
              file \<leftarrow> at (iob_table s) i;
              let position = (if iob_read_buffer_is_valid file then position - int (iob_num_unread_bytes file)
                              else if iob_write_buffer_is_valid file then position + int (iob_num_unwritten_bytes file)
                              else position);
              Some (to_long position, s) } } })"

definition fseek :: "'d dos \<Rightarrow> FILE \<Rightarrow> int \<Rightarrow> int \<Rightarrow> 'd stdio \<Rightarrow> (int \<times> 'd stdio) option" where
  "fseek D stream offset wherefrom s =
     (case stream of None \<Rightarrow> Some (ERROR, s\<lparr>errno := EFAULT\<rparr>)
      | Some i \<Rightarrow> do {
          file \<leftarrow> at (iob_table s) i;
          if IOBF_IN_USE \<notin> iob_Flags file \<or> wherefrom < SEEK_SET \<or> SEEK_END < wherefrom then
            Some (ERROR, (set_iob_flag i IOBF_ERROR s)\<lparr>errno := EBADF\<rparr>)
          else do {
            (offset, wherefrom, s) \<leftarrow>
              (if wherefrom = SEEK_SET \<and> iob_read_buffer_is_valid file then do {
                 (current_position, s) \<leftarrow> ftell D stream s;
                 Some (if current_position \<noteq> CHANGE_FILE_ERROR then (to_long (offset - current_position), SEEK_CUR, s)
                       else (offset, wherefrom, s)) }
               else Some (offset, wherefrom, s));
            file \<leftarrow> at (iob_table s) i;
            let file = file\<lparr>iob_Flags := iob_Flags file - {IOBF_EOF_REACHED}\<rparr>;
            let s = set_iob i file s;
            if wherefrom = SEEK_CUR \<and> offset = 0 then Some (OK, s)
            else if wherefrom = SEEK_CUR \<and> iob_read_buffer_is_valid file \<and>
                    (offset < 0 \<and> - offset \<le> int (iob_BufferPosition file) \<or>
                     offset > 0 \<and> offset \<le> int (iob_num_unread_bytes file))
              then Some (OK, set_iob i (file\<lparr>iob_BufferPosition := nat (int (iob_BufferPosition file) + offset)\<rparr>) s)
            else do {
              (r, s) \<leftarrow> (if iob_write_buffer_is_valid file then flush_iob_write_buffer D i s else Some (OK, s));
              if r < 0 then Some (ERROR, s)
              else do {
                file \<leftarrow> at (iob_table s) i;
                (r, s) \<leftarrow> (if iob_read_buffer_is_valid file then drop_iob_read_buffer D i s else Some (OK, s));
                if r < 0 then Some (ERROR, s)
                else do {
                  (position, _, err, s) \<leftarrow> iob_hook_entry D i (Action_seek offset wherefrom) s;
                  if err \<noteq> OK then Some (ERROR, (set_iob_flag i IOBF_ERROR s)\<lparr>errno := err\<rparr>)
                  else Some (OK, if to_long position < 0 then s\<lparr>errno := OK\<rparr> else s) } } } } })"

definition clearerr :: "FILE \<Rightarrow> 'd stdio \<Rightarrow> 'd stdio option" where
  "clearerr stream s =
     (case stream of None \<Rightarrow> Some (s\<lparr>errno := EFAULT\<rparr>)
      | Some i \<Rightarrow> do {
          file \<leftarrow> at (iob_table s) i;
          Some (set_iob i (file\<lparr>iob_Flags := iob_Flags file - {IOBF_ERROR, IOBF_EOF_REACHED}, iob_Flags2_SERR := False\<rparr>) s) })"

definition feof :: "FILE \<Rightarrow> 'd stdio \<Rightarrow> (bool \<times> 'd stdio) option" where
  "feof stream s =
     (case stream of None \<Rightarrow> Some (False, s\<lparr>errno := EFAULT\<rparr>)
      | Some i \<Rightarrow> do { file \<leftarrow> at (iob_table s) i; Some (IOBF_EOF_REACHED \<in> iob_Flags file, s) })"

definition ferror :: "FILE \<Rightarrow> 'd stdio \<Rightarrow> (bool \<times> 'd stdio) option" where
  "ferror stream s =
     (case stream of None \<Rightarrow> Some (False, s\<lparr>errno := EFAULT\<rparr>)
      | Some i \<Rightarrow> do { file \<leftarrow> at (iob_table s) i; Some (IOBF_ERROR \<in> iob_Flags file, s) })"

definition rewind :: "'d dos \<Rightarrow> FILE \<Rightarrow> 'd stdio \<Rightarrow> 'd stdio option" where
  "rewind D stream s = do { s \<leftarrow> clearerr stream s; (_, s) \<leftarrow> fseek D stream 0 SEEK_SET s; Some s }"

definition fflush :: "'d dos \<Rightarrow> FILE \<Rightarrow> 'd stdio \<Rightarrow> (int \<times> 'd stdio) option" where
  "fflush D stream s =
     (case stream of
        Some i \<Rightarrow> do {
          file \<leftarrow> at (iob_table s) i;
          (r, s) \<leftarrow> (if iob_write_buffer_is_valid file then flush_iob_write_buffer D i s else Some (OK, s));
          Some (if r < 0 then EOF else OK, s) }
      | None \<Rightarrow> do { (r, s) \<leftarrow> flush_all_loop D None [0..<length (iob_table s)] s; Some (if r < 0 then EOF else OK, s) })"


section \<open>Blocks of data\<close>

text \<open>\<open>memchr\<close> on a piece of the buffer or of the data: the number of bytes up to and including the first \<open>c\<close>.\<close>

definition through :: "byte \<Rightarrow> byte list \<Rightarrow> nat option" where
  "through c xs = (if c \<in> set xs then Some (Suc (length (takeWhile (\<lambda>b. b \<noteq> c) xs))) else None)"

text \<open>
  \<open>fread\<close>: the loop returns the number of bytes read, or None where the code leaves with an error. \<open>data\<close> runs through the memory
  of the caller.
\<close>

definition read_bypass :: "'d dos \<Rightarrow> nat \<Rightarrow> addr \<Rightarrow> nat \<Rightarrow> nat \<Rightarrow> 'd stdio \<Rightarrow> (nat option \<times> 'd stdio) option" where
  "read_bypass D i data total_size total_bytes_read s = do {
     file \<leftarrow> at (iob_table s) i;
     (num_bytes_read, s) \<leftarrow> FdHook.read D (iob_Descriptor file) data total_size s;
     if num_bytes_read = -1 then Some (None, set_iob_flag i IOBF_ERROR s)
     else Some (Some (total_bytes_read + nat num_bytes_read),
                if num_bytes_read = 0 then set_iob_flag i IOBF_EOF_REACHED s else s) }"

text \<open>Copying from the buffer: at most \<open>n\<close> of the unread bytes.\<close>

definition buffer_take :: "nat \<Rightarrow> nat \<Rightarrow> 'd stdio \<Rightarrow> (byte list \<times> 'd stdio) option" where
  "buffer_take i n s = do {
     file \<leftarrow> at (iob_table s) i;
     if iob_BufferPosition file + n \<le> length (iob_Buffer file)
     then Some (take n (drop (iob_BufferPosition file) (iob_Buffer file)),
                set_iob i (file\<lparr>iob_BufferPosition := iob_BufferPosition file + n\<rparr>) s)
     else None }"

function fread_loop :: "'d dos \<Rightarrow> nat \<Rightarrow> addr \<Rightarrow> nat \<Rightarrow> nat \<Rightarrow> 'd stdio \<Rightarrow> (nat option \<times> 'd stdio) option" where
  "fread_loop D i data total_size total_bytes_read s =
     (if total_size = 0 then Some (Some total_bytes_read, s)
      else do {
        file \<leftarrow> at (iob_table s) i;
        if iob_BufferReadBytes file = 0 \<and> iob_BufferSize file \<le> total_size then read_bypass D i data total_size total_bytes_read s
        else do {
          let n = (if iob_BufferPosition file < iob_BufferReadBytes file
                   then min (iob_BufferReadBytes file - iob_BufferPosition file) total_size else 0);
          (xs, s) \<leftarrow> buffer_take i n s;
          s \<leftarrow> store_bytes data xs s;
          if n = total_size then Some (Some (total_bytes_read + n), s)
          else do {
            (c, s) \<leftarrow> getc D i s;
            if c = EOF then Some (Some (total_bytes_read + n), s)
            else do {
              s \<leftarrow> store_bytes (data + n) [word_of_int c] s;
              fread_loop D i (data + n + 1) (total_size - n - 1) (total_bytes_read + n + 1) s } } } })"
  by pat_completeness auto

termination
  by (relation "measure (\<lambda>(D, i, data, total_size, total_bytes_read, s). total_size)") auto

definition fread :: "'d dos \<Rightarrow> addr \<Rightarrow> size_t \<Rightarrow> size_t \<Rightarrow> FILE \<Rightarrow> 'd stdio \<Rightarrow> (size_t \<times> 'd stdio) option" where
  "fread D ptr element_size count stream s =
     (case stream of None \<Rightarrow> Some (0, s\<lparr>errno := EFAULT\<rparr>)
      | Some i \<Rightarrow>
          if ptr = NULL then Some (0, s\<lparr>errno := EFAULT\<rparr>)
          else do {
            file \<leftarrow> at (iob_table s) i;
            if IOBF_IN_USE \<notin> iob_Flags file \<or> IOBF_READ \<notin> iob_Flags file then
              Some (0, (set_iob_flag i IOBF_ERROR s)\<lparr>errno := EBADF\<rparr>)
            else do {
              s \<leftarrow> clearerr stream s;
              if element_size = 0 \<or> count = 0 then Some (0, s)
              else do {
                (r, s) \<leftarrow> fgetc_check D i s;
                let total_size = element_size * count mod 2 ^ 32;
                if r < 0 \<or> element_size \<noteq> total_size div count then Some (0, s)
                else do {
                  (n, s) \<leftarrow> (if iob_Mode file = IOBF_BUFFER_MODE_NONE then read_bypass D i ptr total_size 0 s
                            else fread_loop D i ptr total_size 0 s);
                  Some (case n of None \<Rightarrow> 0 | Some total_bytes_read \<Rightarrow> total_bytes_read div element_size, s) } } } })"

text \<open>
  The common part of the writing loops: as much of the data as fits goes to the buffer, with \<open>line\<close> at most to the end of the
  line, and the buffer is flushed when it is full or, with \<open>line\<close>, when it got a line end. \<open>Failed\<close>: the flush failed;
  \<open>Finished\<close>: no data left; \<open>Again\<close>: room in the buffer; \<open>Single\<close>: go on with a single character.
\<close>

datatype block = Failed | Finished | Again | Single

definition buffer_append :: "nat \<Rightarrow> byte list \<Rightarrow> 'd stdio \<Rightarrow> 'd stdio option" where
  "buffer_append i xs s = do {
     file \<leftarrow> at (iob_table s) i;
     if iob_BufferWriteBytes file + length xs \<le> length (iob_Buffer file)
     then Some (set_iob i (file\<lparr>iob_Buffer := take (iob_BufferWriteBytes file) (iob_Buffer file) @ xs @
                                               drop (iob_BufferWriteBytes file + length xs) (iob_Buffer file),
                                iob_BufferWriteBytes := iob_BufferWriteBytes file + length xs\<rparr>) s)
     else None }"

definition write_block :: "'d dos \<Rightarrow> nat \<Rightarrow> bool \<Rightarrow> addr \<Rightarrow> nat \<Rightarrow> 'd stdio \<Rightarrow> (block \<times> nat \<times> 'd stdio) option" where
  "write_block D i line p total_size s = do {
     file \<leftarrow> at (iob_table s) i;
     if iob_BufferWriteBytes file < iob_BufferSize file then do {
       xs \<leftarrow> load_bytes p (min (iob_BufferSize file - iob_BufferWriteBytes file) total_size) s;
       let lf = (if line then through 10 xs else None);
       let xs = (case lf of None \<Rightarrow> xs | Some n \<Rightarrow> take n xs);
       s \<leftarrow> buffer_append i xs s;
       file \<leftarrow> at (iob_table s) i;
       (r, s) \<leftarrow> (if lf \<noteq> None \<or> iob_write_buffer_is_full file then flush_iob_write_buffer D i s else Some (OK, s));
       if r < 0 then Some (Failed, 0, s)
       else if total_size = length xs then Some (Finished, length xs, s)
       else do {
         file \<leftarrow> at (iob_table s) i;
         Some (if iob_BufferWriteBytes file < iob_BufferSize file then Again else Single, length xs, s) } }
     else Some (Single, 0, s) }"

text \<open>The loops of \<open>fwrite\<close>. In the fully buffered one the single character does not reduce \<open>total_size\<close>.\<close>

partial_function (option) fwrite_line_loop :: "'d dos \<Rightarrow> nat \<Rightarrow> addr \<Rightarrow> nat \<Rightarrow> nat \<Rightarrow> 'd stdio \<Rightarrow> (nat \<times> 'd stdio) option" where
  "fwrite_line_loop D i p total_size written s =
     (if total_size = 0 then Some (written, s)
      else do {
        (b, n, s) \<leftarrow> write_block D i True p total_size s;
        if b = Failed \<or> b = Finished then Some (written + n, s)
        else if b = Again then fwrite_line_loop D i (p + n) (total_size - n) (written + n) s
        else do {
          c \<leftarrow> load (ram s) (p + n);
          (r, s) \<leftarrow> putc_line_buffered D c i s;
          if r = EOF then Some (written + n, s)
          else fwrite_line_loop D i (p + n + 1) (total_size - n - 1) (written + n + 1) s } })"

partial_function (option) fwrite_full_loop :: "'d dos \<Rightarrow> nat \<Rightarrow> addr \<Rightarrow> nat \<Rightarrow> nat \<Rightarrow> 'd stdio \<Rightarrow> (nat option \<times> 'd stdio) option" where
  "fwrite_full_loop D i p total_size written s =
     (if total_size = 0 then Some (Some written, s)
      else do {
        file \<leftarrow> at (iob_table s) i;
        if iob_BufferWriteBytes file = 0 \<and> iob_BufferSize file \<le> total_size then do {
          (num_bytes_written, s) \<leftarrow> write_r D (iob_Descriptor file) p total_size s;
          if num_bytes_written = -1 then Some (None, set_iob_flag i IOBF_ERROR s)
          else Some (Some (written + nat num_bytes_written), s) }
        else do {
          (b, n, s) \<leftarrow> write_block D i False p total_size s;
          if b = Failed \<or> b = Finished then Some (Some (written + n), s)
          else if b = Again then fwrite_full_loop D i (p + n) (total_size - n) (written + n) s
          else do {
            c \<leftarrow> load (ram s) (p + n);
            (r, s) \<leftarrow> putc_fully_buffered D c i s;
            if r = EOF then Some (None, s)
            else fwrite_full_loop D i (p + n + 1) (total_size - n) (written + n + 1) s } } })"

text \<open>The mode of an unbuffered stream on an interactive descriptor is line buffering.\<close>

definition effective_mode :: "iob \<Rightarrow> 'd stdio \<Rightarrow> buffer_mode option" where
  "effective_mode file s =
     (if iob_Mode file = IOBF_BUFFER_MODE_NONE then do {
        fd \<leftarrow> at_int (fd_table s) (iob_Descriptor file);
        Some (if FDF_IS_INTERACTIVE \<in> fd_Flags fd then IOBF_BUFFER_MODE_LINE else IOBF_BUFFER_MODE_NONE) }
      else Some (iob_Mode file))"

definition fwrite :: "'d dos \<Rightarrow> addr \<Rightarrow> size_t \<Rightarrow> size_t \<Rightarrow> FILE \<Rightarrow> 'd stdio \<Rightarrow> (size_t \<times> 'd stdio) option" where
  "fwrite D ptr element_size count stream s =
     (case stream of None \<Rightarrow> Some (0, s\<lparr>errno := EFAULT\<rparr>)
      | Some i \<Rightarrow>
          if ptr = NULL then Some (0, s\<lparr>errno := EFAULT\<rparr>)
          else do {
            file \<leftarrow> at (iob_table s) i;
            if IOBF_IN_USE \<notin> iob_Flags file \<or> IOBF_WRITE \<notin> iob_Flags file then
              Some (0, (set_iob i (file\<lparr>iob_Flags := insert IOBF_ERROR (iob_Flags file), iob_Flags2_SERR := True\<rparr>) s)\<lparr>errno := EBADF\<rparr>)
            else if element_size = 0 \<or> count = 0 then Some (0, s)
            else do {
              let total_size = element_size * count mod 2 ^ 32;
              if element_size \<noteq> total_size div count then Some (0, s)
              else do {
                mode \<leftarrow> effective_mode file s;
                case mode of
                  IOBF_BUFFER_MODE_LINE \<Rightarrow> do {
                    (n, s) \<leftarrow> fwrite_line_loop D i ptr total_size 0 s;
                    Some (n div element_size, s) }
                | IOBF_BUFFER_MODE_NONE \<Rightarrow> do {
                    (n, s) \<leftarrow> write_r D (iob_Descriptor file) ptr total_size s;
                    if n = -1 then Some (0, set_iob_flag i IOBF_ERROR s)
                    else do {
                      file \<leftarrow> at (iob_table s) i;
                      (_, s) \<leftarrow> (if iob_write_buffer_is_valid file then flush_iob_write_buffer D i s else Some (OK, s));
                      Some (nat n div element_size, s) } }
                | IOBF_BUFFER_MODE_FULL \<Rightarrow> do {
                    (n, s) \<leftarrow> fwrite_full_loop D i ptr total_size 0 s;
                    Some (case n of None \<Rightarrow> 0 | Some n \<Rightarrow> n div element_size, s) } } } })"

text \<open>\<open>fputs\<close>: a loop returns whether it got to the end.\<close>

partial_function (option) fputs_line_loop :: "'d dos \<Rightarrow> nat \<Rightarrow> addr \<Rightarrow> nat \<Rightarrow> 'd stdio \<Rightarrow> (bool \<times> 'd stdio) option" where
  "fputs_line_loop D i p total_size s =
     (if total_size = 0 then Some (True, s)
      else do {
        (b, n, s) \<leftarrow> write_block D i True p total_size s;
        if b = Failed then Some (False, s)
        else if b = Finished then Some (True, s)
        else if b = Again then fputs_line_loop D i (p + n) (total_size - n) s
        else do {
          c \<leftarrow> load (ram s) (p + n);
          (r, s) \<leftarrow> putc_line_buffered D c i s;
          if r = EOF then Some (False, s) else fputs_line_loop D i (p + n + 1) (total_size - n - 1) s } })"

partial_function (option) fputs_full_loop :: "'d dos \<Rightarrow> nat \<Rightarrow> addr \<Rightarrow> nat \<Rightarrow> 'd stdio \<Rightarrow> (bool \<times> 'd stdio) option" where
  "fputs_full_loop D i p total_size s =
     (if total_size = 0 then Some (True, s)
      else do {
        file \<leftarrow> at (iob_table s) i;
        if iob_BufferWriteBytes file = 0 \<and> iob_BufferSize file \<le> total_size then do {
          (num_bytes_written, s) \<leftarrow> write_r D (iob_Descriptor file) p total_size s;
          if num_bytes_written = -1 then Some (False, set_iob_flag i IOBF_ERROR s) else Some (True, s) }
        else do {
          (b, n, s) \<leftarrow> write_block D i False p total_size s;
          if b = Failed then Some (False, s)
          else if b = Finished then Some (True, s)
          else if b = Again then fputs_full_loop D i (p + n) (total_size - n) s
          else do {
            c \<leftarrow> load (ram s) (p + n);
            (r, s) \<leftarrow> putc_fully_buffered D c i s;
            if r = EOF then Some (False, s) else fputs_full_loop D i (p + n + 1) (total_size - n - 1) s } } })"

definition fputs_body :: "'d dos \<Rightarrow> nat \<Rightarrow> addr \<Rightarrow> 'd stdio \<Rightarrow> (bool \<times> 'd stdio) option" where
  "fputs_body D i p s = do {
     (r, s) \<leftarrow> fputc_check D i s;
     if r < 0 then Some (False, s)
     else do {
       total_size \<leftarrow> strlen (ram s) p;
       if total_size = 0 then Some (True, s)
       else do {
         file \<leftarrow> at (iob_table s) i;
         mode \<leftarrow> effective_mode file s;
         case mode of
           IOBF_BUFFER_MODE_LINE \<Rightarrow> fputs_line_loop D i p total_size s
         | IOBF_BUFFER_MODE_NONE \<Rightarrow> do {
             (n, s) \<leftarrow> write_r D (iob_Descriptor file) p total_size s;
             Some (if n = -1 then (False, set_iob_flag i IOBF_ERROR s) else (True, s)) }
         | IOBF_BUFFER_MODE_FULL \<Rightarrow> fputs_full_loop D i p total_size s } } }"

definition fputs :: "'d dos \<Rightarrow> addr \<Rightarrow> FILE \<Rightarrow> 'd stdio \<Rightarrow> (int \<times> 'd stdio) option" where
  "fputs D p stream s =
     (case stream of None \<Rightarrow> Some (EOF, s\<lparr>errno := EFAULT\<rparr>)
      | Some i \<Rightarrow>
          if p = NULL then Some (EOF, s\<lparr>errno := EFAULT\<rparr>)
          else do {
            (ok, s) \<leftarrow> fputs_body D i p s;
            if \<not> ok then Some (EOF, s)
            else do {
              file \<leftarrow> at (iob_table s) i;
              (r, s) \<leftarrow> (if iob_Mode file = IOBF_BUFFER_MODE_NONE \<and> iob_write_buffer_is_valid file
                        then flush_iob_write_buffer D i s else Some (OK, s));
              Some (if r < 0 then EOF else OK, s) } })"

text \<open>\<open>fgets\<close>: the loop returns the pointer the function returns; \<open>p\<close> runs through the caller's memory.\<close>

function fgets_loop :: "'d dos \<Rightarrow> nat \<Rightarrow> addr \<Rightarrow> addr \<Rightarrow> nat \<Rightarrow> 'd stdio \<Rightarrow> (addr \<times> 'd stdio) option" where
  "fgets_loop D i buf p n s =
     (if n = 0 then do { s \<leftarrow> store_bytes p [0] s; Some (buf, s) }
      else do {
        file \<leftarrow> at (iob_table s) i;
        let k = (if iob_BufferPosition file < iob_BufferReadBytes file
                 then min (iob_BufferReadBytes file - iob_BufferPosition file) n else 0);
        let lf = through 10 (take k (drop (iob_BufferPosition file) (iob_Buffer file)));
        let k = (case lf of Some l \<Rightarrow> l | None \<Rightarrow> k);
        (xs, s) \<leftarrow> buffer_take i k s;
        s \<leftarrow> store_bytes p xs s;
        let p = p + k;
        if lf \<noteq> None \<or> k = n then do { s \<leftarrow> store_bytes p [0] s; Some (buf, s) }
        else do {
          (c, s) \<leftarrow> getc D i s;
          if c = EOF then do {
            file \<leftarrow> at (iob_table s) i;
            s \<leftarrow> store_bytes p [0] s;
            Some (if IOBF_ERROR \<in> iob_Flags file \<or> buf = p then NULL else buf, s) }
          else do {
            s \<leftarrow> store_bytes p [word_of_int c] s;
            if c = 10 then do { s \<leftarrow> store_bytes (p + 1) [0] s; Some (buf, s) }
            else fgets_loop D i buf (p + 1) (n - k - 1) s } } })"
  by pat_completeness auto

termination
  by (relation "measure (\<lambda>(D, i, buf, p, n, s). n)") auto

definition fgets :: "'d dos \<Rightarrow> addr \<Rightarrow> int \<Rightarrow> FILE \<Rightarrow> 'd stdio \<Rightarrow> (addr \<times> 'd stdio) option" where
  "fgets D buf n stream s =
     (case stream of None \<Rightarrow> Some (NULL, s\<lparr>errno := EFAULT\<rparr>)
      | Some i \<Rightarrow>
          if buf = NULL then Some (NULL, s\<lparr>errno := EFAULT\<rparr>)
          else if n \<le> 0 then Some (NULL, s)
          else do {
            (r, s) \<leftarrow> fgetc_check D i s;
            if r < 0 then Some (NULL, s)
            else do {
              s \<leftarrow> clearerr stream s;
              fgets_loop D i buf buf (nat n - 1) s } })"

end
