(* ===== verification/Streams.thy ===== *)
theory Streams
  imports Iob
begin

text \<open>
  The file a stream stands for. A stream in use represents a content and a position: those of the file behind its descriptor,
  with the bytes in the write buffer written and the bytes in the read buffer not yet read. \<open>streams content F A s\<close> says that
  each stream \<open>i\<close> in use has the descriptor \<open>F i\<close>, that different streams have different file handles, and that stream \<open>i\<close>
  represents \<open>A i\<close>. The lemmas show what flushing, filling and dropping a buffer do to the files represented: nothing.
\<close>

definition in_use :: "'d stdio \<Rightarrow> nat \<Rightarrow> bool" where
  "in_use s i \<longleftrightarrow> i < length (iob_table s) \<and> IOBF_IN_USE \<in> iob_Flags (iob_table s ! i)"

definition buffer_ok :: "iob \<Rightarrow> byte list \<Rightarrow> nat \<Rightarrow> bool" where
  "buffer_ok file c p \<longleftrightarrow> 0 < iob_BufferSize file \<and> length (iob_Buffer file) = iob_BufferSize file \<and>
     iob_BufferPosition file \<le> iob_BufferReadBytes file \<and> iob_BufferReadBytes file \<le> iob_BufferSize file \<and>
     iob_BufferWriteBytes file \<le> iob_BufferSize file \<and> (iob_BufferWriteBytes file = 0 \<or> iob_BufferReadBytes file = 0) \<and>
     iob_BufferReadBytes file \<le> p \<and>
     take (iob_BufferReadBytes file) (iob_Buffer file) = take (iob_BufferReadBytes file) (drop (p - iob_BufferReadBytes file) c)"

definition view :: "iob \<Rightarrow> byte list \<Rightarrow> nat \<Rightarrow> byte list \<times> nat" where
  "view file c p = (overlay c p (take (iob_BufferWriteBytes file) (iob_Buffer file)),
     p + iob_BufferWriteBytes file - (iob_BufferReadBytes file - iob_BufferPosition file))"

definition stream_ok :: "('d \<Rightarrow> bptr \<rightharpoonup> byte list \<times> nat) \<Rightarrow> 'd stdio \<Rightarrow> nat \<Rightarrow> nat \<Rightarrow> byte list \<times> nat \<Rightarrow> bool" where
  "stream_ok content s i f a \<longleftrightarrow> get_file_descriptor True (iob_Descriptor (iob_table s ! i)) s = Some f \<and>
     (\<exists>c p. fd_ok content s f c p \<and> buffer_ok (iob_table s ! i) c p \<and> a = view (iob_table s ! i) c p)"

definition streams :: "('d \<Rightarrow> bptr \<rightharpoonup> byte list \<times> nat) \<Rightarrow> (nat \<Rightarrow> nat) \<Rightarrow> (nat \<Rightarrow> byte list \<times> nat) \<Rightarrow> 'd stdio \<Rightarrow> bool" where
  "streams content F A s \<longleftrightarrow>
     (\<forall>i. in_use s i \<longrightarrow> stream_ok content s i (F i) (A i)) \<and>
     (\<forall>i j. in_use s i \<longrightarrow> in_use s j \<longrightarrow> i \<noteq> j \<longrightarrow> fd_File (fd_table s ! F i) \<noteq> fd_File (fd_table s ! F j))"

text \<open>What no operation on a stream changes.\<close>

definition same_rest :: "'d stdio \<Rightarrow> 'd stdio \<Rightarrow> bool" where
  "same_rest s s' \<longleftrightarrow> ram s' = ram s \<and> errno s' = errno s \<and> unix_path_semantics s' = unix_path_semantics s \<and>
     map fd_Flags (fd_table s') = map fd_Flags (fd_table s)"

lemma same_rest_refl [simp]: "same_rest s s"
  by (simp add: same_rest_def)

lemma same_rest_trans: "same_rest s s' \<Longrightarrow> same_rest s' s'' \<Longrightarrow> same_rest s s''"
  by (simp add: same_rest_def)

lemma same_rest_set_iob [simp]: "same_rest s (set_iob i file s') = same_rest s s'"
  by (simp add: same_rest_def set_iob_def)

lemma iob_table_set_iob [simp]: "iob_table (set_iob i file s) = (iob_table s)[i := file]"
  by (simp add: set_iob_def)

lemma rest_set_iob [simp]: "ram (set_iob i file s) = ram s" "errno (set_iob i file s) = errno s" "fd_table (set_iob i file s) = fd_table s"
  "dos_state (set_iob i file s) = dos_state s" "unix_path_semantics (set_iob i file s) = unix_path_semantics s"
  by (simp_all add: set_iob_def)

text \<open>The parts of a stream that stay as they are when a call succeeds.\<close>

definition iob_const :: "iob \<Rightarrow> iob_flag set \<times> buffer_mode \<times> nat \<times> int" where
  "iob_const file = (iob_Flags file - {IOBF_EOF_REACHED}, iob_Mode file, iob_BufferSize file, iob_Descriptor file)"

definition steady :: "'d stdio \<Rightarrow> 'd stdio \<Rightarrow> bool" where
  "steady s s' \<longleftrightarrow> same_rest s s' \<and> map iob_const (iob_table s') = map iob_const (iob_table s)"

lemma steady_refl [simp]: "steady s s"
  by (simp add: steady_def)

lemma steady_trans: "steady s s' \<Longrightarrow> steady s' s'' \<Longrightarrow> steady s s''"
  using same_rest_trans by (auto simp: steady_def)

lemma map_const_update:
  assumes "iob_const file = iob_const (t ! i)" "i < length t"
  shows "map iob_const (t[i := file]) = map iob_const t"
  using assms by (metis list_update_id map_update)

lemma steady_const:
  assumes "steady s s'"
  shows "length (iob_table s') = length (iob_table s)" "i < length (iob_table s) \<Longrightarrow> iob_const (iob_table s' ! i) = iob_const (iob_table s ! i)"
proof -
  have m: "map iob_const (iob_table s') = map iob_const (iob_table s)" using assms by (simp add: steady_def)
  from arg_cong [OF m, of length] show l: "length (iob_table s') = length (iob_table s)" by simp
  from arg_cong [OF m, of "\<lambda>t. t ! i"] l
  show "i < length (iob_table s) \<Longrightarrow> iob_const (iob_table s' ! i) = iob_const (iob_table s ! i)" by simp
qed

lemma steady_flag:
  assumes "steady s s'" "i < length (iob_table s)" "g \<noteq> IOBF_EOF_REACHED"
  shows "g \<in> iob_Flags (iob_table s' ! i) \<longleftrightarrow> g \<in> iob_Flags (iob_table s ! i)"
proof -
  have "iob_Flags (iob_table s' ! i) - {IOBF_EOF_REACHED} = iob_Flags (iob_table s ! i) - {IOBF_EOF_REACHED}"
    using steady_const(2) [OF assms(1,2)] by (simp add: iob_const_def)
  then show ?thesis using assms(3) by blast
qed

lemma steady_in_use: "steady s s' \<Longrightarrow> in_use s' i \<longleftrightarrow> in_use s i"
  using steady_flag [of s s' i IOBF_IN_USE] steady_const(1) [of s s'] by (auto simp: in_use_def)

lemma steady_fixed:
  assumes "steady s s'" "i < length (iob_table s)"
  shows "iob_Mode (iob_table s' ! i) = iob_Mode (iob_table s ! i)" "iob_BufferSize (iob_table s' ! i) = iob_BufferSize (iob_table s ! i)"
    "iob_Descriptor (iob_table s' ! i) = iob_Descriptor (iob_table s ! i)"
  using steady_const(2) [OF assms] by (simp_all add: iob_const_def)

lemma steady_set_iob:
  assumes "same_rest s s'" "iob_table s' = iob_table s" "iob_const file = iob_const (iob_table s ! i)" "i < length (iob_table s)"
  shows "steady s (set_iob i file s')"
  using assms map_const_update by (simp add: steady_def)

lemma get_file_descriptor_set_iob [simp]: "get_file_descriptor b n (set_iob i file s) = get_file_descriptor b n s"
  by (simp add: get_file_descriptor_def)

lemma fd_ok_set_iob [simp]: "fd_ok content (set_iob i file s) f c p = fd_ok content s f c p"
  by (simp add: fd_ok_def)

lemma moved_rest:
  assumes "moved content f c p s s'"
  shows "same_rest s s'" "iob_table s' = iob_table s" "length (fd_table s') = length (fd_table s)"
    "fd_File (fd_table s' ! k) = fd_File (fd_table s ! k)" "k \<noteq> f \<Longrightarrow> fd_table s' ! k = fd_table s ! k"
    "get_file_descriptor b n s' = get_file_descriptor b n s"
    "h \<noteq> fd_File (fd_table s ! f) \<Longrightarrow> content (dos_state s') h = content (dos_state s) h"
proof -
  obtain q d where s': "s' = s\<lparr>dos_state := d, fd_table := (fd_table s)[f := (fd_table s ! f)\<lparr>fd_Position := q\<rparr>]\<rparr>"
    and d: "content d = (content (dos_state s))(fd_File (fd_table s ! f) \<mapsto> (c, p))" using assms unfolding moved_def by blast
  have n: "(fd_table s)[f := (fd_table s ! f)\<lparr>fd_Position := q\<rparr>] ! k = (if k = f \<and> f < length (fd_table s) then (fd_table s ! f)\<lparr>fd_Position := q\<rparr> else fd_table s ! k)" for k
    by (cases "f < length (fd_table s)") (auto simp: nth_list_update list_update_beyond)
  have "map fd_Flags ((fd_table s)[f := (fd_table s ! f)\<lparr>fd_Position := q\<rparr>]) = map fd_Flags (fd_table s)"
    by (rule nth_equalityI) (auto simp: n)
  then show "same_rest s s'" by (simp add: same_rest_def s')
  show "iob_table s' = iob_table s" "length (fd_table s') = length (fd_table s)" by (simp_all add: s')
  show "fd_File (fd_table s' ! k) = fd_File (fd_table s ! k)" "k \<noteq> f \<Longrightarrow> fd_table s' ! k = fd_table s ! k" by (simp_all add: s' n)
  show "get_file_descriptor b n s' = get_file_descriptor b n s"
    by (simp add: get_file_descriptor_def s' n Let_def cong: option.case_cong)
  show "h \<noteq> fd_File (fd_table s ! f) \<Longrightarrow> content (dos_state s') h = content (dos_state s) h" by (simp add: s' d)
qed

lemma moved_refl:
  assumes "fd_ok content s f c p"
  shows "moved content f c p s s"
proof -
  note fd = fd_okD [OF assms]
  have "s = s\<lparr>dos_state := dos_state s, fd_table := (fd_table s)[f := (fd_table s ! f)\<lparr>fd_Position := fd_Position (fd_table s ! f)\<rparr>]\<rparr>"
    by simp
  then show ?thesis unfolding moved_def using fd(4,5) by (metis fun_upd_triv)
qed

lemma get_file_descriptor_in_range: "get_file_descriptor b n s = Some f \<Longrightarrow> at_int (fd_table s) n = Some (fd_table s ! nat n)"
  by (simp add: get_file_descriptor_def at_int_def at_def Let_def split: if_splits)

lemma streamsD:
  assumes "streams content F A s" "in_use s i"
  obtains c p where "fd_ok content s (F i) c p" "buffer_ok (iob_table s ! i) c p" "A i = view (iob_table s ! i) c p"
    "at (iob_table s) i = Some (iob_table s ! i)" "i < length (iob_table s)" "IOBF_IN_USE \<in> iob_Flags (iob_table s ! i)"
    "\<forall>D fam. iob_hook_entry D i fam s = fd_hook_entry D (F i) fam s"
proof -
  obtain c p where s: "get_file_descriptor True (iob_Descriptor (iob_table s ! i)) s = Some (F i)"
    "fd_ok content s (F i) c p" "buffer_ok (iob_table s ! i) c p" "A i = view (iob_table s ! i) c p"
    using assms unfolding streams_def stream_ok_def by blast
  have i: "i < length (iob_table s)" "IOBF_IN_USE \<in> iob_Flags (iob_table s ! i)" using assms(2) by (simp_all add: in_use_def)
  then have a: "at (iob_table s) i = Some (iob_table s ! i)" by (simp add: at_def)
  have "iob_hook_entry D i fam s = fd_hook_entry D (F i) fam s" for D fam
    unfolding iob_hook_entry_def a bind.bind_lunit get_file_descriptor_in_range [OF s(1)] s(1) option.case ..
  then show thesis using that s i a by blast
qed

lemma streams_update:
  assumes S: "streams content F A s" and u: "in_use s i" and m: "moved content (F i) c p s s'"
    and new: "IOBF_IN_USE \<in> iob_Flags file" "iob_Descriptor file = iob_Descriptor (iob_table s ! i)" "buffer_ok file c p"
  shows "streams content F (A(i := view file c p)) (set_iob i file s')"
proof -
  note m' = moved_rest [OF m]
  have i: "i < length (iob_table s)" using u by (simp add: in_use_def)
  have uses: "in_use (set_iob i file s') j \<longleftrightarrow> in_use s j" for j
    using u new(1) by (auto simp: in_use_def m'(2) nth_list_update)
  obtain c0 p0 where "fd_ok content s (F i) c0 p0" by (rule streamsD [OF S u])
  then have fi: "fd_ok content (set_iob i file s') (F i) c p" using fd_ok_moved [OF _ m] by simp
  have gi: "get_file_descriptor True (iob_Descriptor file) (set_iob i file s') = Some (F i)"
    using S u m'(6) by (simp add: streams_def stream_ok_def new(2))
  have si: "stream_ok content (set_iob i file s') i (F i) (view file c p)"
    using fi gi new(3) i by (auto simp: stream_ok_def m'(2))
  have sj: "stream_ok content (set_iob i file s') j (F j) (A j)" if use: "in_use s j" and ne: "j \<noteq> i" for j
  proof -
    have h: "fd_File (fd_table s ! F j) \<noteq> fd_File (fd_table s ! F i)" using S u use ne by (auto simp: streams_def)
    then have "F j \<noteq> F i" by auto
    obtain c' p' where j: "get_file_descriptor True (iob_Descriptor (iob_table s ! j)) s = Some (F j)"
      "fd_ok content s (F j) c' p'" "buffer_ok (iob_table s ! j) c' p'" "A j = view (iob_table s ! j) c' p'"
      using S use unfolding streams_def stream_ok_def by blast
    have "fd_ok content s' (F j) c' p'" using j(2) h \<open>F j \<noteq> F i\<close> m'(3,5,7) by (simp add: fd_ok_def)
    then have "\<exists>c p. fd_ok content s' (F j) c p \<and> buffer_ok (iob_table s ! j) c p \<and> A j = view (iob_table s ! j) c p"
      using j(3,4) by blast
    then show ?thesis using j(1) ne m'(2,6) by (simp add: stream_ok_def)
  qed
  show ?thesis unfolding streams_def uses using si sj S m'(4) by (auto simp: streams_def)
qed

lemma streams_same:
  assumes "streams content F A s" "iob_table s' = iob_table s" "fd_table s' = fd_table s" "dos_state s' = dos_state s"
  shows "streams content F A s'"
proof -
  have "get_file_descriptor b n s' = get_file_descriptor b n s" for b n using assms(3) by (simp add: get_file_descriptor_def)
  moreover have "fd_ok content s' f c p = fd_ok content s f c p" for f c p using assms(3,4) by (simp add: fd_ok_def)
  ultimately show ?thesis using assms(1-3) by (simp add: streams_def stream_ok_def in_use_def)
qed

lemma streams_in_use_set: "in_use s i \<Longrightarrow> IOBF_IN_USE \<in> iob_Flags file \<Longrightarrow> iob_table s' = iob_table s \<Longrightarrow> in_use (set_iob i file s') j \<longleftrightarrow> in_use s j"
  by (auto simp: in_use_def nth_list_update)


section \<open>Flushing\<close>

lemma flush_ok:
  assumes D: "dos_files D content" and S: "streams content F A s" and u: "in_use s i"
  obtains s' where "flush_iob_write_buffer D i s = Some (OK, s')" "streams content F A s'" "same_rest s s'"
    "iob_table s' = (iob_table s)[i := (iob_table s ! i)\<lparr>iob_BufferWriteBytes := 0\<rparr>]"
proof -
  let ?file = "iob_table s ! i"
  obtain c p where f: "fd_ok content s (F i) c p" and b: "buffer_ok ?file c p" and a: "A i = view ?file c p"
    and at: "at (iob_table s) i = Some ?file" and i: "i < length (iob_table s)" "IOBF_IN_USE \<in> iob_Flags ?file"
    and hook: "\<forall>D fam. iob_hook_entry D i fam s = fd_hook_entry D (F i) fam s" by (rule streamsD [OF S u])
  show thesis
  proof (cases "iob_BufferWriteBytes ?file = 0")
    case True
    then have "?file\<lparr>iob_BufferWriteBytes := 0\<rparr> = ?file" by simp
    then have "iob_table s = (iob_table s)[i := ?file\<lparr>iob_BufferWriteBytes := 0\<rparr>]" by (metis list_update_id)
    moreover have "flush_iob_write_buffer D i s = Some (OK, s)" using True at by (simp add: flush_iob_write_buffer_def)
    ultimately show thesis using that [of s] S by simp
  next
    case False
    let ?xs = "take (iob_BufferWriteBytes ?file) (iob_Buffer ?file)"
    have n: "length ?xs = iob_BufferWriteBytes ?file" "iob_BufferReadBytes ?file = 0" "iob_BufferPosition ?file = 0"
      using b False by (auto simp: buffer_ok_def)
    obtain s1 where h: "fd_hook_entry D (F i) (Action_write ?xs) s = Some (int (length ?xs), [], OK, s1)"
      and m: "moved content (F i) (overlay c p ?xs) (p + length ?xs) s s1" by (rule hook_write_ok [OF D f])
    let ?new = "?file\<lparr>iob_BufferWriteBytes := 0\<rparr>"
    have "buffer_ok ?new (overlay c p ?xs) (p + length ?xs)" using b n by (simp add: buffer_ok_def)
    then have "streams content F (A(i := view ?new (overlay c p ?xs) (p + length ?xs))) (set_iob i ?new s1)"
      by (intro streams_update [OF S u m]) (use i in simp_all)
    moreover have "view ?new (overlay c p ?xs) (p + length ?xs) = A i" using n by (simp add: view_def a)
    ultimately have "streams content F A (set_iob i ?new s1)" by (metis fun_upd_triv)
    moreover have "flush_iob_write_buffer D i s = Some (OK, set_iob i ?new s1)"
      using False i(2) h at by (simp add: flush_iob_write_buffer_def hook)
    ultimately show thesis using that moved_rest(1,2) [OF m] by simp
  qed
qed

lemma flush_all_ok:
  assumes D: "dos_files D content"
  shows "streams content F A s \<Longrightarrow> set is \<subseteq> {..<length (iob_table s)} \<Longrightarrow>
    \<exists>s'. flush_all_loop D mode is s = Some (OK, s') \<and> streams content F A s' \<and> same_rest s s' \<and>
      length (iob_table s') = length (iob_table s) \<and>
      (\<forall>j < length (iob_table s). iob_table s' ! j \<in> {iob_table s ! j, (iob_table s ! j)\<lparr>iob_BufferWriteBytes := 0\<rparr>})"
proof (induction "is" arbitrary: s)
  case (Cons i "is")
  let ?file = "iob_table s ! i"
  have at: "at (iob_table s) i = Some ?file" and i: "i < length (iob_table s)" using Cons.prems(2) by (auto simp: at_def)
  show ?case
  proof (cases "IOBF_IN_USE \<in> iob_Flags ?file \<and> IOBF_WRITE \<in> iob_Flags ?file \<and> (mode = None \<or> mode = Some (iob_Mode ?file)) \<and>
      iob_write_buffer_is_valid ?file")
    case True
    then have u: "in_use s i" using i by (simp add: in_use_def)
    obtain s1 where f: "flush_iob_write_buffer D i s = Some (OK, s1)" "streams content F A s1" "same_rest s s1"
      "iob_table s1 = (iob_table s)[i := ?file\<lparr>iob_BufferWriteBytes := 0\<rparr>]" by (rule flush_ok [OF D Cons.prems(1) u])
    have sub: "set is \<subseteq> {..<length (iob_table s1)}" using Cons.prems(2) f(4) by simp
    obtain s' where s': "flush_all_loop D mode is s1 = Some (OK, s')" "streams content F A s'" "same_rest s1 s'"
      "length (iob_table s') = length (iob_table s1)"
      "\<forall>j < length (iob_table s1). iob_table s' ! j \<in> {iob_table s1 ! j, (iob_table s1 ! j)\<lparr>iob_BufferWriteBytes := 0\<rparr>}"
      using Cons.IH [OF f(2) sub] by blast
    have "\<forall>j < length (iob_table s). iob_table s' ! j \<in> {iob_table s ! j, (iob_table s ! j)\<lparr>iob_BufferWriteBytes := 0\<rparr>}"
    proof (intro allI impI)
      fix j assume "j < length (iob_table s)"
      then show "iob_table s' ! j \<in> {iob_table s ! j, (iob_table s ! j)\<lparr>iob_BufferWriteBytes := 0\<rparr>}"
        using s'(5) by (cases "j = i") (auto simp: f(4))
    qed
    moreover have "flush_all_loop D mode (i # is) s = Some (OK, s')"
      unfolding flush_all_loop.simps(2) at bind.bind_lunit if_P [OF True] f(1) prod.case using s'(1) by simp
    moreover have "same_rest s s'" "length (iob_table s') = length (iob_table s)" using s'(3,4) f(3,4) same_rest_trans by auto
    ultimately show ?thesis using s'(2) by blast
  next
    case False
    have sub: "set is \<subseteq> {..<length (iob_table s)}" using Cons.prems(2) by simp
    show ?thesis
      unfolding flush_all_loop.simps(2) at bind.bind_lunit if_not_P [OF False] using Cons.IH [OF Cons.prems(1) sub] .
  qed
qed simp


section \<open>The read buffer\<close>

lemma view_cong: "iob_Buffer file' = iob_Buffer file \<Longrightarrow> iob_BufferWriteBytes file' = iob_BufferWriteBytes file \<Longrightarrow>
    iob_BufferReadBytes file' = iob_BufferReadBytes file \<Longrightarrow> iob_BufferPosition file' = iob_BufferPosition file \<Longrightarrow>
    view file' c p = view file c p"
  by (simp add: view_def)

text \<open>A change of the flags or of other parts outside the buffer.\<close>

lemma streams_set_iob:
  assumes S: "streams content F A s" and u: "in_use s i"
    and new: "IOBF_IN_USE \<in> iob_Flags file" "iob_Descriptor file = iob_Descriptor (iob_table s ! i)"
      "iob_BufferSize file = iob_BufferSize (iob_table s ! i)" "iob_Buffer file = iob_Buffer (iob_table s ! i)"
      "iob_BufferWriteBytes file = iob_BufferWriteBytes (iob_table s ! i)" "iob_BufferReadBytes file = iob_BufferReadBytes (iob_table s ! i)"
      "iob_BufferPosition file = iob_BufferPosition (iob_table s ! i)"
  shows "streams content F A (set_iob i file s)"
proof -
  obtain c p where f: "fd_ok content s (F i) c p" and b: "buffer_ok (iob_table s ! i) c p" and a: "A i = view (iob_table s ! i) c p"
    by (rule streamsD [OF S u])
  have "buffer_ok file c p" using b new(3-) by (simp add: buffer_ok_def)
  from streams_update [OF S u moved_refl [OF f] new(1,2) this] show ?thesis
    using view_cong [of "file" "iob_table s ! i"] new(4-) a by (metis fun_upd_triv)
qed

lemma drop_ok:
  assumes D: "dos_files D content" and S: "streams content F A s" and u: "in_use s i"
  obtains s' where "drop_iob_read_buffer D i s = Some (OK, s')" "streams content F A s'" "same_rest s s'"
    "iob_table s' = (iob_table s)[i := (iob_table s ! i)\<lparr>iob_Flags := iob_Flags (iob_table s ! i) - {IOBF_EOF_REACHED},
        iob_BufferReadBytes := 0, iob_BufferPosition := 0\<rparr>]"
proof -
  note result = that
  let ?file = "iob_table s ! i"
  define file1 where "file1 = ?file\<lparr>iob_Flags := iob_Flags ?file - {IOBF_EOF_REACHED}\<rparr>"
  define s1 where "s1 = set_iob i file1 s"
  define empty where "empty = file1\<lparr>iob_BufferReadBytes := 0, iob_BufferPosition := 0\<rparr>"
  have i: "i < length (iob_table s)" "IOBF_IN_USE \<in> iob_Flags ?file" using u by (simp_all add: in_use_def)
  have S1: "streams content F A s1" unfolding s1_def by (rule streams_set_iob [OF S u]) (simp_all add: file1_def i)
  have u1: "in_use s1 i" using i by (simp add: in_use_def s1_def file1_def)
  have t1: "iob_table s1 = (iob_table s)[i := file1]" and r1: "same_rest s s1" by (simp_all add: s1_def)
  obtain c p where f: "fd_ok content s1 (F i) c p" and b: "buffer_ok (iob_table s1 ! i) c p" and a: "A i = view (iob_table s1 ! i) c p"
    and hook: "\<forall>D fam. iob_hook_entry D i fam s1 = fd_hook_entry D (F i) fam s1" by (rule streamsD [OF S1 u1])
  have ti: "iob_table s1 ! i = file1" using i(1) t1 by simp
  have p: "p \<le> length c" using dos_filesD(1) [OF D fd_okD(4) [OF f]] .
  have code: "drop_iob_read_buffer D i s =
    (if \<not> iob_read_buffer_is_valid file1 then Some (OK, s1)
     else if iob_num_unread_bytes file1 > 0 then do {
       (position, _, err, s) \<leftarrow> iob_hook_entry D i (Action_seek (- int (iob_num_unread_bytes file1)) SEEK_CUR) s1;
       if err \<noteq> OK then Some (ERROR, (set_iob_flag i IOBF_ERROR s)\<lparr>errno := err\<rparr>)
       else Some (OK, set_iob i empty (if position < 0 then s\<lparr>errno := OK\<rparr> else s)) }
     else Some (OK, set_iob i empty s1))"
  proof -
    have "at (iob_table s) i = Some ?file" "\<not> IOBF_IN_USE \<notin> iob_Flags ?file" using i by (simp_all add: at_def)
    then show ?thesis
      unfolding drop_iob_read_buffer_def Let_def by (simp only: bind.bind_lunit if_False file1_def [symmetric] s1_def [symmetric] empty_def [symmetric])
  qed
  have goal: thesis if "drop_iob_read_buffer D i s = Some (OK, set_iob i empty s2)" "moved content (F i) c p' s1 s2"
    "p' = p - (iob_BufferReadBytes file1 - iob_BufferPosition file1)" "iob_BufferWriteBytes file1 = 0" for s2 p'
  proof -
    have "buffer_ok empty c p'" using b ti that(4) by (simp add: buffer_ok_def empty_def)
    from streams_update [OF S1 u1 that(2) _ _ this] have "streams content F (A(i := view empty c p')) (set_iob i empty s2)"
      using i by (simp add: ti empty_def file1_def)
    moreover have "view empty c p' = A i" using that(3,4) by (simp add: a ti view_def empty_def)
    ultimately have "streams content F A (set_iob i empty s2)" by (metis fun_upd_triv)
    moreover have "iob_table (set_iob i empty s2) = (iob_table s)[i := empty]" using moved_rest(2) [OF that(2)] by (simp add: t1)
    moreover have "same_rest s (set_iob i empty s2)" using moved_rest(1) [OF that(2)] r1 same_rest_trans by simp
    ultimately show thesis using result [OF that(1)] by (simp add: empty_def file1_def)
  qed
  show thesis
  proof (cases "iob_BufferReadBytes file1 = 0")
    case True
    have z: "empty = file1" using True b ti by (simp add: empty_def buffer_ok_def file1_def)
    have "drop_iob_read_buffer D i s = Some (OK, s1)" using True by (simp add: code iob_read_buffer_is_valid_def)
    then show thesis using that [of s1] S1 r1 t1 z by (simp add: empty_def file1_def)
  next
    case False
    then have w: "iob_BufferWriteBytes file1 = 0" "iob_BufferPosition file1 \<le> iob_BufferReadBytes file1" "iob_BufferReadBytes file1 \<le> p"
      using b ti by (auto simp: buffer_ok_def)
    have v: "iob_read_buffer_is_valid file1" using False by (simp add: iob_read_buffer_is_valid_def)
    have n: "iob_num_unread_bytes file1 = iob_BufferReadBytes file1 - iob_BufferPosition file1" using w by (simp add: iob_num_unread_bytes_def)
    show thesis
    proof (cases "iob_num_unread_bytes file1 > 0")
      case True
      define t where "t = int p - int (iob_num_unread_bytes file1)"
      have t: "t = seek_target c p (- int (iob_num_unread_bytes file1)) (seek_mode SEEK_CUR)" "t \<le> int (length c)" "0 \<le> t"
        using p w n by (simp_all add: t_def seek_target_def seek_mode_def)
      obtain s2 where h: "fd_hook_entry D (F i) (Action_seek (- int (iob_num_unread_bytes file1)) SEEK_CUR) s1 = Some (max 0 t, [], OK, s2)"
        and m: "moved content (F i) c (nat t) s1 s2" by (rule hook_seek_ok [OF D f t(1,2)])
      have "drop_iob_read_buffer D i s = Some (OK, set_iob i empty s2)" using v True h hook by (simp add: code)
      from goal [OF this m] show thesis using w(1) n by (simp add: t_def nat_diff_distrib')
    next
      case no: False
      have "drop_iob_read_buffer D i s = Some (OK, set_iob i empty s1)" using v no by (simp add: code)
      from goal [OF this moved_refl [OF f]] show thesis using w(1) n no by simp
    qed
  qed
qed

lemma steady_flush_all:
  assumes "length t' = length t" "\<forall>j < length t. t' ! j \<in> {t ! j, (t ! j)\<lparr>iob_BufferWriteBytes := 0\<rparr>}"
  shows "map iob_const t' = map iob_const t"
proof (rule nth_equalityI)
  fix j assume "j < length (map iob_const t')"
  then have j: "j < length t" using assms(1) by simp
  then have "t' ! j \<in> {t ! j, (t ! j)\<lparr>iob_BufferWriteBytes := 0\<rparr>}" using assms(2) by blast
  then have "iob_const (t' ! j) = iob_const (t ! j)" by (auto simp: iob_const_def)
  then show "map iob_const t' ! j = map iob_const t ! j" using j assms(1) by simp
qed (use assms(1) in simp)

lemma fill_ok:
  assumes D: "dos_files D content" and S: "streams content F A s" and u: "in_use s i"
    and e: "iob_BufferPosition (iob_table s ! i) = iob_BufferReadBytes (iob_table s ! i)" "iob_BufferWriteBytes (iob_table s ! i) = 0"
  obtains s' where "fill_iob_read_buffer D i s = Some (OK, s')" "streams content F A s'" "steady s s'"
    "iob_Flags (iob_table s' ! i) = iob_Flags (iob_table s ! i)" "iob_BufferPosition (iob_table s' ! i) = 0"
    "iob_BufferReadBytes (iob_table s' ! i) = min (iob_BufferSize (iob_table s ! i)) (length (fst (A i)) - snd (A i))"
    "iob_BufferWriteBytes (iob_table s' ! i) = 0"
proof -
  let ?file = "iob_table s ! i"
  have i: "i < length (iob_table s)" "IOBF_IN_USE \<in> iob_Flags ?file" using u by (simp_all add: in_use_def)
  obtain s1 where s1: "(if iob_Mode ?file = IOBF_BUFFER_MODE_LINE then flush_all_files D (Some IOBF_BUFFER_MODE_LINE) s else Some (OK, s)) = Some (OK, s1)"
    "streams content F A s1" "steady s s1" "length (iob_table s1) = length (iob_table s)" "iob_table s1 ! i = ?file"
  proof (cases "iob_Mode ?file = IOBF_BUFFER_MODE_LINE")
    case True
    have "set [0..<length (iob_table s)] \<subseteq> {..<length (iob_table s)}" by auto
    from flush_all_ok [OF D S this, of "Some IOBF_BUFFER_MODE_LINE"] obtain s' where
      s': "flush_all_files D (Some IOBF_BUFFER_MODE_LINE) s = Some (OK, s')" "streams content F A s'" "same_rest s s'"
      "length (iob_table s') = length (iob_table s)"
      "\<forall>j < length (iob_table s). iob_table s' ! j \<in> {iob_table s ! j, (iob_table s ! j)\<lparr>iob_BufferWriteBytes := 0\<rparr>}"
      unfolding flush_all_files_def by blast
    have "iob_table s' ! i = ?file" using s'(5) e(2) i(1) by auto
    moreover have "steady s s'" using s'(3) steady_flush_all [OF s'(4,5)] by (simp add: steady_def)
    ultimately show thesis using that [of s'] True s' by simp
  qed (use that S in simp)
  have u1: "in_use s1 i" using i s1(4,5) by (simp add: in_use_def)
  obtain c p where f: "fd_ok content s1 (F i) c p" and b: "buffer_ok ?file c p" and a: "A i = view ?file c p"
    and hook: "\<forall>D fam. iob_hook_entry D i fam s1 = fd_hook_entry D (F i) fam s1" using s1(5) by (auto intro: streamsD [OF s1(2) u1])
  define ys where "ys = take (iob_BufferSize ?file) (drop p c)"
  obtain s2 where h: "fd_hook_entry D (F i) (Action_read (iob_BufferSize ?file)) s1 = Some (int (length ys), ys, OK, s2)"
    and m: "moved content (F i) c (p + length ys) s1 s2" unfolding ys_def by (rule hook_read_ok [OF D f])
  have t2: "iob_table s2 = iob_table s1" using moved_rest(2) [OF m] .
  define new where "new = ?file\<lparr>iob_Buffer := ys @ drop (length ys) (iob_Buffer ?file), iob_BufferReadBytes := length ys, iob_BufferPosition := 0\<rparr>"
  have l: "length ys \<le> iob_BufferSize ?file" "length ys = min (iob_BufferSize ?file) (length c - p)" by (simp_all add: ys_def)
  have ok: "buffer_ok new c (p + length ys)" using b e(2) l by (simp add: buffer_ok_def new_def ys_def)
  have A: "A i = (c, p)" using e by (simp add: a view_def)
  have "streams content F (A(i := view new c (p + length ys))) (set_iob i new s2)"
    by (rule streams_update [OF s1(2) u1 m _ _ ok]) (simp_all add: new_def i s1(5))
  moreover have "view new c (p + length ys) = A i" using e(2) by (simp add: A view_def new_def)
  ultimately have S2: "streams content F A (set_iob i new s2)" by (metis fun_upd_triv)
  have code: "fill_iob_read_buffer D i s = Some (OK, set_iob i new s2)"
    using i(1) s1(1,4,5) h hook l(1) b by (simp add: fill_iob_read_buffer_def at_def t2 new_def buffer_ok_def)
  have "steady s1 (set_iob i new s2)"
    by (rule steady_set_iob [OF moved_rest(1) [OF m] t2]) (use s1(4,5) i in \<open>simp_all add: iob_const_def new_def\<close>)
  then have r: "steady s (set_iob i new s2)" using s1(3) steady_trans by blast
  show thesis using that [OF code S2 r] i s1(4) e(2) l(2) A by (simp add: t2 new_def)
qed

end
