(* ===== verification/StdioSpec.thy ===== *)
theory StdioSpec
  imports Stdio Streams
begin

text \<open>
  The stream functions as operations on files: with \<^verbatim>\<open>dos.library\<close> working as documented on ordinary files, each call on a
  buffered stream has the effect and the result the same call would have on the file without a buffer. Also the errors that
  device failures cause.
\<close>

lemma in_use_at: "in_use s i \<Longrightarrow> at (iob_table s) i = Some (iob_table s ! i)"
  by (simp add: in_use_def at_def)

lemma in_use_less: "in_use s i \<Longrightarrow> i < length (iob_table s)"
  by (simp add: in_use_def)


section \<open>Writing and reading single characters\<close>

text \<open>The effect of writing on the file: the bytes replace those at the position.\<close>

definition file_write :: "byte list \<Rightarrow> byte list \<times> nat \<Rightarrow> byte list \<times> nat" where
  "file_write xs a = (overlay (fst a) (snd a) xs, snd a + length xs)"

lemma file_write_append:
  "snd a \<le> length (fst a) \<Longrightarrow> file_write ys (file_write xs a) = file_write (xs @ ys) a"
  by (simp add: file_write_def overlay_append)

lemma file_write_Nil [simp]: "file_write [] a = a"
  by (simp add: file_write_def)

lemma stream_bound:
  assumes D: "dos_files D content" and S: "streams content F A s" and u: "in_use s i"
  shows "snd (A i) \<le> length (fst (A i))"
proof -
  obtain c p where f: "fd_ok content s (F i) c p" and b: "buffer_ok (iob_table s ! i) c p" and a: "A i = view (iob_table s ! i) c p"
    by (rule streamsD [OF S u])
  have "p \<le> length c" using dos_filesD(1) [OF D fd_okD(4) [OF f]] .
  then have "p + length xs \<le> length (overlay c p xs)" for xs by (rule overlay_length)
  from this [of "take (iob_BufferWriteBytes (iob_table s ! i)) (iob_Buffer (iob_table s ! i))"]
  have "p + iob_BufferWriteBytes (iob_table s ! i) \<le> length (fst (A i))" using b by (simp add: a view_def buffer_ok_def)
  moreover have "snd (A i) \<le> p + iob_BufferWriteBytes (iob_table s ! i)" unfolding a view_def snd_conv by (rule diff_le_self)
  ultimately show ?thesis by simp
qed

lemma buffer_append_ok:
  assumes D: "dos_files D content" and S: "streams content F A s" and u: "in_use s i"
    and r: "iob_BufferReadBytes (iob_table s ! i) = 0"
    and n: "iob_BufferWriteBytes (iob_table s ! i) + length xs \<le> iob_BufferSize (iob_table s ! i)"
  obtains s' where "buffer_append i xs s = Some s'" "streams content F (A(i := file_write xs (A i))) s'" "steady s s'"
    "iob_BufferReadBytes (iob_table s' ! i) = 0"
    "iob_BufferWriteBytes (iob_table s' ! i) = iob_BufferWriteBytes (iob_table s ! i) + length xs"
proof -
  let ?file = "iob_table s ! i"
  obtain c p where f: "fd_ok content s (F i) c p" and b: "buffer_ok ?file c p" and a: "A i = view ?file c p"
    and i: "i < length (iob_table s)" "IOBF_IN_USE \<in> iob_Flags ?file" by (rule streamsD [OF S u])
  have p: "p \<le> length c" using dos_filesD(1) [OF D fd_okD(4) [OF f]] .
  let ?buf = "take (iob_BufferWriteBytes ?file) (iob_Buffer ?file) @ xs @ drop (iob_BufferWriteBytes ?file + length xs) (iob_Buffer ?file)"
  define new where "new = ?file\<lparr>iob_Buffer := ?buf, iob_BufferWriteBytes := iob_BufferWriteBytes ?file + length xs\<rparr>"
  have l: "length (iob_Buffer ?file) = iob_BufferSize ?file" "iob_BufferWriteBytes ?file \<le> iob_BufferSize ?file" "iob_BufferPosition ?file = 0"
    using b r by (simp_all add: buffer_ok_def)
  have ok: "buffer_ok new c p" using b r n l by (auto simp: buffer_ok_def new_def)
  have "view new c p = file_write xs (A i)"
    using p l r by (simp add: view_def new_def a file_write_def overlay_append [symmetric] min_def)
  then have "streams content F (A(i := file_write xs (A i))) (set_iob i new s)"
    using streams_update [OF S u moved_refl [OF f] _ _ ok] i by (simp add: new_def)
  moreover have "steady s (set_iob i new s)" by (rule steady_set_iob) (simp_all add: iob_const_def new_def i)
  ultimately show thesis using that [of "set_iob i new s"] n l i r by (simp add: buffer_append_def at_def new_def)
qed

lemma buffer_store_append: "buffer_store i b s = buffer_append i [b] s"
proof (cases "at (iob_table s) i")
  case (Some x)
  have "(iob_Buffer x)[iob_BufferWriteBytes x := b] = take (iob_BufferWriteBytes x) (iob_Buffer x) @ [b] @
      drop (iob_BufferWriteBytes x + 1) (iob_Buffer x)" if "iob_BufferWriteBytes x < length (iob_Buffer x)"
    using that by (simp add: upd_conv_take_nth_drop)
  then show ?thesis using Some by (auto simp: buffer_store_def buffer_append_def)
qed (simp add: buffer_store_def buffer_append_def)

lemma steady_flush:
  assumes "same_rest s s'" "iob_table s' = (iob_table s)[i := (iob_table s ! i)\<lparr>iob_BufferWriteBytes := 0\<rparr>]" "i < length (iob_table s)"
  shows "steady s s'"
  using assms map_const_update [of "(iob_table s ! i)\<lparr>iob_BufferWriteBytes := 0\<rparr>" "iob_table s" i]
  by (simp add: steady_def iob_const_def)

text \<open>\<open>__fputc\<close> on a stream that is not being read.\<close>

lemma fputc_raw_ok:
  assumes D: "dos_files D content" and S: "streams content F A s" and u: "in_use s i" and r: "iob_BufferReadBytes (iob_table s ! i) = 0"
  obtains s' where "fputc_raw D c i mode s = Some (c mod 256, s')" "streams content F (A(i := file_write [word_of_int c] (A i))) s'"
    "steady s s'" "iob_BufferReadBytes (iob_table s' ! i) = 0" "iob_BufferWriteBytes (iob_table s' ! i) \<le> iob_BufferSize (iob_table s' ! i)"
proof -
  let ?file = "iob_table s ! i"
  have i: "i < length (iob_table s)" using u by (simp add: in_use_def)
  obtain s1 where s1: "(if iob_write_buffer_is_full ?file then flush_iob_write_buffer D i s else Some (OK, s)) = Some (OK, s1)"
    "streams content F A s1" "steady s s1" "iob_BufferReadBytes (iob_table s1 ! i) = 0"
    "iob_BufferWriteBytes (iob_table s1 ! i) < iob_BufferSize (iob_table s1 ! i)"
  proof (cases "iob_write_buffer_is_full ?file")
    case True
    then have z: "0 < iob_BufferSize ?file" by (simp add: iob_write_buffer_is_full_def)
    obtain s1 where f: "flush_iob_write_buffer D i s = Some (OK, s1)" "streams content F A s1" "same_rest s s1"
      "iob_table s1 = (iob_table s)[i := ?file\<lparr>iob_BufferWriteBytes := 0\<rparr>]" by (rule flush_ok [OF D S u])
    show thesis using that [of s1] True f(1,2) steady_flush [OF f(3,4) i] r z i by (simp add: f(4))
  next
    case False
    obtain c0 p0 where "buffer_ok ?file c0 p0" by (rule streamsD [OF S u])
    then have "iob_BufferWriteBytes ?file < iob_BufferSize ?file" using False by (auto simp: buffer_ok_def iob_write_buffer_is_full_def)
    then show thesis using that [of s] False S r by simp
  qed
  have u1: "in_use s1 i" using steady_in_use [OF s1(3)] u by simp
  obtain s2 where s2: "buffer_append i [word_of_int c] s1 = Some s2" "streams content F (A(i := file_write [word_of_int c] (A i))) s2" "steady s1 s2"
    "iob_BufferReadBytes (iob_table s2 ! i) = 0" "iob_BufferWriteBytes (iob_table s2 ! i) = iob_BufferWriteBytes (iob_table s1 ! i) + 1"
    using buffer_append_ok [OF D s1(2) u1 s1(4), of "[word_of_int c]"] s1(5) by auto
  have u2: "in_use s2 i" using steady_in_use [OF s2(3)] u1 by simp
  have w2: "iob_BufferWriteBytes (iob_table s2 ! i) \<le> iob_BufferSize (iob_table s2 ! i)"
    using s1(5) s2(5) steady_fixed(2) [OF s2(3)] u1 by (simp add: in_use_def)
  have code: "fputc_raw D c i mode s = do {
      (r, s) \<leftarrow> (if mode = IOBF_BUFFER_MODE_NONE \<or> mode = IOBF_BUFFER_MODE_LINE \<and> c = 10
                then flush_iob_write_buffer D i s2 else Some (OK, s2));
      if r < 0 then do {
        file \<leftarrow> at (iob_table s) i;
        Some (EOF, set_iob i (file\<lparr>iob_BufferWriteBytes := iob_BufferWriteBytes file - 1\<rparr>) s) }
      else Some (c mod 256, s) }"
    unfolding fputc_raw_def in_use_at [OF u] bind.bind_lunit s1(1) prod.case buffer_store_append s2(1) by simp
  show thesis
  proof (cases "mode = IOBF_BUFFER_MODE_NONE \<or> mode = IOBF_BUFFER_MODE_LINE \<and> c = 10")
    case True
    obtain s3 where f: "flush_iob_write_buffer D i s2 = Some (OK, s3)" "streams content F (A(i := file_write [word_of_int c] (A i))) s3"
      "same_rest s2 s3" "iob_table s3 = (iob_table s2)[i := (iob_table s2 ! i)\<lparr>iob_BufferWriteBytes := 0\<rparr>]"
      by (rule flush_ok [OF D s2(2) u2])
    have i2: "i < length (iob_table s2)" using u2 by (simp add: in_use_def)
    have "steady s s3" using steady_flush [OF f(3,4) i2] s2(3) s1(3) steady_trans by blast
    moreover have "fputc_raw D c i mode s = Some (c mod 256, s3)" unfolding code if_P [OF True] f(1) by simp
    ultimately show thesis using that f(2) s2(4) i2 by (simp add: f(4))
  next
    case False
    have "fputc_raw D c i mode s = Some (c mod 256, s2)" unfolding code if_not_P [OF False] by simp
    then show thesis using that s2(2,4) w2 steady_trans [OF s1(3) s2(3)] by blast
  qed
qed

lemma fputc_check_ok:
  assumes D: "dos_files D content" and S: "streams content F A s" and u: "in_use s i" and w: "IOBF_WRITE \<in> iob_Flags (iob_table s ! i)"
  obtains s' where "fputc_check D i s = Some (OK, s')" "streams content F A s'" "steady s s'" "iob_BufferReadBytes (iob_table s' ! i) = 0"
    "iob_BufferWriteBytes (iob_table s' ! i) = iob_BufferWriteBytes (iob_table s ! i)"
proof (cases "iob_BufferReadBytes (iob_table s ! i) = 0")
  case True
  then have "fputc_check D i s = Some (OK, s)"
    using u w by (simp add: fputc_check_def in_use_at in_use_def at_def iob_read_buffer_is_valid_def)
  then show thesis using that S True by simp
next
  case False
  have i: "i < length (iob_table s)" using u by (simp add: in_use_def)
  obtain s' where d: "drop_iob_read_buffer D i s = Some (OK, s')" "streams content F A s'" "same_rest s s'"
    "iob_table s' = (iob_table s)[i := (iob_table s ! i)\<lparr>iob_Flags := iob_Flags (iob_table s ! i) - {IOBF_EOF_REACHED},
        iob_BufferReadBytes := 0, iob_BufferPosition := 0\<rparr>]" by (rule drop_ok [OF D S u])
  have "steady s s'" unfolding steady_def d(4) using d(3) i by (simp add: map_const_update iob_const_def)
  moreover have "fputc_check D i s = Some (OK, s')"
    using u w False d(1) by (simp add: fputc_check_def in_use_def at_def iob_read_buffer_is_valid_def)
  ultimately show thesis using that d(2) i by (simp add: d(4))
qed

lemma fputc_ok:
  assumes D: "dos_files D content" and S: "streams content F A s" and u: "in_use s i" and w: "IOBF_WRITE \<in> iob_Flags (iob_table s ! i)"
  obtains s' where "fputc D c (Some i) s = Some (c mod 256, s')" "streams content F (A(i := file_write [word_of_int c] (A i))) s'" "steady s s'"
proof -
  obtain s1 where s1: "fputc_check D i s = Some (OK, s1)" "streams content F A s1" "steady s s1" "iob_BufferReadBytes (iob_table s1 ! i) = 0"
    by (rule fputc_check_ok [OF D S u w])
  have u1: "in_use s1 i" using steady_in_use [OF s1(3)] u by simp
  obtain s2 where "fputc_raw D c i (iob_Mode (iob_table s1 ! i)) s1 = Some (c mod 256, s2)"
    "streams content F (A(i := file_write [word_of_int c] (A i))) s2" "steady s1 s2" by (rule fputc_raw_ok [OF D s1(2) u1 s1(4)])
  then show thesis using that s1(1) steady_trans [OF s1(3)] by (simp add: fputc_def in_use_at [OF u1])
qed

end
