(* ===== verification/StdioSeek.thy ===== *)
theory StdioSeek
  imports StdioSpec
begin

text \<open>
  Reading, seeking and flushing: \<open>fgetc\<close>, \<open>ungetc\<close>, \<open>ftell\<close>, \<open>fseek\<close>, \<open>fflush\<close> on a stream as operations on the file behind it,
  and the equivalence of any series of such calls with the same calls on an unbuffered file.
\<close>

section \<open>Reading\<close>

text \<open>The bytes from the position on.\<close>

definition file_rest :: "byte list \<times> nat \<Rightarrow> byte list" where
  "file_rest a = drop (snd a) (fst a)"

lemma buffer_unread:
  assumes b: "buffer_ok file c p" and p: "p \<le> length c" and w: "iob_BufferWriteBytes file = 0"
  shows "view file c p = (c, p - (iob_BufferReadBytes file - iob_BufferPosition file))"
    "n \<le> iob_BufferReadBytes file - iob_BufferPosition file \<Longrightarrow>
     take n (drop (iob_BufferPosition file) (iob_Buffer file)) = take n (file_rest (view file c p))"
proof -
  show v: "view file c p = (c, p - (iob_BufferReadBytes file - iob_BufferPosition file))" using w by (simp add: view_def)
  let ?R = "iob_BufferReadBytes file" and ?q = "iob_BufferPosition file"
  assume n: "n \<le> ?R - ?q"
  have "take n (drop ?q (iob_Buffer file)) = take n (drop ?q (take ?R (iob_Buffer file)))"
    using n by (simp add: drop_take min_def)
  also have "\<dots> = take n (drop ?q (take ?R (drop (p - ?R) c)))" using b by (simp add: buffer_ok_def)
  also have "\<dots> = take n (drop (?q + (p - ?R)) c)" using n by (simp add: drop_take min_def)
  also have "?q + (p - ?R) = p - (?R - ?q)" using b by (simp add: buffer_ok_def)
  finally show "take n (drop ?q (iob_Buffer file)) = take n (file_rest (view file c p))" by (simp add: v file_rest_def)
qed

lemma buffer_take_ok:
  assumes D: "dos_files D content" and S: "streams content F A s" and u: "in_use s i" and w: "iob_BufferWriteBytes (iob_table s ! i) = 0"
    and n: "n \<le> iob_BufferReadBytes (iob_table s ! i) - iob_BufferPosition (iob_table s ! i)"
  obtains s' where "buffer_take i n s = Some (take n (file_rest (A i)), s')" "streams content F (A(i := (fst (A i), snd (A i) + n))) s'"
    "steady s s'" "iob_table s' = (iob_table s)[i := (iob_table s ! i)\<lparr>iob_BufferPosition := iob_BufferPosition (iob_table s ! i) + n\<rparr>]"
    "length (take n (file_rest (A i))) = n"
proof -
  let ?file = "iob_table s ! i"
  obtain c p where f: "fd_ok content s (F i) c p" and b: "buffer_ok ?file c p" and a: "A i = view ?file c p"
    and i: "i < length (iob_table s)" "IOBF_IN_USE \<in> iob_Flags ?file" by (rule streamsD [OF S u])
  have p: "p \<le> length c" using dos_filesD(1) [OF D fd_okD(4) [OF f]] .
  note v = buffer_unread [OF b p w]
  have bb: "iob_BufferReadBytes ?file \<le> length (iob_Buffer ?file)" "iob_BufferPosition ?file \<le> iob_BufferReadBytes ?file" "iob_BufferReadBytes ?file \<le> p"
    using b by (simp_all add: buffer_ok_def)
  define new where "new = ?file\<lparr>iob_BufferPosition := iob_BufferPosition ?file + n\<rparr>"
  have ok: "buffer_ok new c p" using b n bb by (simp add: buffer_ok_def new_def)
  have "view new c p = (fst (A i), snd (A i) + n)" using w n bb by (simp add: view_def new_def a)
  then have "streams content F (A(i := (fst (A i), snd (A i) + n))) (set_iob i new s)"
    using streams_update [OF S u moved_refl [OF f] _ _ ok] i by (simp add: new_def)
  moreover have "steady s (set_iob i new s)" by (rule steady_set_iob) (simp_all add: iob_const_def new_def i)
  moreover have "buffer_take i n s = Some (take n (file_rest (A i)), set_iob i new s)"
    using i n bb v(2) [OF n] by (simp add: buffer_take_def at_def new_def a)
  moreover have "length (take n (file_rest (A i))) = n" using n bb p by (simp add: file_rest_def a v(1))
  ultimately show thesis using that [of "set_iob i new s"] by (simp add: new_def)
qed

lemma buffer_next_take: "buffer_next i s = Option.bind (buffer_take i 1 s) (\<lambda>(xs, s'). Some (hd xs, s'))"
proof (cases "at (iob_table s) i")
  case (Some x)
  have "hd (take 1 (drop k xs)) = xs ! k" if "k < length xs" for k and xs :: "byte list"
    using that by (simp add: hd_conv_nth)
  then show ?thesis using Some by (auto simp: buffer_next_def buffer_take_def at_def)
qed (simp add: buffer_next_def buffer_take_def)

text \<open>One character: the next byte of the file and the position behind it, or \<open>EOF\<close> at the end of the file.\<close>

definition file_get :: "byte list \<times> nat \<Rightarrow> int \<times> byte list \<times> nat" where
  "file_get a = (case file_rest a of [] \<Rightarrow> (EOF, a) | b # _ \<Rightarrow> (uint b, (fst a, snd a + 1)))"

lemma buffer_next_ok:
  assumes D: "dos_files D content" and S: "streams content F A s" and u: "in_use s i" and w: "iob_BufferWriteBytes (iob_table s ! i) = 0"
    and n: "iob_BufferPosition (iob_table s ! i) < iob_BufferReadBytes (iob_table s ! i)"
  obtains b s' where "buffer_next i s = Some (b, s')" "file_get (A i) = (uint b, fst (A i), snd (A i) + 1)"
    "streams content F (A(i := (fst (A i), snd (A i) + 1))) s'" "steady s s'" "iob_BufferWriteBytes (iob_table s' ! i) = 0"
    "iob_Flags (iob_table s' ! i) = iob_Flags (iob_table s ! i)"
proof -
  have n1: "1 \<le> iob_BufferReadBytes (iob_table s ! i) - iob_BufferPosition (iob_table s ! i)" using n by simp
  obtain s' where t: "buffer_take i 1 s = Some (take 1 (file_rest (A i)), s')" "streams content F (A(i := (fst (A i), snd (A i) + 1))) s'"
    "steady s s'" "iob_table s' = (iob_table s)[i := (iob_table s ! i)\<lparr>iob_BufferPosition := iob_BufferPosition (iob_table s ! i) + 1\<rparr>]"
    "length (take 1 (file_rest (A i))) = 1" by (rule buffer_take_ok [OF D S u w n1])
  obtain b bs where r: "file_rest (A i) = b # bs" using t(5) by (cases "file_rest (A i)") auto
  have "buffer_next i s = Some (b, s')" using t(1) by (simp add: buffer_next_take r)
  moreover have "file_get (A i) = (uint b, fst (A i), snd (A i) + 1)" by (simp add: file_get_def r)
  ultimately show thesis using that t(2,3) in_use_less [OF u] w by (simp add: t(4))
qed

lemma getc_ok:
  assumes D: "dos_files D content" and S: "streams content F A s" and u: "in_use s i" and w: "iob_BufferWriteBytes (iob_table s ! i) = 0"
  obtains s' where "getc D i s = Some (fst (file_get (A i)), s')" "streams content F (A(i := snd (file_get (A i)))) s'" "steady s s'"
    "iob_BufferWriteBytes (iob_table s' ! i) = 0"
    "IOBF_EOF_REACHED \<in> iob_Flags (iob_table s' ! i) \<longleftrightarrow> IOBF_EOF_REACHED \<in> iob_Flags (iob_table s ! i) \<or> fst (file_get (A i)) = EOF"
proof -
  let ?file = "iob_table s ! i"
  have ne: "uint b \<noteq> EOF" for b :: byte using uint_ge_0 [of b] by linarith
  show thesis
  proof (cases "iob_BufferPosition ?file < iob_BufferReadBytes ?file")
    case True
    obtain b s' where "buffer_next i s = Some (b, s')" "file_get (A i) = (uint b, fst (A i), snd (A i) + 1)"
      "streams content F (A(i := (fst (A i), snd (A i) + 1))) s'" "steady s s'" "iob_BufferWriteBytes (iob_table s' ! i) = 0"
      "iob_Flags (iob_table s' ! i) = iob_Flags ?file" by (rule buffer_next_ok [OF D S u w True])
    then show thesis using that True ne by (simp add: getc_def in_use_at [OF u])
  next
    case False
    obtain c0 p0 where b0: "buffer_ok ?file c0 p0" by (rule streamsD [OF S u])
    then have e: "iob_BufferPosition ?file = iob_BufferReadBytes ?file" using False by (simp add: buffer_ok_def)
    obtain s1 where s1: "fill_iob_read_buffer D i s = Some (OK, s1)" "streams content F A s1" "steady s s1"
      "iob_Flags (iob_table s1 ! i) = iob_Flags ?file" "iob_BufferPosition (iob_table s1 ! i) = 0"
      "iob_BufferReadBytes (iob_table s1 ! i) = min (iob_BufferSize ?file) (length (fst (A i)) - snd (A i))"
      "iob_BufferWriteBytes (iob_table s1 ! i) = 0" by (rule fill_ok [OF D S u e w])
    have u1: "in_use s1 i" using steady_in_use [OF s1(3)] u by simp
    have z: "0 < iob_BufferSize ?file" using b0 by (simp add: buffer_ok_def)
    have code: "getc D i s = (if iob_BufferReadBytes (iob_table s1 ! i) = 0 then Some (EOF, set_iob_flag i IOBF_EOF_REACHED s1)
        else Option.bind (buffer_next i s1) (\<lambda>(b, s). Some (uint b, s)))"
      using e s1(1,5) by (simp add: getc_def fgetc_raw_def in_use_at [OF u] in_use_at [OF u1] iob_read_buffer_is_empty_def)
    show thesis
    proof (cases "file_rest (A i) = []")
      case True
      then have r: "iob_BufferReadBytes (iob_table s1 ! i) = 0" using s1(6) by (simp add: file_rest_def)
      have g: "file_get (A i) = (EOF, A i)" by (simp add: file_get_def True)
      define new where "new = (iob_table s1 ! i)\<lparr>iob_Flags := insert IOBF_EOF_REACHED (iob_Flags (iob_table s1 ! i))\<rparr>"
      have flag: "set_iob_flag i IOBF_EOF_REACHED s1 = set_iob i new s1" by (simp add: set_iob_flag_def new_def)
      have "streams content F A (set_iob i new s1)"
        by (rule streams_set_iob [OF s1(2) u1]) (use u1 in \<open>simp_all add: new_def in_use_def\<close>)
      moreover have "steady s1 (set_iob i new s1)"
        by (rule steady_set_iob) (use in_use_less [OF u1] in \<open>auto simp: iob_const_def new_def\<close>)
      ultimately show thesis using that [of "set_iob i new s1"] code r g flag s1(7) steady_trans [OF s1(3)] in_use_less [OF u1]
        by (simp add: new_def)
    next
      case ne': False
      then have r: "iob_BufferPosition (iob_table s1 ! i) < iob_BufferReadBytes (iob_table s1 ! i)"
        using s1(5,6) z by (simp add: file_rest_def)
      obtain b s' where n: "buffer_next i s1 = Some (b, s')" "file_get (A i) = (uint b, fst (A i), snd (A i) + 1)"
        "streams content F (A(i := (fst (A i), snd (A i) + 1))) s'" "steady s1 s'" "iob_BufferWriteBytes (iob_table s' ! i) = 0"
        "iob_Flags (iob_table s' ! i) = iob_Flags (iob_table s1 ! i)" by (rule buffer_next_ok [OF D s1(2) u1 s1(7) r])
      then show thesis using that [of s'] code r ne s1(4) steady_trans [OF s1(3) n(4)] by simp
    qed
  qed
qed


lemma fgetc_check_ok:
  assumes D: "dos_files D content" and S: "streams content F A s" and u: "in_use s i" and r: "IOBF_READ \<in> iob_Flags (iob_table s ! i)"
  obtains s' where "fgetc_check D i s = Some (OK, s')" "streams content F A s'" "steady s s'" "iob_BufferWriteBytes (iob_table s' ! i) = 0"
    "iob_Flags (iob_table s' ! i) = iob_Flags (iob_table s ! i)"
proof (cases "iob_BufferWriteBytes (iob_table s ! i) = 0")
  case True
  then have "fgetc_check D i s = Some (OK, s)"
    using u r by (simp add: fgetc_check_def in_use_def at_def iob_write_buffer_is_valid_def)
  then show thesis using that S True by simp
next
  case False
  obtain s' where f: "flush_iob_write_buffer D i s = Some (OK, s')" "streams content F A s'" "same_rest s s'"
    "iob_table s' = (iob_table s)[i := (iob_table s ! i)\<lparr>iob_BufferWriteBytes := 0\<rparr>]" by (rule flush_ok [OF D S u])
  have "fgetc_check D i s = Some (OK, s')"
    using u r False f(1) by (simp add: fgetc_check_def in_use_def at_def iob_write_buffer_is_valid_def)
  then show thesis using that f(2) steady_flush [OF f(3,4)] in_use_less [OF u] by (simp add: f(4))
qed

lemma fgetc_ok:
  assumes D: "dos_files D content" and S: "streams content F A s" and u: "in_use s i" and r: "IOBF_READ \<in> iob_Flags (iob_table s ! i)"
  obtains s' where "fgetc D (Some i) s = Some (fst (file_get (A i)), s')" "streams content F (A(i := snd (file_get (A i)))) s'" "steady s s'"
    "IOBF_EOF_REACHED \<in> iob_Flags (iob_table s' ! i) \<longleftrightarrow> IOBF_EOF_REACHED \<in> iob_Flags (iob_table s ! i) \<or> fst (file_get (A i)) = EOF"
    "iob_BufferWriteBytes (iob_table s' ! i) = 0"
proof -
  obtain s1 where s1: "fgetc_check D i s = Some (OK, s1)" "streams content F A s1" "steady s s1" "iob_BufferWriteBytes (iob_table s1 ! i) = 0"
    "iob_Flags (iob_table s1 ! i) = iob_Flags (iob_table s ! i)" by (rule fgetc_check_ok [OF D S u r])
  have u1: "in_use s1 i" using steady_in_use [OF s1(3)] u by simp
  obtain s2 where "getc D i s1 = Some (fst (file_get (A i)), s2)" "streams content F (A(i := snd (file_get (A i)))) s2" "steady s1 s2"
    "iob_BufferWriteBytes (iob_table s2 ! i) = 0"
    "IOBF_EOF_REACHED \<in> iob_Flags (iob_table s2 ! i) \<longleftrightarrow> IOBF_EOF_REACHED \<in> iob_Flags (iob_table s1 ! i) \<or> fst (file_get (A i)) = EOF"
    by (rule getc_ok [OF D s1(2) u1 s1(4)])
  then show thesis using that s1(1,5) steady_trans [OF s1(3)] by (simp add: fgetc_def)
qed


section \<open>Positions\<close>

lemma to_long_id: "- (2 ^ 31) \<le> x \<Longrightarrow> x < 2 ^ 31 \<Longrightarrow> to_long x = x"
  by (simp add: to_long_def sint_sbintrunc' signed_take_bit_int_eq_self)

lemma streams_moved:
  assumes S: "streams content F A s" and u: "in_use s i" and f: "fd_ok content s (F i) c p" and b: "buffer_ok (iob_table s ! i) c p"
    and a: "A i = view (iob_table s ! i) c p" and m: "moved content (F i) c p s s'"
  shows "streams content F A s'"
proof -
  have "streams content F (A(i := view (iob_table s ! i) c p)) (set_iob i (iob_table s ! i) s')"
    by (rule streams_update [OF S u m _ _ b]) (use u in \<open>simp_all add: in_use_def\<close>)
  moreover have "set_iob i (iob_table s ! i) s' = s'" using moved_rest(2) [OF m] by (simp add: set_iob_def)
  ultimately show ?thesis using a by (metis fun_upd_triv)
qed

lemma ftell_ok:
  assumes D: "dos_files D content" and S: "streams content F A s" and u: "in_use s i" and b31: "length (fst (A i)) < 2 ^ 31"
  obtains s' where "ftell D (Some i) s = Some (int (snd (A i)), s')" "streams content F A s'" "steady s s'" "iob_table s' = iob_table s"
proof -
  let ?file = "iob_table s ! i"
  obtain c p where f: "fd_ok content s (F i) c p" and b: "buffer_ok ?file c p" and a: "A i = view ?file c p"
    and at: "at (iob_table s) i = Some ?file" and i: "i < length (iob_table s)" "IOBF_IN_USE \<in> iob_Flags ?file"
    and hook: "\<forall>D fam. iob_hook_entry D i fam s = fd_hook_entry D (F i) fam s" by (rule streamsD [OF S u])
  have p: "p \<le> length c" using dos_filesD(1) [OF D fd_okD(4) [OF f]] .
  have t: "int p = seek_target c p 0 (seek_mode SEEK_CUR)" "int p \<le> int (length c)" using p by (simp_all add: seek_target_def seek_mode_def)
  obtain s1 where h: "fd_hook_entry D (F i) (Action_seek 0 SEEK_CUR) s = Some (max 0 (int p), [], OK, s1)"
    and m: "moved content (F i) c (nat (int p)) s s1" by (rule hook_seek_ok [OF D f t])
  have m': "moved content (F i) c p s s1" using m by simp
  have pos: "(if iob_read_buffer_is_valid ?file then int p - int (iob_num_unread_bytes ?file)
        else if iob_write_buffer_is_valid ?file then int p + int (iob_num_unwritten_bytes ?file) else int p) = int (snd (A i))"
    using b by (auto simp: a view_def buffer_ok_def iob_read_buffer_is_valid_def iob_num_unread_bytes_def iob_write_buffer_is_valid_def
      iob_num_unwritten_bytes_def)
  have "to_long (int (snd (A i))) = int (snd (A i))" by (rule to_long_id) (use stream_bound [OF D S u] b31 in simp_all)
  then have "ftell D (Some i) s = Some (int (snd (A i)), s1)"
    using i h hook pos moved_rest(2) [OF m] by (simp add: ftell_def at Let_def)
  moreover have "steady s s1" using moved_rest(1,2) [OF m'] by (simp add: steady_def)
  ultimately show thesis using that streams_moved [OF S u f b a m'] moved_rest(2) [OF m'] by blast
qed

text \<open>Where a seek leads: the new position, for targets within the file.\<close>

definition file_seek :: "int \<Rightarrow> int \<Rightarrow> byte list \<times> nat \<Rightarrow> int" where
  "file_seek offset wherefrom a = seek_target (fst a) (snd a) offset (seek_mode wherefrom)"

text \<open>Emptying both buffers and moving the file position.\<close>

lemma seek_slow_ok:
  assumes D: "dos_files D content" and S: "streams content F A s" and u: "in_use s i"
    and t: "t = file_seek offset wherefrom (A i)" "0 \<le> t" "t \<le> int (length (fst (A i)))" "t < 2 ^ 31"
  obtains s' where "(do {
      (r, s) \<leftarrow> (if iob_write_buffer_is_valid (iob_table s ! i) then flush_iob_write_buffer D i s else Some (OK, s));
      if r < 0 then Some (ERROR, s)
      else do {
        file \<leftarrow> at (iob_table s) i;
        (r, s) \<leftarrow> (if iob_read_buffer_is_valid file then drop_iob_read_buffer D i s else Some (OK, s));
        if r < 0 then Some (ERROR, s)
        else do {
          (position, _, err, s) \<leftarrow> iob_hook_entry D i (Action_seek offset wherefrom) s;
          if err \<noteq> OK then Some (ERROR, (set_iob_flag i IOBF_ERROR s)\<lparr>errno := err\<rparr>)
          else Some (OK, if to_long position < 0 then s\<lparr>errno := OK\<rparr> else s) } } }) = Some (OK, s')"
    "streams content F (A(i := (fst (A i), nat t))) s'" "steady s s'"
proof -
  have i: "i < length (iob_table s)" using u by (simp add: in_use_def)
  obtain s1 where s1: "(if iob_write_buffer_is_valid (iob_table s ! i) then flush_iob_write_buffer D i s else Some (OK, s)) = Some (OK, s1)"
    "streams content F A s1" "steady s s1" "iob_BufferWriteBytes (iob_table s1 ! i) = 0"
  proof (cases "iob_write_buffer_is_valid (iob_table s ! i)")
    case True
    obtain s1 where f: "flush_iob_write_buffer D i s = Some (OK, s1)" "streams content F A s1" "same_rest s s1"
      "iob_table s1 = (iob_table s)[i := (iob_table s ! i)\<lparr>iob_BufferWriteBytes := 0\<rparr>]" by (rule flush_ok [OF D S u])
    show thesis using that [of s1] True f(1,2) steady_flush [OF f(3,4) i] i by (simp add: f(4))
  qed (use that S in \<open>simp add: iob_write_buffer_is_valid_def\<close>)
  have u1: "in_use s1 i" using steady_in_use [OF s1(3)] u by simp
  have i1: "i < length (iob_table s1)" using u1 by (simp add: in_use_def)
  obtain s2 where s2: "(if iob_read_buffer_is_valid (iob_table s1 ! i) then drop_iob_read_buffer D i s1 else Some (OK, s1)) = Some (OK, s2)"
    "streams content F A s2" "steady s1 s2" "iob_BufferWriteBytes (iob_table s2 ! i) = 0" "iob_BufferReadBytes (iob_table s2 ! i) = 0"
  proof (cases "iob_read_buffer_is_valid (iob_table s1 ! i)")
    case True
    obtain s2 where f: "drop_iob_read_buffer D i s1 = Some (OK, s2)" "streams content F A s2" "same_rest s1 s2"
      "iob_table s2 = (iob_table s1)[i := (iob_table s1 ! i)\<lparr>iob_Flags := iob_Flags (iob_table s1 ! i) - {IOBF_EOF_REACHED},
        iob_BufferReadBytes := 0, iob_BufferPosition := 0\<rparr>]" by (rule drop_ok [OF D s1(2) u1])
    have "steady s1 s2" unfolding steady_def f(4) using f(3) i1 by (simp add: map_const_update iob_const_def)
    then show thesis using that [of s2] True f(1,2) i1 s1(4) by (simp add: f(4))
  qed (use that s1 in \<open>simp add: iob_read_buffer_is_valid_def\<close>)
  have u2: "in_use s2 i" using steady_in_use [OF s2(3)] u1 by simp
  let ?file = "iob_table s2 ! i"
  obtain c p where f: "fd_ok content s2 (F i) c p" and b: "buffer_ok ?file c p" and a: "A i = view ?file c p"
    and i2: "i < length (iob_table s2)" "IOBF_IN_USE \<in> iob_Flags ?file"
    and hook: "\<forall>D fam. iob_hook_entry D i fam s2 = fd_hook_entry D (F i) fam s2" by (rule streamsD [OF s2(2) u2])
  have A: "A i = (c, p)" using s2(4,5) by (simp add: a view_def)
  have t': "t = seek_target c p offset (seek_mode wherefrom)" "t \<le> int (length c)" using t by (simp_all add: A file_seek_def)
  obtain s3 where h: "fd_hook_entry D (F i) (Action_seek offset wherefrom) s2 = Some (max 0 t, [], OK, s3)"
    and m: "moved content (F i) c (nat t) s2 s3" by (rule hook_seek_ok [OF D f t'])
  have ok: "buffer_ok ?file c (nat t)" using b s2(4,5) by (simp add: buffer_ok_def)
  have "streams content F (A(i := view ?file c (nat t))) (set_iob i ?file s3)"
    by (rule streams_update [OF s2(2) u2 m _ _ ok]) (use i2 in simp_all)
  moreover have "set_iob i ?file s3 = s3" using moved_rest(2) [OF m] by (simp add: set_iob_def)
  moreover have "view ?file c (nat t) = (c, nat t)" using s2(4,5) by (simp add: view_def)
  ultimately have S3: "streams content F (A(i := (c, nat t))) s3" by simp
  have "steady s2 s3" using moved_rest(1,2) [OF m] by (simp add: steady_def)
  then have st: "steady s s3" using s1(3) s2(3) steady_trans by blast
  have tl: "to_long t = t" by (rule to_long_id) (use t in simp_all)
  show thesis
    by (rule that [of s3]) (use s1(1) s2(1) h hook S3 st t(2) tl i in
      \<open>simp_all add: in_use_at [OF u1] A max_def\<close>)
qed


lemma fseek_ok:
  assumes D: "dos_files D content" and S: "streams content F A s" and u: "in_use s i"
    and wh: "0 \<le> wherefrom" "wherefrom \<le> 2"
    and t: "t = file_seek offset wherefrom (A i)" "0 \<le> t" "t \<le> int (length (fst (A i)))" and b31: "length (fst (A i)) < 2 ^ 31"
  obtains s' where "fseek D (Some i) offset wherefrom s = Some (OK, s')" "streams content F (A(i := (fst (A i), nat t))) s'" "steady s s'"
proof -
  let ?file = "iob_table s ! i"
  have at: "at (iob_table s) i = Some ?file" and i: "i < length (iob_table s)" "IOBF_IN_USE \<in> iob_Flags ?file"
    using u by (simp_all add: in_use_def at_def)
  have q: "snd (A i) \<le> length (fst (A i))" by (rule stream_bound [OF D S u])
  obtain offset1 wherefrom1 s1 where s1: "(if wherefrom = SEEK_SET \<and> iob_read_buffer_is_valid ?file then do {
         (current_position, s) \<leftarrow> ftell D (Some i) s;
         Some (if current_position \<noteq> CHANGE_FILE_ERROR then (to_long (offset - current_position), SEEK_CUR, s) else (offset, wherefrom, s)) }
       else Some (offset, wherefrom, s)) = Some (offset1, wherefrom1, s1)"
    "streams content F A s1" "steady s s1" "iob_table s1 = iob_table s" "t = file_seek offset1 wherefrom1 (A i)"
  proof (cases "wherefrom = SEEK_SET \<and> iob_read_buffer_is_valid ?file")
    case True
    obtain s1 where f: "ftell D (Some i) s = Some (int (snd (A i)), s1)" "streams content F A s1" "steady s s1" "iob_table s1 = iob_table s"
      by (rule ftell_ok [OF D S u b31])
    have o: "t = offset" using t(1) True by (simp add: file_seek_def seek_target_def seek_mode_def)
    have "int (length (fst (A i))) < 2 ^ 31" using b31 by simp
    then have "to_long (offset - int (snd (A i))) = offset - int (snd (A i))" using o t(2,3) q by (intro to_long_id) linarith+
    moreover have "t = file_seek (offset - int (snd (A i))) SEEK_CUR (A i)" using o by (simp add: file_seek_def seek_target_def seek_mode_def)
    ultimately show thesis using that True f t(1) by (cases "snd (A i) = 0") auto
  next
    case False
    show thesis by (rule that [OF if_not_P [OF False] S _ refl t(1)]) simp
  qed
  have u1: "in_use s1 i" using steady_in_use [OF s1(3)] u by simp
  define file2 where "file2 = ?file\<lparr>iob_Flags := iob_Flags ?file - {IOBF_EOF_REACHED}\<rparr>"
  define s2 where "s2 = set_iob i file2 s1"
  have S2: "streams content F A s2"
    unfolding s2_def by (rule streams_set_iob [OF s1(2) u1]) (use i s1(4) in \<open>simp_all add: file2_def\<close>)
  have st2: "steady s s2"
    using steady_trans [OF s1(3) steady_set_iob [of s1 s1 file2 i]] i s1(4) by (simp add: s2_def file2_def iob_const_def)
  have u2: "in_use s2 i" using steady_in_use [OF st2] u by simp
  have t2: "iob_table s2 ! i = file2" using i(1) s1(4) by (simp add: s2_def)
  let ?slow = "do {
      (r, s) \<leftarrow> (if iob_write_buffer_is_valid file2 then flush_iob_write_buffer D i s2 else Some (OK, s2));
      if r < 0 then Some (ERROR, s)
      else do {
        file \<leftarrow> at (iob_table s) i;
        (r, s) \<leftarrow> (if iob_read_buffer_is_valid file then drop_iob_read_buffer D i s else Some (OK, s));
        if r < 0 then Some (ERROR, s)
        else do {
          (position, _, err, s) \<leftarrow> iob_hook_entry D i (Action_seek offset1 wherefrom1) s;
          if err \<noteq> OK then Some (ERROR, (set_iob_flag i IOBF_ERROR s)\<lparr>errno := err\<rparr>)
          else Some (OK, if to_long position < 0 then s\<lparr>errno := OK\<rparr> else s) } } }"
  have nb: "\<not> (IOBF_IN_USE \<notin> iob_Flags ?file \<or> wherefrom < SEEK_SET \<or> SEEK_END < wherefrom)" using i wh by simp
  have code: "fseek D (Some i) offset wherefrom s =
     (if wherefrom1 = SEEK_CUR \<and> offset1 = 0 then Some (OK, s2)
      else if wherefrom1 = SEEK_CUR \<and> iob_read_buffer_is_valid file2 \<and>
              (offset1 < 0 \<and> - offset1 \<le> int (iob_BufferPosition file2) \<or>
               offset1 > 0 \<and> offset1 \<le> int (iob_num_unread_bytes file2))
        then Some (OK, set_iob i (file2\<lparr>iob_BufferPosition := nat (int (iob_BufferPosition file2) + offset1)\<rparr>) s2)
      else ?slow)"
    unfolding fseek_def option.case at bind.bind_lunit if_not_P [OF nb] s1(1) prod.case s1(4)
    unfolding at bind.bind_lunit Let_def file2_def [symmetric] s2_def [symmetric] ..
  consider (stay) "wherefrom1 = SEEK_CUR \<and> offset1 = 0"
    | (inside) "\<not> (wherefrom1 = SEEK_CUR \<and> offset1 = 0)" "wherefrom1 = SEEK_CUR \<and> iob_read_buffer_is_valid file2 \<and>
              (offset1 < 0 \<and> - offset1 \<le> int (iob_BufferPosition file2) \<or> offset1 > 0 \<and> offset1 \<le> int (iob_num_unread_bytes file2))"
    | (slow) "\<not> (wherefrom1 = SEEK_CUR \<and> offset1 = 0)" "\<not> (wherefrom1 = SEEK_CUR \<and> iob_read_buffer_is_valid file2 \<and>
              (offset1 < 0 \<and> - offset1 \<le> int (iob_BufferPosition file2) \<or> offset1 > 0 \<and> offset1 \<le> int (iob_num_unread_bytes file2)))"
    by blast
  then show thesis
  proof cases
    case stay
    have "A i = (fst (A i), nat t)" using s1(5) stay by (simp add: file_seek_def seek_target_def seek_mode_def)
    then have "streams content F (A(i := (fst (A i), nat t))) s2" using S2 by (metis fun_upd_triv)
    then show thesis using that st2 unfolding code if_P [OF stay] by blast
  next
    case inside
    obtain c p where f: "fd_ok content s2 (F i) c p" and b: "buffer_ok file2 c p" and a: "A i = view file2 c p"
      using t2 by (auto intro: streamsD [OF S2 u2])
    have r: "iob_BufferReadBytes file2 > 0" using inside(2) by (simp add: iob_read_buffer_is_valid_def)
    then have bb: "iob_BufferWriteBytes file2 = 0" "iob_BufferPosition file2 \<le> iob_BufferReadBytes file2" "iob_BufferReadBytes file2 \<le> p"
      using b by (auto simp: buffer_ok_def)
    define new where "new = file2\<lparr>iob_BufferPosition := nat (int (iob_BufferPosition file2) + offset1)\<rparr>"
    have n: "int (iob_BufferPosition new) = int (iob_BufferPosition file2) + offset1" "iob_BufferPosition new \<le> iob_BufferReadBytes file2"
      using inside(2) bb by (auto simp: new_def iob_num_unread_bytes_def split: if_splits)
    have ok: "buffer_ok new c p" using b n(2) by (simp add: buffer_ok_def new_def)
    have tt: "t = int (p - (iob_BufferReadBytes file2 - iob_BufferPosition file2)) + offset1"
      using s1(5) inside(2) bb by (simp add: file_seek_def seek_target_def seek_mode_def a view_def)
    have "int (p - (iob_BufferReadBytes file2 - iob_BufferPosition new)) = t" using n bb tt by (simp add: of_nat_diff)
    then have "p - (iob_BufferReadBytes file2 - iob_BufferPosition new) = nat t" by linarith
    moreover have "iob_BufferReadBytes new = iob_BufferReadBytes file2" "iob_BufferWriteBytes new = 0" using bb(1) by (simp_all add: new_def)
    ultimately have v: "view new c p = (fst (A i), nat t)" using bb(1) by (simp add: view_def a)
    have "streams content F (A(i := view new c p)) (set_iob i new s2)"
      by (rule streams_update [OF S2 u2 moved_refl [OF f] _ _ ok]) (use i t2 in \<open>simp_all add: new_def file2_def\<close>)
    moreover have "steady s2 (set_iob i new s2)"
      by (rule steady_set_iob) (use in_use_less [OF u2] t2 in \<open>simp_all add: iob_const_def new_def\<close>)
    moreover have "fseek D (Some i) offset wherefrom s = Some (OK, set_iob i new s2)"
      unfolding code if_not_P [OF inside(1)] if_P [OF inside(2)] new_def ..
    ultimately show thesis using that v steady_trans [OF st2] by simp
  next
    case slow
    have "int (length (fst (A i))) < 2 ^ 31" using b31 by simp
    then have tb: "t < 2 ^ 31" using t(3) by linarith
    obtain s3 where "?slow = Some (OK, s3)" "streams content F (A(i := (fst (A i), nat t))) s3" "steady s2 s3"
      by (rule seek_slow_ok [OF D S2 u2 s1(5) t(2,3) tb, unfolded t2])
    then show thesis using that steady_trans [OF st2] unfolding code if_not_P [OF slow(1)] if_not_P [OF slow(2)] by blast
  qed
qed

lemma fflush_ok:
  assumes D: "dos_files D content" and S: "streams content F A s" and u: "in_use s i"
  obtains s' where "fflush D (Some i) s = Some (OK, s')" "streams content F A s'" "steady s s'" "iob_BufferWriteBytes (iob_table s' ! i) = 0"
proof -
  have i: "i < length (iob_table s)" using u by (simp add: in_use_def)
  obtain s' where f: "flush_iob_write_buffer D i s = Some (OK, s')" "streams content F A s'" "same_rest s s'"
    "iob_table s' = (iob_table s)[i := (iob_table s ! i)\<lparr>iob_BufferWriteBytes := 0\<rparr>]" by (rule flush_ok [OF D S u])
  show thesis
  proof (cases "iob_write_buffer_is_valid (iob_table s ! i)")
    case True
    then show thesis using that [of s'] f steady_flush [OF f(3,4) i] i by (simp add: fflush_def in_use_at [OF u])
  next
    case False
    then show thesis using that [of s] S by (simp add: fflush_def in_use_at [OF u] iob_write_buffer_is_valid_def)
  qed
qed

end
