(* ===== verification/StdioBlocks.thy ===== *)
theory StdioBlocks
  imports StdioSeek
begin

text \<open>
  \<open>fread\<close>, \<open>fgets\<close>, \<open>fwrite\<close> and \<open>fputs\<close> as operations on the file behind the stream: which bytes they move, whatever part of them
  goes through the buffer and whatever part around it.
\<close>

section \<open>Streams and memory\<close>

declare fread_loop.simps [simp del] fgets_loop.simps [simp del]

text \<open>Calls that read into memory may change it and \<open>errno\<close>, and nothing else that is not the stream's.\<close>

definition steady_mem :: "'d stdio \<Rightarrow> 'd stdio \<Rightarrow> bool" where
  "steady_mem s s' \<longleftrightarrow> unix_path_semantics s' = unix_path_semantics s \<and> map fd_Flags (fd_table s') = map fd_Flags (fd_table s) \<and>
     map iob_const (iob_table s') = map iob_const (iob_table s)"

lemma steady_steady_mem: "steady s s' \<Longrightarrow> steady_mem s s'"
  by (simp add: steady_def same_rest_def steady_mem_def)

lemma steady_mem_refl [simp]: "steady_mem s s"
  by (simp add: steady_mem_def)

lemma steady_mem_trans: "steady_mem s s' \<Longrightarrow> steady_mem s' s'' \<Longrightarrow> steady_mem s s''"
  by (simp add: steady_mem_def)

lemma steady_mem_steady: "steady_mem s s' \<Longrightarrow> steady (s\<lparr>ram := ram s', errno := errno s'\<rparr>) s'"
  by (simp add: steady_def same_rest_def steady_mem_def)

lemma steady_mem_in_use: "steady_mem s s' \<Longrightarrow> in_use s' i \<longleftrightarrow> in_use s i"
  using steady_in_use [OF steady_mem_steady, of s s' i] by (simp add: in_use_def)

lemma steady_mem_fixed:
  assumes "steady_mem s s'" "i < length (iob_table s)"
  shows "iob_Mode (iob_table s' ! i) = iob_Mode (iob_table s ! i)" "iob_BufferSize (iob_table s' ! i) = iob_BufferSize (iob_table s ! i)"
    "iob_Descriptor (iob_table s' ! i) = iob_Descriptor (iob_table s ! i)"
  using steady_fixed [OF steady_mem_steady [OF assms(1)], of i] assms(2) by simp_all

lemma steady_mem_flag:
  assumes "steady_mem s s'" "i < length (iob_table s)" "g \<noteq> IOBF_EOF_REACHED"
  shows "g \<in> iob_Flags (iob_table s' ! i) \<longleftrightarrow> g \<in> iob_Flags (iob_table s ! i)"
  using steady_flag [OF steady_mem_steady [OF assms(1)] _ assms(3), of i] assms(2) by simp

lemma steady_mem_fd_flags:
  assumes "steady_mem s s'" "k < length (fd_table s)"
  shows "fd_Flags (fd_table s' ! k) = fd_Flags (fd_table s ! k)"
proof -
  have m: "map fd_Flags (fd_table s') = map fd_Flags (fd_table s)" using assms(1) by (simp add: steady_mem_def)
  have "length (fd_table s') = length (fd_table s)" using arg_cong [OF m, of length] by simp
  then show ?thesis using arg_cong [OF m, of "\<lambda>t. t ! k"] assms(2) by simp
qed

lemma get_file_descriptor_cong: "fd_table s = fd_table s' \<Longrightarrow> get_file_descriptor b n s = get_file_descriptor b n s'"
  by (simp add: get_file_descriptor_def)

lemma store_bytes_ok:
  assumes S: "streams content F A s" and r: "region (ram s) a (length xs)"
  shows "store_bytes a xs s = Some (s\<lparr>ram := put (ram s) a xs\<rparr>)" "streams content F A (s\<lparr>ram := put (ram s) a xs\<rparr>)"
    "steady_mem s (s\<lparr>ram := put (ram s) a xs\<rparr>)"
  using r streams_same [OF S, of "s\<lparr>ram := put (ram s) a xs\<rparr>"] by (simp_all add: store_bytes_def steady_mem_def)

section \<open>Reading blocks\<close>

text \<open>Reading past the buffer, with nothing in it.\<close>

lemma read_bypass_ok:
  assumes D: "dos_files D content" and S: "streams content F A s" and u: "in_use s i"
    and e: "iob_BufferWriteBytes (iob_table s ! i) = 0" "iob_BufferReadBytes (iob_table s ! i) = 0"
    and fl: "FDF_READ \<in> fd_Flags (fd_table s ! F i)" and n: "0 < n" and d: "data \<noteq> NULL" "region (ram s) data n"
  obtains s' where "read_bypass D i data n k s = Some (Some (k + length (take n (file_rest (A i)))), s')"
    "ram s' = put (ram s) data (take n (file_rest (A i)))"
    "streams content F (A(i := (fst (A i), snd (A i) + length (take n (file_rest (A i)))))) s'" "steady_mem s s'"
proof -
  let ?file = "iob_table s ! i"
  let ?s0 = "s\<lparr>errno := 0\<rparr>"
  obtain c p where f: "fd_ok content s (F i) c p" and b: "buffer_ok ?file c p" and a: "A i = view ?file c p"
    and at: "at (iob_table s) i = Some ?file" and i: "i < length (iob_table s)" "IOBF_IN_USE \<in> iob_Flags ?file" by (rule streamsD [OF S u])
  have g: "get_file_descriptor True (iob_Descriptor ?file) s = Some (F i)" using S u by (simp add: streams_def stream_ok_def)
  have S0: "streams content F A ?s0" by (rule streams_same [OF S]) simp_all
  have u0: "in_use ?s0 i" using u by (simp add: in_use_def)
  have f0: "fd_ok content ?s0 (F i) c p" using f by (simp add: fd_ok_def)
  have g0: "get_file_descriptor True (iob_Descriptor ?file) ?s0 = Some (F i)"
    using g by (subst get_file_descriptor_cong [of ?s0 s]) simp_all
  have A: "A i = (c, p)" using e by (simp add: a view_def)
  define ys where "ys = take n (file_rest (A i))"
  have ys: "ys = take n (drop p c)" by (simp add: ys_def A file_rest_def)
  obtain s1 where h: "fd_hook_entry D (F i) (Action_read n) ?s0 = Some (int (length ys), ys, OK, s1)"
    and m: "moved content (F i) c (p + length ys) ?s0 s1" unfolding ys by (rule hook_read_ok [OF D f0])
  note m' = moved_rest [OF m]
  have ram1: "ram s1 = ram s" using m'(1) by (simp add: same_rest_def)
  have rg: "region (ram s1) data (length ys)" unfolding ram1 by (rule region_mono [OF d(2)]) (simp add: ys)
  define s2 where "s2 = s1\<lparr>ram := put (ram s1) data ys\<rparr>"
  have ok: "buffer_ok ?file c (p + length ys)" using b e by (simp add: buffer_ok_def)
  have "streams content F (A(i := view ?file c (p + length ys))) (set_iob i ?file s1)"
    by (rule streams_update [OF S0 u0 m _ _ ok]) (use i in simp_all)
  moreover have "set_iob i ?file s1 = s1" using m'(2) by (simp add: set_iob_def)
  moreover have "view ?file c (p + length ys) = (fst (A i), snd (A i) + length ys)" using e by (simp add: view_def A)
  ultimately have S1: "streams content F (A(i := (fst (A i), snd (A i) + length ys))) s1" by simp
  note st = store_bytes_ok [OF S1 rg, folded s2_def]
  have sm1: "steady_mem s s1" using m'(1,2) by (simp add: steady_mem_def same_rest_def)
  have sock: "FDF_IS_SOCKET \<notin> fd_Flags (fd_table s ! F i)" using plain_fdD(6) [OF fd_okD(3) [OF f]] .
  have rd: "FdHook.read D (iob_Descriptor ?file) data n s = Some (int (length ys), s2)"
    using fl d(1) n sock h st(1) fd_okD(1) [OF f] g0 by (simp add: FdHook.read_def)
  have u2: "in_use s2 i" using u m'(2) by (simp add: in_use_def s2_def)
  show thesis
  proof (cases "ys = []")
    case True
    define new where "new = (iob_table s2 ! i)\<lparr>iob_Flags := insert IOBF_EOF_REACHED (iob_Flags (iob_table s2 ! i))\<rparr>"
    have fl2: "set_iob_flag i IOBF_EOF_REACHED s2 = set_iob i new s2" by (simp add: set_iob_flag_def new_def)
    have S2: "streams content F (A(i := (fst (A i), snd (A i) + length ys))) (set_iob i new s2)"
      by (rule streams_set_iob [OF st(2) u2]) (use u2 in \<open>simp_all add: new_def in_use_def\<close>)
    have "steady s2 (set_iob i new s2)"
      by (rule steady_set_iob) (use in_use_less [OF u2] in \<open>auto simp: iob_const_def new_def\<close>)
    then have "steady_mem s (set_iob i new s2)" using sm1 st(3) steady_steady_mem steady_mem_trans by blast
    moreover have "read_bypass D i data n k s = Some (Some (k + length ys), set_iob i new s2)"
      using True rd by (simp add: read_bypass_def at fl2)
    ultimately show thesis using that S2 unfolding ys_def [symmetric] by (simp add: s2_def ram1)
  next
    case False
    then have "read_bypass D i data n k s = Some (Some (k + length ys), s2)" using rd by (simp add: read_bypass_def at)
    moreover have "steady_mem s s2" using sm1 st(3) steady_mem_trans by blast
    ultimately show thesis using that st(2) unfolding ys_def [symmetric] by (simp add: s2_def ram1)
  qed
qed

text \<open>The steps of the loops: bytes of the buffer and single characters go to the caller's memory.\<close>

lemma take_store:
  assumes D: "dos_files D content" and S: "streams content F A s" and a: "A i = (c, q)" and u: "in_use s i"
    and w: "iob_BufferWriteBytes (iob_table s ! i) = 0"
    and m: "m \<le> iob_BufferReadBytes (iob_table s ! i) - iob_BufferPosition (iob_table s ! i)" and p: "region (ram s) p m"
  obtains s1 s2 where "buffer_take i m s = Some (take m (drop q c), s1)" "store_bytes p (take m (drop q c)) s1 = Some s2"
    "streams content F (A(i := (c, q + m))) s2" "steady_mem s s2" "iob_BufferWriteBytes (iob_table s2 ! i) = 0"
    "ram s2 = put (ram s) p (take m (drop q c))" "length (take m (drop q c)) = m"
proof -
  obtain s1 where t: "buffer_take i m s = Some (take m (drop q c), s1)" "streams content F (A(i := (c, q + m))) s1" "steady s s1"
    "iob_table s1 = (iob_table s)[i := (iob_table s ! i)\<lparr>iob_BufferPosition := iob_BufferPosition (iob_table s ! i) + m\<rparr>]"
    "length (take m (drop q c)) = m"
    using buffer_take_ok [OF D S u w m] unfolding a file_rest_def fst_conv snd_conv by blast
  have ram1: "ram s1 = ram s" using t(3) by (simp add: steady_def same_rest_def)
  have rg: "region (ram s1) p (length (take m (drop q c)))" unfolding ram1 t(5) by (rule p)
  define s2 where "s2 = s1\<lparr>ram := put (ram s1) p (take m (drop q c))\<rparr>"
  note st = store_bytes_ok [OF t(2) rg, folded s2_def]
  show thesis
    by (rule that [OF t(1) st(1,2) steady_mem_trans [OF steady_steady_mem [OF t(3)] st(3)] _ _ t(5)])
      (use w t(4) in_use_less [OF u] in \<open>simp_all add: s2_def ram1\<close>)
qed

lemma get_store:
  assumes D: "dos_files D content" and S: "streams content F A s" and a: "A i = (c, q)" and u: "in_use s i"
    and w: "iob_BufferWriteBytes (iob_table s ! i) = 0" and x: "drop q c = x # ys" and p: "region (ram s) p 1"
  obtains s1 s2 where "getc D i s = Some (uint x, s1)" "store_bytes p [x] s1 = Some s2" "streams content F (A(i := (c, q + 1))) s2"
    "steady_mem s s2" "iob_BufferWriteBytes (iob_table s2 ! i) = 0" "ram s2 = put (ram s) p [x]"
proof -
  have e: "file_get (A i) = (uint x, c, q + 1)" by (simp add: a file_get_def file_rest_def x)
  obtain s1 where g: "getc D i s = Some (uint x, s1)" "streams content F (A(i := (c, q + 1))) s1" "steady s s1"
    "iob_BufferWriteBytes (iob_table s1 ! i) = 0" using getc_ok [OF D S u w] unfolding e fst_conv snd_conv by blast
  have ram1: "ram s1 = ram s" using g(3) by (simp add: steady_def same_rest_def)
  have rg: "region (ram s1) p (length [x])" using p by (simp add: ram1)
  note st = store_bytes_ok [OF g(2) rg]
  show thesis
    by (rule that [OF g(1) st(1,2) steady_mem_trans [OF steady_steady_mem [OF g(3)] st(3)]]) (simp_all add: g(4) ram1)
qed

lemma get_end:
  assumes D: "dos_files D content" and S: "streams content F A s" and a: "A i = (c, q)" and u: "in_use s i"
    and w: "iob_BufferWriteBytes (iob_table s ! i) = 0" and x: "drop q c = []"
  obtains s1 where "getc D i s = Some (EOF, s1)" "streams content F A s1" "steady_mem s s1" "ram s1 = ram s"
proof -
  have e: "file_get (A i) = (EOF, A i)" by (simp add: a file_get_def file_rest_def x)
  obtain s1 where g: "getc D i s = Some (EOF, s1)" "streams content F A s1" "steady s s1"
    using getc_ok [OF D S u w] unfolding e fst_conv snd_conv fun_upd_triv by blast
  then show thesis using that steady_steady_mem [OF g(3)] by (simp add: steady_def same_rest_def)
qed

lemma region_split: "region m a n \<Longrightarrow> k < n \<Longrightarrow> region m (a + k) 1 \<and> region m (a + k + 1) (n - k - 1)"
  by (auto simp: region_def)

lemma take_drop_Cons: "drop (q + m) c = x # ys \<Longrightarrow> m < n \<Longrightarrow> take n (drop q c) = take m (drop q c) @ x # take (n - m - 1) ys"
  using take_add [of m "n - m" "drop q c"] by (simp add: add.commute take_Cons')

text \<open>The number of bytes the loops take from the buffer.\<close>

abbreviation unread :: "nat \<Rightarrow> 'd stdio \<Rightarrow> nat" where
  "unread i s \<equiv> iob_BufferReadBytes (iob_table s ! i) - iob_BufferPosition (iob_table s ! i)"

lemma unread_ok:
  assumes D: "dos_files D content" and S: "streams content F A s" and a: "A i = (c, q)" and u: "in_use s i"
    and w: "iob_BufferWriteBytes (iob_table s ! i) = 0" and m: "m \<le> unread i s"
  shows "take m (drop (iob_BufferPosition (iob_table s ! i)) (iob_Buffer (iob_table s ! i))) = take m (drop q c)" "m \<le> length (drop q c)"
proof -
  obtain c' p where f: "fd_ok content s (F i) c' p" and b: "buffer_ok (iob_table s ! i) c' p" and a': "A i = view (iob_table s ! i) c' p"
    by (rule streamsD [OF S u])
  have p: "p \<le> length c'" using dos_filesD(1) [OF D fd_okD(4) [OF f]] .
  note v = buffer_unread [OF b p w]
  show "take m (drop (iob_BufferPosition (iob_table s ! i)) (iob_Buffer (iob_table s ! i))) = take m (drop q c)"
    using v(2) [OF m] by (simp add: a' [symmetric] a file_rest_def)
  have "c = c'" "q = p - unread i s" using a a' v(1) by simp_all
  then show "m \<le> length (drop q c)" using m p b by (simp add: buffer_ok_def)
qed

lemma chunk_min:
  "(if iob_BufferPosition file < iob_BufferReadBytes file then min (iob_BufferReadBytes file - iob_BufferPosition file) n else 0) =
   min (iob_BufferReadBytes file - iob_BufferPosition file) n"
  by simp

lemma fread_loop_ok:
  assumes D: "dos_files D content"
  shows "streams content F A s \<Longrightarrow> A i = (c, q) \<Longrightarrow> in_use s i \<Longrightarrow> iob_BufferWriteBytes (iob_table s ! i) = 0 \<Longrightarrow>
    FDF_READ \<in> fd_Flags (fd_table s ! F i) \<Longrightarrow> data \<noteq> NULL \<Longrightarrow> region (ram s) data n \<Longrightarrow>
    \<exists>s'. fread_loop D i data n k s = Some (Some (k + length (take n (drop q c))), s') \<and> ram s' = put (ram s) data (take n (drop q c)) \<and>
      streams content F (A(i := (c, q + length (take n (drop q c))))) s' \<and> steady_mem s s'"
proof (induction n arbitrary: A q s data k rule: less_induct)
  case (less n)
  note S = less.prems(1) and a = less.prems(2) and u = less.prems(3) and w = less.prems(4) and fl = less.prems(5) and d = less.prems(6,7)
  have rest: "file_rest (A i) = drop q c" "fst (A i) = c" "snd (A i) = q" by (simp_all add: a file_rest_def)
  consider "n = 0" | "n \<noteq> 0" "iob_BufferReadBytes (iob_table s ! i) = 0 \<and> iob_BufferSize (iob_table s ! i) \<le> n"
    | "n \<noteq> 0" "\<not> (iob_BufferReadBytes (iob_table s ! i) = 0 \<and> iob_BufferSize (iob_table s ! i) \<le> n)" by blast
  then show ?case
  proof cases
    case 1
    then show ?thesis using S a by (subst fread_loop.simps) (simp add: fun_upd_idem)
  next
    case 2
    then have code: "fread_loop D i data n k s = read_bypass D i data n k s" by (subst fread_loop.simps) (simp add: in_use_at [OF u])
    obtain s' where "read_bypass D i data n k s = Some (Some (k + length (take n (drop q c))), s')" "ram s' = put (ram s) data (take n (drop q c))"
      "streams content F (A(i := (c, q + length (take n (drop q c))))) s'" "steady_mem s s'"
      by (rule read_bypass_ok [OF D S u w _ fl _ d, of k, unfolded rest]) (use 2 in simp_all)
    then show ?thesis unfolding code by blast
  next
    case 3
    define m where "m = min (unread i s) n"
    have m: "m \<le> unread i s" "m \<le> n" by (simp_all add: m_def)
    obtain s1 s2 where t: "buffer_take i m s = Some (take m (drop q c), s1)" "store_bytes data (take m (drop q c)) s1 = Some s2"
      "streams content F (A(i := (c, q + m))) s2" "steady_mem s s2" "iob_BufferWriteBytes (iob_table s2 ! i) = 0"
      "ram s2 = put (ram s) data (take m (drop q c))" "length (take m (drop q c)) = m"
      by (rule take_store [OF D S a u w m(1) region_mono [OF d(2) m(2)]])
    have u2: "in_use s2 i" using steady_mem_in_use [OF t(4)] u by simp
    have a2: "(A(i := (c, q + m))) i = (c, q + m)" by simp
    have code: "fread_loop D i data n k s = (if m = n then Some (Some (k + m), s2)
        else do {
          (c, s) \<leftarrow> getc D i s2;
          if c = EOF then Some (Some (k + m), s)
          else do {
            s \<leftarrow> store_bytes (data + m) [word_of_int c] s;
            fread_loop D i (data + m + 1) (n - m - 1) (k + m + 1) s } })"
      unfolding fread_loop.simps [of D i data n k s] if_not_P [OF 3(1)] in_use_at [OF u] bind.bind_lunit if_not_P [OF 3(2)] Let_def
        chunk_min m_def [symmetric] t(1) prod.case t(2) ..
    show ?thesis
    proof (cases "m = n")
      case True
      then show ?thesis unfolding code if_P [OF True] using t by metis
    next
      case False
      then have mn: "m < n" using m(2) by simp
      show ?thesis
      proof (cases "drop (q + m) c")
        case Nil
        have l: "take n (drop q c) = take m (drop q c)" using Nil mn by simp
        obtain s3 where g: "getc D i s2 = Some (EOF, s3)" "streams content F (A(i := (c, q + m))) s3" "steady_mem s2 s3" "ram s3 = ram s2"
          by (rule get_end [OF D t(3) a2 u2 t(5) Nil])
        have "fread_loop D i data n k s = Some (Some (k + m), s3)" using code False g(1) by simp
        then show ?thesis using g(2,4) steady_mem_trans [OF t(4) g(3)] unfolding l t(7) t(6) [symmetric] by blast
      next
        case (Cons x ys)
        have rg: "region (ram s2) (data + m) 1" "region (ram s2) (data + m + 1) (n - m - 1)" "data + m + 1 \<noteq> NULL"
          using region_split [OF d(2) mn] by (simp_all add: t(6))
        obtain s3 s4 where g: "getc D i s2 = Some (uint x, s3)" "store_bytes (data + m) [x] s3 = Some s4"
          "streams content F (A(i := (c, q + m), i := (c, q + m + 1))) s4" "steady_mem s2 s4" "iob_BufferWriteBytes (iob_table s4 ! i) = 0"
          "ram s4 = put (ram s2) (data + m) [x]" by (rule get_store [OF D t(3) a2 u2 t(5) Cons rg(1)])
        have sm4: "steady_mem s s4" using t(4) g(4) steady_mem_trans by blast
        have ne: "uint x \<noteq> EOF" using uint_ge_0 [of x] by linarith
        have S4: "streams content F (A(i := (c, q + m + 1))) s4" using g(3) by simp
        obtain c' p' where f: "fd_ok content s (F i) c' p'" by (rule streamsD [OF S u])
        have fl4: "FDF_READ \<in> fd_Flags (fd_table s4 ! F i)" using steady_mem_fd_flags [OF sm4] fl fd_okD(2) [OF f] by simp
        have lt: "n - m - 1 < n" and a4: "(A(i := (c, q + m + 1))) i = (c, q + m + 1)" and u4: "in_use s4 i"
          and rg4: "region (ram s4) (data + m + 1) (n - m - 1)" using mn steady_mem_in_use [OF sm4] u rg(2) by (simp_all add: g(6))
        have ys: "drop (q + m + 1) c = ys" using arg_cong [OF Cons, of "drop 1"] by (simp add: add.commute)
        obtain s' where s': "fread_loop D i (data + m + 1) (n - m - 1) (k + m + 1) s4 = Some (Some (k + m + 1 + length (take (n - m - 1) ys)), s')"
          "ram s' = put (ram s4) (data + m + 1) (take (n - m - 1) ys)"
          "streams content F (A(i := (c, q + m + 1 + length (take (n - m - 1) ys)))) s'" "steady_mem s4 s'"
          using less.IH [OF lt S4 a4 u4 g(5) fl4 rg(3) rg4, of "k + m + 1"] unfolding ys fun_upd_upd by blast
        have len: "length (take n (drop q c)) = m + 1 + length (take (n - m - 1) ys)"
          unfolding take_drop_Cons [OF Cons mn] length_append t(7) by simp
        have "ram s' = put (ram s) data (take n (drop q c))"
          unfolding take_drop_Cons [OF Cons mn] using s'(2) t(7) by (simp add: put_append g(6) t(6))
        moreover have "fread_loop D i data n k s = Some (Some (k + (m + 1 + length (take (n - m - 1) ys))), s')"
          using code False g(1,2) ne s'(1) by (simp add: add.assoc)
        ultimately show ?thesis using s'(3) steady_mem_trans [OF sm4 s'(4)] unfolding len add.assoc by blast
      qed
    qed
  qed
qed


lemma clearerr_ok:
  assumes S: "streams content F A s" and u: "in_use s i" and e: "IOBF_ERROR \<notin> iob_Flags (iob_table s ! i)"
  obtains s' where "clearerr (Some i) s = Some s'" "streams content F A s'" "steady s s'"
    "iob_BufferWriteBytes (iob_table s' ! i) = iob_BufferWriteBytes (iob_table s ! i)" "ram s' = ram s" "fd_table s' = fd_table s"
    "iob_Flags (iob_table s' ! i) = iob_Flags (iob_table s ! i) - {IOBF_ERROR, IOBF_EOF_REACHED}"
proof -
  define new where "new = (iob_table s ! i)\<lparr>iob_Flags := iob_Flags (iob_table s ! i) - {IOBF_ERROR, IOBF_EOF_REACHED}, iob_Flags2_SERR := False\<rparr>"
  have "streams content F A (set_iob i new s)" by (rule streams_set_iob [OF S u]) (use u in \<open>simp_all add: new_def in_use_def\<close>)
  moreover have "steady s (set_iob i new s)" by (rule steady_set_iob) (use in_use_less [OF u] e in \<open>auto simp: iob_const_def new_def\<close>)
  ultimately show thesis using that [of "set_iob i new s"] in_use_less [OF u] by (simp add: clearerr_def in_use_at [OF u] new_def)
qed

lemma fread_ok:
  assumes D: "dos_files D content" and S: "streams content F A s" and u: "in_use s i" and r: "IOBF_READ \<in> iob_Flags (iob_table s ! i)"
    and e: "IOBF_ERROR \<notin> iob_Flags (iob_table s ! i)"
    and md: "iob_Mode (iob_table s ! i) \<noteq> IOBF_BUFFER_MODE_NONE" and fl: "FDF_READ \<in> fd_Flags (fd_table s ! F i)"
    and n: "0 < element_size" "0 < count" "element_size * count < 2 ^ 32" and d: "ptr \<noteq> NULL" "region (ram s) ptr (element_size * count)"
  obtains s' where "fread D ptr element_size count (Some i) s = Some (length (take (element_size * count) (file_rest (A i))) div element_size, s')"
    "ram s' = put (ram s) ptr (take (element_size * count) (file_rest (A i)))"
    "streams content F (A(i := (fst (A i), snd (A i) + length (take (element_size * count) (file_rest (A i)))))) s'" "steady_mem s s'"
proof -
  obtain c p where f: "fd_ok content s (F i) c p" by (rule streamsD [OF S u])
  have i: "i < length (iob_table s)" using u by (simp add: in_use_def)
  obtain s1 where s1: "clearerr (Some i) s = Some s1" "streams content F A s1" "steady s s1" "ram s1 = ram s" "fd_table s1 = fd_table s"
    by (rule clearerr_ok [OF S u e])
  have u1: "in_use s1 i" using steady_in_use [OF s1(3)] u by simp
  have r1: "IOBF_READ \<in> iob_Flags (iob_table s1 ! i)" using steady_flag [OF s1(3) i, of IOBF_READ] r by simp
  obtain s2 where s2: "fgetc_check D i s1 = Some (OK, s2)" "streams content F A s2" "steady s1 s2" "iob_BufferWriteBytes (iob_table s2 ! i) = 0"
    by (rule fgetc_check_ok [OF D s1(2) u1 r1])
  have st: "steady s s2" using s1(3) s2(3) steady_trans by blast
  have u2: "in_use s2 i" using steady_in_use [OF st] u by simp
  have ram2: "ram s2 = ram s" using st by (simp add: steady_def same_rest_def)
  have fl2: "FDF_READ \<in> fd_Flags (fd_table s2 ! F i)"
    using steady_mem_fd_flags [OF steady_steady_mem [OF st], of "F i"] fl fd_okD(2) [OF f] by simp
  have d2: "region (ram s2) ptr (element_size * count)" using d(2) ram2 by simp
  obtain s3 where s3: "fread_loop D i ptr (element_size * count) 0 s2 = Some (Some (0 + length (take (element_size * count) (file_rest (A i)))), s3)"
    "ram s3 = put (ram s2) ptr (take (element_size * count) (file_rest (A i)))"
    "streams content F (A(i := (fst (A i), snd (A i) + length (take (element_size * count) (file_rest (A i)))))) s3" "steady_mem s2 s3"
    using fread_loop_ok [OF D s2(2) surjective_pairing u2 s2(4) fl2 d(1) d2, of 0] unfolding file_rest_def by blast
  have sz: "element_size * count mod 2 ^ 32 = element_size * count" using n(3) by simp
  have "fread D ptr element_size count (Some i) s = Some (length (take (element_size * count) (file_rest (A i))) div element_size, s3)"
    using u r d(1) s1(1) n s2(1) md s3(1) sz by (simp add: fread_def in_use_at [OF u] in_use_def)
  moreover have "steady_mem s s3" using steady_steady_mem [OF st] s3(4) steady_mem_trans by blast
  ultimately show thesis using that s3(2,3) ram2 by simp
qed


section \<open>Reading lines\<close>

text \<open>The next line, of at most \<open>n\<close> bytes, with its newline character.\<close>

definition file_line :: "nat \<Rightarrow> byte list \<Rightarrow> byte list" where
  "file_line n xs = (case through 10 (take n xs) of Some l \<Rightarrow> take l xs | None \<Rightarrow> take n xs)"

lemma through_bound: "through c xs = Some n \<Longrightarrow> 0 < n \<and> n \<le> length xs"
  using length_takeWhile_less_iff [of "\<lambda>b. b \<noteq> c" xs] by (auto simp: through_def split: if_splits)

lemma through_append: "through c (xs @ ys) = (case through c xs of Some l \<Rightarrow> Some l | None \<Rightarrow> map_option ((+) (length xs)) (through c ys))"
  by (auto simp: through_def takeWhile_append split: if_splits)

lemma through_Cons: "through c (x # ys) = (if x = c then Some 1 else map_option Suc (through c ys))"
  by (auto simp: through_def)

lemma file_line_0 [simp]: "file_line 0 xs = []"
  by (simp add: file_line_def through_def)

lemma file_line_found: "through 10 (take k xs) = Some l \<Longrightarrow> k \<le> n \<Longrightarrow> file_line n xs = take l xs"
proof -
  assume a: "through 10 (take k xs) = Some l" "k \<le> n"
  have "take n xs = take k xs @ take (n - k) (drop k xs)" using a(2) by (metis le_add_diff_inverse take_add)
  then show ?thesis by (simp add: file_line_def through_append a(1))
qed

lemma file_line_none: "through 10 (take k xs) = None \<Longrightarrow> k \<le> n \<Longrightarrow> k \<le> length xs \<Longrightarrow> file_line n xs = take k xs @ file_line (n - k) (drop k xs)"
proof -
  assume a: "through 10 (take k xs) = None" "k \<le> n" "k \<le> length xs"
  have "take n xs = take k xs @ take (n - k) (drop k xs)" using a(2) by (metis le_add_diff_inverse take_add)
  then show ?thesis using a(3) by (auto simp: file_line_def through_append a(1) take_add min_def split: option.splits)
qed

lemma file_line_Cons: "file_line (Suc n) (x # xs) = x # (if x = 10 then [] else file_line n xs)"
  by (auto simp: file_line_def through_Cons split: option.splits)

lemma file_line_Nil [simp]: "file_line n [] = []"
  by (simp add: file_line_def through_def)


lemma fgets_loop_ok:
  assumes D: "dos_files D content" and buf: "buf \<noteq> NULL"
  shows "streams content F A s \<Longrightarrow> A i = (c, q) \<Longrightarrow> in_use s i \<Longrightarrow> iob_BufferWriteBytes (iob_table s ! i) = 0 \<Longrightarrow>
    IOBF_ERROR \<notin> iob_Flags (iob_table s ! i) \<Longrightarrow> buf \<le> p \<Longrightarrow> region (ram s) p (Suc n) \<Longrightarrow>
    \<exists>s'. fgets_loop D i buf p n s = Some (if p = buf \<and> 0 < n \<and> drop q c = [] then NULL else buf, s') \<and>
      ram s' = put (ram s) p (file_line n (drop q c) @ [0]) \<and>
      streams content F (A(i := (c, q + length (file_line n (drop q c))))) s' \<and> steady_mem s s'"
proof (induction n arbitrary: A q s p rule: less_induct)
  case (less n)
  note S = less.prems(1) and a = less.prems(2) and u = less.prems(3) and w = less.prems(4) and e = less.prems(5) and p = less.prems(6,7)
  have rg0: "region (ram s) (p + k) (length [0 :: byte])" if "k \<le> n" for k
    using p(2) that region_append [of "ram s" p k "Suc n - k"] region_mono [of "ram s" "p + k" "Suc n - k" 1] by simp
  show ?case
  proof (cases "n = 0")
    case True
    have rg: "region (ram s) p (length [0 :: byte])" using rg0 [of 0] by simp
    note st = store_bytes_ok [OF S rg]
    show ?thesis using True st a by (subst fgets_loop.simps) (simp add: fun_upd_idem)
  next
    case n: False
    define k0 where "k0 = min (unread i s) n"
    have k0: "k0 \<le> unread i s" "k0 \<le> n" by (simp_all add: k0_def)
    have unr: "take k0 (drop (iob_BufferPosition (iob_table s ! i)) (iob_Buffer (iob_table s ! i))) = take k0 (drop q c)" "k0 \<le> length (drop q c)"
      by (rule unread_ok [OF D S a u w k0(1)])+
    define lf where "lf = through 10 (take k0 (drop q c))"
    define k where "k = (case lf of Some l \<Rightarrow> l | None \<Rightarrow> k0)"
    have k: "k \<le> k0" using through_bound [of 10 "take k0 (drop q c)"] unr(2) by (auto simp: k_def lf_def split: option.splits)
    have kn: "k \<le> n" using k k0(2) by simp
    obtain s1 s2 where t: "buffer_take i k s = Some (take k (drop q c), s1)" "store_bytes p (take k (drop q c)) s1 = Some s2"
      "streams content F (A(i := (c, q + k))) s2" "steady_mem s s2" "iob_BufferWriteBytes (iob_table s2 ! i) = 0"
      "ram s2 = put (ram s) p (take k (drop q c))" "length (take k (drop q c)) = k"
      by (rule take_store [OF D S a u w order_trans [OF k k0(1)] region_mono [OF p(2), of k]]) (use kn in simp)
    have u2: "in_use s2 i" using steady_mem_in_use [OF t(4)] u by simp
    have a2: "(A(i := (c, q + k))) i = (c, q + k)" by simp
    have code: "fgets_loop D i buf p n s = (if lf \<noteq> None \<or> k = n then do { s \<leftarrow> store_bytes (p + k) [0] s2; Some (buf, s) }
        else do {
          (c, s) \<leftarrow> getc D i s2;
          if c = EOF then do {
            file \<leftarrow> at (iob_table s) i;
            s \<leftarrow> store_bytes (p + k) [0] s;
            Some (if IOBF_ERROR \<in> iob_Flags file \<or> buf = p + k then NULL else buf, s) }
          else do {
            s \<leftarrow> store_bytes (p + k) [word_of_int c] s;
            if c = 10 then do { s \<leftarrow> store_bytes (p + k + 1) [0] s; Some (buf, s) }
            else fgets_loop D i buf (p + k + 1) (n - k - 1) s } })"
      unfolding fgets_loop.simps [of D i buf p n s] if_not_P [OF n] in_use_at [OF u] bind.bind_lunit Let_def
        chunk_min k0_def [symmetric] unr(1) lf_def [symmetric] k_def [symmetric] t(1) prod.case t(2) ..
    have rg2: "region (ram s2) (p + k) (length [0 :: byte])" using rg0 [OF kn] by (simp add: t(6))
    consider "lf \<noteq> None \<or> k = n" | "lf = None" "k < n" "drop (q + k) c = []" | x ys where "lf = None" "k < n" "drop (q + k) c = x # ys"
      using kn by (metis le_neq_implies_less list.exhaust)
    then show ?thesis
    proof cases
      case 1
      have l: "file_line n (drop q c) = take k (drop q c)"
        using 1 file_line_found [of k0 "drop q c" k n] file_line_none [of k "drop q c" n] k0(2) unr(2)
        by (auto simp: k_def lf_def split: option.splits)
      have ne: "\<not> (p = buf \<and> 0 < n \<and> drop q c = [])" using 1 n t(7) through_bound [of 10 "[]"]
        by (auto simp: k_def lf_def through_def)
      note st = store_bytes_ok [OF t(3) rg2]
      show ?thesis unfolding code if_P [OF 1] if_not_P [OF ne] l st(1) bind.bind_lunit t(7)
        put_append t(6) [symmetric] using st(2) steady_mem_trans [OF t(4) st(3)] by fastforce
    next
      case 2
      have l: "file_line n (drop q c) = take k (drop q c)"
        using file_line_none [of k "drop q c" n] 2 k0(2) unr(2) by (simp add: k_def lf_def add.commute)
      obtain s3 where g: "getc D i s2 = Some (EOF, s3)" "streams content F (A(i := (c, q + k))) s3" "steady_mem s2 s3" "ram s3 = ram s2"
        by (rule get_end [OF D t(3) a2 u2 t(5) 2(3)])
      have sm3: "steady_mem s s3" by (rule steady_mem_trans [OF t(4) g(3)])
      have u3: "in_use s3 i" using steady_mem_in_use [OF sm3] u by simp
      have e3: "IOBF_ERROR \<notin> iob_Flags (iob_table s3 ! i)" using steady_mem_flag [OF sm3 in_use_less [OF u]] e by simp
      note st = store_bytes_ok [OF g(2) rg2 [folded g(4)]]
      have v: "buf = p + k \<longleftrightarrow> p = buf \<and> 0 < n \<and> drop q c = []" using p(1) 2(3) t(7) n by auto
      have "fgets_loop D i buf p n s = Some (if p = buf \<and> 0 < n \<and> drop q c = [] then NULL else buf, s3\<lparr>ram := put (ram s3) (p + k) [0]\<rparr>)"
        unfolding v [symmetric] code using 2 g(1) e3 st(1) in_use_at [OF u3] by simp
      moreover have "put (ram s3) (p + k) [0] = put (ram s) p (file_line n (drop q c) @ [0])" unfolding l put_append t(7) g(4) t(6) ..
      ultimately show ?thesis unfolding l t(7) using st(2) steady_mem_trans [OF sm3 st(3)] by fastforce
    next
      case (3 x ys)
      have l: "file_line n (drop q c) = take k (drop q c) @ x # (if x = 10 then [] else file_line (n - k - 1) ys)"
      proof -
        have "file_line n (drop q c) = take k (drop q c) @ file_line (Suc (n - k - 1)) (x # ys)"
          using file_line_none [of k "drop q c" n] 3 k0(2) unr(2) by (simp add: k_def lf_def add.commute Suc_diff_Suc)
        then show ?thesis unfolding file_line_Cons .
      qed
      have rg: "region (ram s2) (p + k) 1" "region (ram s2) (p + k + 1) (Suc (n - k - 1))"
        using region_split [OF p(2), of k] 3(2) by (simp_all add: t(6) Suc_diff_Suc)
      obtain s3 s4 where g: "getc D i s2 = Some (uint x, s3)" "store_bytes (p + k) [x] s3 = Some s4"
        "streams content F (A(i := (c, q + k), i := (c, q + k + 1))) s4" "steady_mem s2 s4" "iob_BufferWriteBytes (iob_table s4 ! i) = 0"
        "ram s4 = put (ram s2) (p + k) [x]" by (rule get_store [OF D t(3) a2 u2 t(5) 3(3) rg(1)])
      have sm4: "steady_mem s s4" using t(4) g(4) steady_mem_trans by blast
      have S4: "streams content F (A(i := (c, q + k + 1))) s4" using g(3) by simp
      have rg4: "region (ram s4) (p + k + 1) (Suc (n - k - 1))" using rg(2) by (simp add: g(6))
      have x: "uint x \<noteq> EOF" "uint x = 10 \<longleftrightarrow> x = 10" using uint_ge_0 [of x] by (linarith, simp add: word_uint_eq_iff)
      have ne: "\<not> (p = buf \<and> 0 < n \<and> drop q c = [])" using 3(3) by auto
      have code': "fgets_loop D i buf p n s = (if x = 10 then do { s \<leftarrow> store_bytes (p + k + 1) [0] s4; Some (buf, s) }
            else fgets_loop D i buf (p + k + 1) (n - k - 1) s4)"
        unfolding code using 3(1,2) g(1,2) x by simp
      show ?thesis
      proof (cases "x = 10")
        case True
        have rg1: "region (ram s4) (p + k + 1) (length [0 :: byte])" using region_mono [OF rg4, of 1] by simp
        define s5 where "s5 = s4\<lparr>ram := put (ram s4) (p + k + 1) [0]\<rparr>"
        note st = store_bytes_ok [OF S4 rg1, folded s5_def]
        have "fgets_loop D i buf p n s = Some (buf, s5)" using code' True st(1) by simp
        moreover have "ram s5 = put (ram s) p ((take k (drop q c) @ [x]) @ [0])"
          unfolding put_append length_append t(7) by (simp add: s5_def g(6) t(6))
        moreover have len: "q + length (take k (drop q c) @ [x]) = q + k + 1" using t(7) by simp
        ultimately show ?thesis unfolding l if_P [OF True] if_not_P [OF ne] len using st(2) steady_mem_trans [OF sm4 st(3)] by blast
      next
        case False
        have lt: "n - k - 1 < n" and a4: "(A(i := (c, q + k + 1))) i = (c, q + k + 1)" and u4: "in_use s4 i"
          and e4: "IOBF_ERROR \<notin> iob_Flags (iob_table s4 ! i)" and p4: "buf \<le> p + k + 1"
          using 3(2) steady_mem_in_use [OF sm4] u steady_mem_flag [OF sm4 in_use_less [OF u]] e p(1) by simp_all
        have ys: "drop (q + k + 1) c = ys" using arg_cong [OF 3(3), of "drop 1"] by (simp add: add.commute)
        have nb: "\<not> (p + k + 1 = buf \<and> 0 < n - k - 1 \<and> ys = [])" using p(1) by simp
        obtain s' where s': "fgets_loop D i buf (p + k + 1) (n - k - 1) s4 = Some (buf, s')"
          "ram s' = put (ram s4) (p + k + 1) (file_line (n - k - 1) ys @ [0])"
          "streams content F (A(i := (c, q + k + 1 + length (file_line (n - k - 1) ys)))) s'" "steady_mem s4 s'"
          using less.IH [OF lt S4 a4 u4 g(5) e4 p4 rg4] unfolding ys fun_upd_upd if_not_P [OF nb] by blast
        have "ram s' = put (ram s) p ((take k (drop q c) @ x # file_line (n - k - 1) ys) @ [0])"
          unfolding append_assoc append_Cons put_append t(7) s'(2) g(6) t(6) by (simp add: put_append)
        moreover have len: "q + length (take k (drop q c) @ x # file_line (n - k - 1) ys) = q + k + 1 + length (file_line (n - k - 1) ys)"
          using t(7) by simp
        ultimately show ?thesis unfolding l code' if_not_P [OF False] if_not_P [OF ne] len
          using s'(1,3) steady_mem_trans [OF sm4 s'(4)] by blast
      qed
    qed
  qed
qed


lemma fgets_ok:
  assumes D: "dos_files D content" and S: "streams content F A s" and u: "in_use s i" and r: "IOBF_READ \<in> iob_Flags (iob_table s ! i)"
    and e: "IOBF_ERROR \<notin> iob_Flags (iob_table s ! i)" and n: "0 < n" and buf: "buf \<noteq> NULL" "region (ram s) buf n"
  obtains s' where "fgets D buf (int n) (Some i) s = Some (if 1 < n \<and> file_rest (A i) = [] then NULL else buf, s')"
    "ram s' = put (ram s) buf (file_line (n - 1) (file_rest (A i)) @ [0])"
    "streams content F (A(i := (fst (A i), snd (A i) + length (file_line (n - 1) (file_rest (A i)))))) s'" "steady_mem s s'"
proof -
  have i: "i < length (iob_table s)" using u by (simp add: in_use_def)
  obtain s1 where s1: "fgetc_check D i s = Some (OK, s1)" "streams content F A s1" "steady s s1" "iob_BufferWriteBytes (iob_table s1 ! i) = 0"
    by (rule fgetc_check_ok [OF D S u r])
  have u1: "in_use s1 i" using steady_in_use [OF s1(3)] u by simp
  have e1: "IOBF_ERROR \<notin> iob_Flags (iob_table s1 ! i)" using steady_flag [OF s1(3) i, of IOBF_ERROR] e by simp
  obtain s2 where s2: "clearerr (Some i) s1 = Some s2" "streams content F A s2" "steady s1 s2"
    "iob_BufferWriteBytes (iob_table s2 ! i) = iob_BufferWriteBytes (iob_table s1 ! i)" "ram s2 = ram s1"
    by (rule clearerr_ok [OF s1(2) u1 e1])
  have st: "steady s s2" using s1(3) s2(3) steady_trans by blast
  have u2: "in_use s2 i" using steady_in_use [OF st] u by simp
  have e2: "IOBF_ERROR \<notin> iob_Flags (iob_table s2 ! i)" using steady_flag [OF st i, of IOBF_ERROR] e by simp
  have w2: "iob_BufferWriteBytes (iob_table s2 ! i) = 0" using s2(4) s1(4) by simp
  have ram2: "ram s2 = ram s" using st by (simp add: steady_def same_rest_def)
  have rg: "region (ram s2) buf (Suc (n - 1))" using buf(2) n ram2 by simp
  have n1: "0 < n - 1 \<longleftrightarrow> 1 < n" by auto
  obtain s3 where s3: "fgets_loop D i buf buf (n - 1) s2 = Some (if 1 < n \<and> file_rest (A i) = [] then NULL else buf, s3)"
    "ram s3 = put (ram s2) buf (file_line (n - 1) (file_rest (A i)) @ [0])"
    "streams content F (A(i := (fst (A i), snd (A i) + length (file_line (n - 1) (file_rest (A i)))))) s3" "steady_mem s2 s3"
    using fgets_loop_ok [OF D buf(1) s2(2) surjective_pairing u2 w2 e2 order_refl rg] unfolding file_rest_def n1 simp_thms by blast
  have "fgets D buf (int n) (Some i) s = fgets_loop D i buf buf (n - 1) s2"
    using buf(1) n s1(1) s2(1) by (simp add: fgets_def)
  then show thesis using that s3 steady_mem_trans [OF steady_steady_mem [OF st] s3(4)] unfolding ram2 by simp
qed

end
