(* ===== verification/StdioWrite.thy ===== *)
theory StdioWrite
  imports StdioBlocks
begin

text \<open>
  The writing of blocks, \<open>fwrite\<close> and \<open>fputs\<close> (stdio/fwrite.c, stdio/fputs.c), on ordinary files. The four loops
  share the locales \<open>block_loop\<close> and \<open>char_loop\<close>: the loop of \<open>fwrite\<close> for fully buffered streams is a \<open>block_loop\<close>
  only, since its single character is not taken off the number of bytes to write.
\<close>

section \<open>Writing blocks\<close>

lemma write_bypass_ok:
  assumes D: "dos_files D content" and S: "streams content F A s" and u: "in_use s i"
    and e: "iob_BufferWriteBytes (iob_table s ! i) = 0" "iob_BufferReadBytes (iob_table s ! i) = 0"
    and fl: "FDF_WRITE \<in> fd_Flags (fd_table s ! F i)" and n: "0 < n" and p: "p \<noteq> NULL" "region (ram s) p n"
  obtains s' where "write_r D (iob_Descriptor (iob_table s ! i)) p n s = Some (int n, s')"
    "streams content F (A(i := file_write (slice (ram s) p n) (A i))) s'" "steady s s'" "iob_table s' = iob_table s"
proof -
  let ?file = "iob_table s ! i"
  let ?xs = "slice (ram s) p n"
  obtain c q where f: "fd_ok content s (F i) c q" and b: "buffer_ok ?file c q" and a: "A i = view ?file c q"
    and i: "i < length (iob_table s)" "IOBF_IN_USE \<in> iob_Flags ?file" by (rule streamsD [OF S u])
  have g: "get_file_descriptor True (iob_Descriptor ?file) s = Some (F i)" using S u by (simp add: streams_def stream_ok_def)
  have A: "A i = (c, q)" using e by (simp add: a view_def)
  obtain s1 where h: "fd_hook_entry D (F i) (Action_write ?xs) s = Some (int (length ?xs), [], OK, s1)"
    and m: "moved content (F i) (overlay c q ?xs) (q + length ?xs) s s1" by (rule hook_write_ok [OF D f])
  have l: "length ?xs = n" by (rule length_slice [OF p(2)])
  have ok: "buffer_ok ?file (overlay c q ?xs) (q + length ?xs)" using b e by (simp add: buffer_ok_def)
  have "streams content F (A(i := view ?file (overlay c q ?xs) (q + length ?xs))) (set_iob i ?file s1)"
    by (rule streams_update [OF S u m _ _ ok]) (use i in simp_all)
  moreover have "set_iob i ?file s1 = s1" using moved_rest(2) [OF m] by (simp add: set_iob_def)
  moreover have "view ?file (overlay c q ?xs) (q + length ?xs) = file_write ?xs (A i)" using e by (simp add: view_def A file_write_def)
  ultimately have "streams content F (A(i := file_write ?xs (A i))) s1" by simp
  moreover have "steady s s1" using moved_rest(1,2) [OF m] by (simp add: steady_def)
  moreover have "write_r D (iob_Descriptor ?file) p n s = Some (int n, s1)"
    using p n fl g h l plain_fdD(1,6) [OF fd_okD(3) [OF f]] fd_okD(1) [OF f] by (simp add: write_r_def load_bytes_def)
  ultimately show thesis using that moved_rest(2) [OF m] by blast
qed

lemma slice_take: "k \<le> n \<Longrightarrow> take k (slice m a n) = slice m a k"
  by (simp add: slice_def min_def)

text \<open>A block of data goes to the file; the single character is only for a buffer that was full at the start.\<close>

lemma write_block_ok:
  assumes D: "dos_files D content" and S: "streams content F A s" and u: "in_use s i" and r: "iob_BufferReadBytes (iob_table s ! i) = 0"
    and p: "region (ram s) p sz" and n: "0 < sz"
  obtains b n s' where "write_block D i line p sz s = Some (b, n, s')" "b \<noteq> Failed" "n \<le> sz"
    "streams content F (A(i := file_write (slice (ram s) p n) (A i))) s'" "steady s s'" "iob_BufferReadBytes (iob_table s' ! i) = 0"
    "b = Finished \<longleftrightarrow> n = sz" "b = Again \<longrightarrow> 0 < n \<and> iob_BufferWriteBytes (iob_table s' ! i) < iob_BufferSize (iob_table s' ! i)"
    "b = Single \<longrightarrow> n = 0 \<and> s' = s \<and> iob_BufferSize (iob_table s ! i) \<le> iob_BufferWriteBytes (iob_table s ! i)"
proof (cases "iob_BufferWriteBytes (iob_table s ! i) < iob_BufferSize (iob_table s ! i)")
  case False
  then have "write_block D i line p sz s = Some (Single, 0, s)" by (simp add: write_block_def in_use_at [OF u])
  then show thesis by (rule that [of Single 0 s]) (use S r n False in simp_all)
next
  case True
  let ?file = "iob_table s ! i"
  define k where "k = min (iob_BufferSize ?file - iob_BufferWriteBytes ?file) sz"
  have rk: "region (ram s) p k" by (rule region_mono [OF p]) (simp add: k_def)
  define lf where "lf = (if line then through 10 (slice (ram s) p k) else None)"
  define m where "m = (case lf of None \<Rightarrow> k | Some l \<Rightarrow> l)"
  have k0: "0 < k" using True n by (simp add: k_def)
  have lf0: "0 < l \<and> l \<le> k" if "lf = Some l" for l
    using through_bound [of 10 "slice (ram s) p k" l] that length_slice [OF rk] by (simp add: lf_def split: if_splits)
  have m: "0 < m" "m \<le> k" using k0 lf0 by (simp_all add: m_def split: option.splits)
  have xs: "(case lf of None \<Rightarrow> slice (ram s) p k | Some l \<Rightarrow> take l (slice (ram s) p k)) = slice (ram s) p m"
    using m(2) by (auto simp: m_def slice_take split: option.splits)
  have lm: "length (slice (ram s) p m) = m" by (rule length_slice) (rule region_mono [OF rk m(2)])
  have room: "iob_BufferWriteBytes ?file + length (slice (ram s) p m) \<le> iob_BufferSize ?file"
    unfolding lm using order_trans [OF m(2) [unfolded k_def] min.cobounded1] True by linarith
  obtain s1 where s1: "buffer_append i (slice (ram s) p m) s = Some s1" "streams content F (A(i := file_write (slice (ram s) p m) (A i))) s1"
    "steady s s1" "iob_BufferReadBytes (iob_table s1 ! i) = 0"
    "iob_BufferWriteBytes (iob_table s1 ! i) = iob_BufferWriteBytes ?file + length (slice (ram s) p m)"
    by (rule buffer_append_ok [OF D S u r room])
  have u1: "in_use s1 i" using steady_in_use [OF s1(3)] u by simp
  have i1: "i < length (iob_table s1)" using u1 by (simp add: in_use_def)
  have z1: "iob_BufferSize (iob_table s1 ! i) = iob_BufferSize ?file" by (rule steady_fixed(2) [OF s1(3) in_use_less [OF u]])
  obtain s2 where s2: "(if lf \<noteq> None \<or> iob_write_buffer_is_full (iob_table s1 ! i) then flush_iob_write_buffer D i s1 else Some (OK, s1)) = Some (OK, s2)"
    "streams content F (A(i := file_write (slice (ram s) p m) (A i))) s2" "steady s1 s2" "iob_BufferReadBytes (iob_table s2 ! i) = 0"
    "iob_BufferWriteBytes (iob_table s2 ! i) < iob_BufferSize (iob_table s2 ! i)"
  proof (cases "lf \<noteq> None \<or> iob_write_buffer_is_full (iob_table s1 ! i)")
    case T: True
    obtain s2 where f: "flush_iob_write_buffer D i s1 = Some (OK, s2)" "streams content F (A(i := file_write (slice (ram s) p m) (A i))) s2"
      "same_rest s1 s2" "iob_table s2 = (iob_table s1)[i := (iob_table s1 ! i)\<lparr>iob_BufferWriteBytes := 0\<rparr>]"
      by (rule flush_ok [OF D s1(2) u1])
    show thesis by (rule that [of s2]) (use T f(1,2) steady_flush [OF f(3,4) i1] i1 s1(4) z1 True in \<open>simp_all add: f(4)\<close>)
  next
    case N: False
    then have "iob_BufferWriteBytes (iob_table s1 ! i) < iob_BufferSize (iob_table s1 ! i)"
      using room s1(5) z1 True by (auto simp: iob_write_buffer_is_full_def)
    then show thesis using that [of s1] N s1(2,4) by simp
  qed
  have u2: "in_use s2 i" using steady_in_use [OF s2(3)] u1 by simp
  have st: "steady s s2" using s1(3) s2(3) steady_trans by blast
  have ld: "load_bytes p k s = Some (slice (ram s) p k)" using rk by (simp add: load_bytes_def)
  have code: "write_block D i line p sz s = Some (if sz = m then Finished else Again, m, s2)"
    unfolding write_block_def in_use_at [OF u] bind.bind_lunit if_P [OF True] k_def [symmetric] ld Let_def lf_def [symmetric] xs s1(1)
      in_use_at [OF u1] s2(1) prod.case lm
    using s2(5) by (simp add: in_use_at [OF u2])
  show thesis
    by (rule that [OF code _ _ s2(2) st s2(4)]) (use m s2(5) in \<open>auto simp: k_def\<close>)
qed

text \<open>Data in two parts.\<close>

lemma file_write_slice:
  assumes D: "dos_files D content" and S: "streams content F A s" and u: "in_use s i" and n: "n \<le> sz"
  shows "file_write (slice m (p + n) (sz - n)) (file_write (slice m p n) (A i)) = file_write (slice m p sz) (A i)"
proof -
  have "slice m p n @ slice m (p + n) (sz - n) = slice m p sz" using n slice_append [of m p n "sz - n"] by simp
  then show ?thesis using file_write_append [OF stream_bound [OF D S u]] by simp
qed


section \<open>The loops\<close>

locale block_loop =
  fixes D :: "'d dos" and i :: nat and line :: bool
    and loop :: "addr \<Rightarrow> nat \<Rightarrow> nat \<Rightarrow> 'd stdio \<Rightarrow> ('r \<times> 'd stdio) option" and result :: "nat \<Rightarrow> 'r"
  assumes direct: "\<lbrakk>\<not> line; 0 < n; i < length (iob_table s); iob_BufferWriteBytes (iob_table s ! i) = 0; iob_BufferSize (iob_table s ! i) \<le> n;
      write_r D (iob_Descriptor (iob_table s ! i)) p n s = Some (int n, s')\<rbrakk> \<Longrightarrow> loop p n w s = Some (result (w + n), s')"
    and finish: "\<lbrakk>0 < n; i < length (iob_table s); line \<or> \<not> (iob_BufferWriteBytes (iob_table s ! i) = 0 \<and> iob_BufferSize (iob_table s ! i) \<le> n);
      write_block D i line p n s = Some (Finished, k, s')\<rbrakk> \<Longrightarrow> loop p n w s = Some (result (w + k), s')"
    and again: "\<lbrakk>0 < n; i < length (iob_table s); line \<or> \<not> (iob_BufferWriteBytes (iob_table s ! i) = 0 \<and> iob_BufferSize (iob_table s ! i) \<le> n);
      write_block D i line p n s = Some (Again, k, s')\<rbrakk> \<Longrightarrow> loop p n w s = loop (p + k) (n - k) (w + k) s'"
begin

lemma loop_ok:
  assumes D: "dos_files D content" and S: "streams content F A s" and u: "in_use s i" and r: "iob_BufferReadBytes (iob_table s ! i) = 0"
    and fl: "FDF_WRITE \<in> fd_Flags (fd_table s ! F i)" and p: "p \<noteq> NULL" "region (ram s) p n" and n: "0 < n"
    and W: "iob_BufferWriteBytes (iob_table s ! i) < iob_BufferSize (iob_table s ! i)"
  shows "\<exists>s'. loop p n w s = Some (result (w + n), s') \<and> streams content F (A(i := file_write (slice (ram s) p n) (A i))) s' \<and> steady s s'"
  using S u r fl p n W
proof (induction n arbitrary: A p w s rule: less_induct)
  case (less n)
  note S = less.prems(1) and u = less.prems(2) and r = less.prems(3) and fl = less.prems(4) and p = less.prems(5,6) and n = less.prems(7)
  have i: "i < length (iob_table s)" using u by (simp add: in_use_def)
  obtain c q where f: "fd_ok content s (F i) c q" by (rule streamsD [OF S u])
  show ?case
  proof (cases "\<not> line \<and> iob_BufferWriteBytes (iob_table s ! i) = 0 \<and> iob_BufferSize (iob_table s ! i) \<le> n")
    case True
    obtain s' where s': "write_r D (iob_Descriptor (iob_table s ! i)) p n s = Some (int n, s')"
      "streams content F (A(i := file_write (slice (ram s) p n) (A i))) s'" "steady s s'"
      by (rule write_bypass_ok [OF D S u conjunct1 [OF conjunct2 [OF True]] r fl n p])
    then show ?thesis using direct [OF _ n i _ _ s'(1)] True by blast
  next
    case False
    then have nb: "line \<or> \<not> (iob_BufferWriteBytes (iob_table s ! i) = 0 \<and> iob_BufferSize (iob_table s ! i) \<le> n)" by blast
    obtain b k s1 where s1: "write_block D i line p n s = Some (b, k, s1)" "b \<noteq> Failed" "k \<le> n"
      "streams content F (A(i := file_write (slice (ram s) p k) (A i))) s1" "steady s s1" "iob_BufferReadBytes (iob_table s1 ! i) = 0"
      "b = Finished \<longleftrightarrow> k = n" "b = Again \<longrightarrow> 0 < k \<and> iob_BufferWriteBytes (iob_table s1 ! i) < iob_BufferSize (iob_table s1 ! i)"
      "b = Single \<longrightarrow> k = 0 \<and> s1 = s \<and> iob_BufferSize (iob_table s ! i) \<le> iob_BufferWriteBytes (iob_table s ! i)"
      by (rule write_block_ok [OF D S u r p(2) n, of line])
    show ?thesis
    proof (cases b)
      case Failed then show ?thesis using s1(2) by simp
    next
      case Finished then show ?thesis using finish [OF n i nb s1(1) [unfolded Finished]] s1(4,5,7) by blast
    next
      case Single then show ?thesis using s1(9) less.prems(8) by simp
    next
      case Again
      have k: "0 < k" "k < n" "iob_BufferWriteBytes (iob_table s1 ! i) < iob_BufferSize (iob_table s1 ! i)"
        using s1(3,7,8) Again by auto
      let ?A = "A(i := file_write (slice (ram s) p k) (A i))"
      have u1: "in_use s1 i" using steady_in_use [OF s1(5)] u by simp
      have m1: "ram s1 = ram s" using s1(5) by (simp add: steady_def same_rest_def)
      have fl1: "FDF_WRITE \<in> fd_Flags (fd_table s1 ! F i)"
        using steady_mem_fd_flags [OF steady_steady_mem [OF s1(5)], of "F i"] fl fd_okD(2) [OF f] by simp
      have p1: "p + k \<noteq> NULL" "region (ram s1) (p + k) (n - k)"
        unfolding m1 using p region_append [of "ram s" p k "n - k"] k(2) by simp_all
      have "\<exists>s'. loop (p + k) (n - k) (w + k) s1 = Some (result (w + k + (n - k)), s') \<and>
          streams content F (?A(i := file_write (slice (ram s1) (p + k) (n - k)) (?A i))) s' \<and> steady s1 s'"
        by (rule less.IH [OF _ s1(4) u1 s1(6) fl1 p1 _ k(3)]) (use k in simp_all)
      then obtain s' where s': "loop (p + k) (n - k) (w + k) s1 = Some (result (w + k + (n - k)), s')"
        "streams content F (?A(i := file_write (slice (ram s1) (p + k) (n - k)) (?A i))) s'" "steady s1 s'" by blast
      have "?A(i := file_write (slice (ram s1) (p + k) (n - k)) (?A i)) = A(i := file_write (slice (ram s) p n) (A i))"
        unfolding m1 fun_upd_same fun_upd_upd file_write_slice [OF D S u s1(3)] ..
      moreover have "loop p n w s = Some (result (w + n), s')"
        using again [OF n i nb s1(1) [unfolded Again]] s'(1) k(2) by simp
      ultimately show ?thesis using s'(2,3) steady_trans [OF s1(5)] by metis
    qed
  qed
qed

end


locale char_loop = block_loop +
  assumes stop: "loop p 0 w s = Some (result w, s)"
    and single: "\<lbrakk>0 < n; i < length (iob_table s); line \<or> \<not> (iob_BufferWriteBytes (iob_table s ! i) = 0 \<and> iob_BufferSize (iob_table s ! i) \<le> n);
      iob_BufferSize (iob_table s ! i) \<le> iob_BufferWriteBytes (iob_table s ! i); load (ram s) p = Some c;
      fputc_raw D (uint c) i (if line then IOBF_BUFFER_MODE_LINE else IOBF_BUFFER_MODE_FULL) s = Some (r, s'); r \<noteq> EOF\<rbrakk>
      \<Longrightarrow> loop p n w s = loop (p + 1) (n - 1) (w + 1) s'"
begin

lemma full_loop_ok:
  assumes D: "dos_files D content" and S: "streams content F A s" and u: "in_use s i" and r: "iob_BufferReadBytes (iob_table s ! i) = 0"
    and fl: "FDF_WRITE \<in> fd_Flags (fd_table s ! F i)" and p: "p \<noteq> NULL" "region (ram s) p n"
  shows "\<exists>s'. loop p n w s = Some (result (w + n), s') \<and> streams content F (A(i := file_write (slice (ram s) p n) (A i))) s' \<and> steady s s'"
  using S u r fl p
proof (induction n arbitrary: A p w s)
  case 0
  then show ?case using stop [of p w s] by simp
next
  case (Suc n)
  note S = Suc.prems(1) and u = Suc.prems(2) and r = Suc.prems(3) and fl = Suc.prems(4) and p = Suc.prems(5,6)
  have i: "i < length (iob_table s)" using u by (simp add: in_use_def)
  show ?case
  proof (cases "iob_BufferWriteBytes (iob_table s ! i) < iob_BufferSize (iob_table s ! i)")
    case True
    show ?thesis by (rule loop_ok [OF D S u r fl p _ True]) simp
  next
    case False
    obtain c q where f: "fd_ok content s (F i) c q" and b: "buffer_ok (iob_table s ! i) c q" by (rule streamsD [OF S u])
    have nb: "line \<or> \<not> (iob_BufferWriteBytes (iob_table s ! i) = 0 \<and> iob_BufferSize (iob_table s ! i) \<le> Suc n)"
      using False b by (auto simp: buffer_ok_def)
    define x where "x = ram s ! p"
    have x: "load (ram s) p = Some x" "slice (ram s) p 1 = [x]" "region (ram s) (p + 1) n"
      using p(2) by (simp_all add: region_Suc load_Some_mapped x_def slice_Suc)
    obtain s1 where s1: "fputc_raw D (uint x) i (if line then IOBF_BUFFER_MODE_LINE else IOBF_BUFFER_MODE_FULL) s = Some (uint x mod 256, s1)"
      "streams content F (A(i := file_write [word_of_int (uint x)] (A i))) s1" "steady s s1" "iob_BufferReadBytes (iob_table s1 ! i) = 0"
      by (rule fputc_raw_ok [OF D S u r, of "uint x" "if line then IOBF_BUFFER_MODE_LINE else IOBF_BUFFER_MODE_FULL"])
    let ?A = "A(i := file_write (slice (ram s) p 1) (A i))"
    have S1: "streams content F ?A s1" using s1(2) by (simp add: x(2) del: One_nat_def)
    have u1: "in_use s1 i" using steady_in_use [OF s1(3)] u by simp
    have m1: "ram s1 = ram s" using s1(3) by (simp add: steady_def same_rest_def)
    have fl1: "FDF_WRITE \<in> fd_Flags (fd_table s1 ! F i)"
      using steady_mem_fd_flags [OF steady_steady_mem [OF s1(3)], of "F i"] fl fd_okD(2) [OF f] by simp
    have p1: "p + 1 \<noteq> NULL" "region (ram s1) (p + 1) n" unfolding m1 using x(3) by simp_all
    obtain s' where s': "loop (p + 1) n (w + 1) s1 = Some (result (w + 1 + n), s')"
      "streams content F (?A(i := file_write (slice (ram s1) (p + 1) n) (?A i))) s'" "steady s1 s'"
      using Suc.IH [OF S1 u1 s1(4) fl1 p1, of "w + 1"] by blast
    have "?A(i := file_write (slice (ram s1) (p + 1) n) (?A i)) = A(i := file_write (slice (ram s) p (Suc n)) (A i))"
      unfolding m1 fun_upd_same fun_upd_upd using file_write_slice [OF D S u, of 1 "Suc n" "ram s" p] by simp
    moreover have "0 \<le> uint x mod 256" by simp
    then have "uint x mod 256 \<noteq> EOF" by linarith
    then have "loop p (Suc n) w s = Some (result (w + Suc n), s')"
      using single [OF _ i nb _ x(1) s1(1)] s'(1) False by simp
    ultimately show ?thesis using s'(2,3) steady_trans [OF s1(3)] by metis
  qed
qed

end

lemma write_block_single:
  assumes "i < length (iob_table s)" "iob_BufferSize (iob_table s ! i) \<le> iob_BufferWriteBytes (iob_table s ! i)"
  shows "write_block D i line p n s = Some (Single, 0, s)"
    "putc_fully_buffered D c i s = fputc_raw D (uint c) i IOBF_BUFFER_MODE_FULL s"
    "putc_line_buffered D c i s = fputc_raw D (uint c) i IOBF_BUFFER_MODE_LINE s"
  using assms by (simp_all add: write_block_def putc_fully_buffered_def putc_line_buffered_def at_def)

interpretation fputs_line: char_loop D i True "\<lambda>p n w s. fputs_line_loop D i p n s" "\<lambda>_. True" for D i
  by unfold_locales (subst fputs_line_loop.simps; auto simp: at_def write_block_single)+

interpretation fputs_full: char_loop D i False "\<lambda>p n w s. fputs_full_loop D i p n s" "\<lambda>_. True" for D i
  by unfold_locales (subst fputs_full_loop.simps; auto simp: at_def write_block_single)+

interpretation fwrite_line: char_loop D i True "fwrite_line_loop D i" "\<lambda>w. w" for D i
  by unfold_locales (subst fwrite_line_loop.simps; auto simp: at_def write_block_single)+

interpretation fwrite_full: block_loop D i False "fwrite_full_loop D i" "\<lambda>w. Some w" for D i
  by unfold_locales (subst fwrite_full_loop.simps; auto simp: at_def)+


section \<open>fwrite and fputs\<close>

lemma effective_mode_ok:
  assumes S: "streams content F A s" and u: "in_use s i"
  obtains m where "effective_mode (iob_table s ! i) s = Some m"
    "m = iob_Mode (iob_table s ! i) \<or> iob_Mode (iob_table s ! i) = IOBF_BUFFER_MODE_NONE \<and> m = IOBF_BUFFER_MODE_LINE"
proof -
  have "get_file_descriptor True (iob_Descriptor (iob_table s ! i)) s = Some (F i)" using S u by (simp add: streams_def stream_ok_def)
  then have "\<not> (iob_Descriptor (iob_table s ! i) < 0 \<or> int (length (fd_table s)) \<le> iob_Descriptor (iob_table s ! i))"
    unfolding get_file_descriptor_def by (rule contrapos_pn) simp
  then have "at_int (fd_table s) (iob_Descriptor (iob_table s ! i)) = Some (fd_table s ! nat (iob_Descriptor (iob_table s ! i)))"
    by (simp add: at_int_def at_def nat_less_iff)
  then have "effective_mode (iob_table s ! i) s =
      Some (if iob_Mode (iob_table s ! i) = IOBF_BUFFER_MODE_NONE \<and>
               FDF_IS_INTERACTIVE \<in> fd_Flags (fd_table s ! nat (iob_Descriptor (iob_table s ! i)))
            then IOBF_BUFFER_MODE_LINE else iob_Mode (iob_table s ! i))"
    by (simp add: effective_mode_def)
  from that [OF this] show thesis by simp
qed

lemma fwrite_ok:
  assumes D: "dos_files D content" and S: "streams content F A s" and u: "in_use s i" and w: "IOBF_WRITE \<in> iob_Flags (iob_table s ! i)"
    and r: "iob_BufferReadBytes (iob_table s ! i) = 0" and fl: "FDF_WRITE \<in> fd_Flags (fd_table s ! F i)"
    and n: "0 < element_size" "0 < count" "element_size * count < 2 ^ 32" and p: "ptr \<noteq> NULL" "region (ram s) ptr (element_size * count)"
    and full: "iob_Mode (iob_table s ! i) = IOBF_BUFFER_MODE_FULL \<Longrightarrow> iob_BufferWriteBytes (iob_table s ! i) < iob_BufferSize (iob_table s ! i)"
    and none: "iob_Mode (iob_table s ! i) = IOBF_BUFFER_MODE_NONE \<Longrightarrow> iob_BufferWriteBytes (iob_table s ! i) = 0"
  obtains s' where "fwrite D ptr element_size count (Some i) s = Some (count, s')"
    "streams content F (A(i := file_write (slice (ram s) ptr (element_size * count)) (A i))) s'" "steady s s'"
proof -
  define sz where "sz = element_size * count"
  have z: "0 < sz" "sz mod 2 ^ 32 = sz" "sz div count = element_size" "sz div element_size = count" using n by (simp_all add: sz_def)
  obtain m where m: "effective_mode (iob_table s ! i) s = Some m"
    "m = iob_Mode (iob_table s ! i) \<or> iob_Mode (iob_table s ! i) = IOBF_BUFFER_MODE_NONE \<and> m = IOBF_BUFFER_MODE_LINE"
    by (rule effective_mode_ok [OF S u])
  have i: "at (iob_table s) i = Some (iob_table s ! i)" "IOBF_IN_USE \<in> iob_Flags (iob_table s ! i)"
    using u by (simp_all add: in_use_def at_def)
  note p' = p(2) [folded sz_def] and result = that [folded sz_def]
  have code: "fwrite D ptr element_size count (Some i) s = (case m of
      IOBF_BUFFER_MODE_LINE \<Rightarrow> do { (n, s) \<leftarrow> fwrite_line_loop D i ptr sz 0 s; Some (n div element_size, s) }
    | IOBF_BUFFER_MODE_NONE \<Rightarrow> do {
        (n, s) \<leftarrow> write_r D (iob_Descriptor (iob_table s ! i)) ptr sz s;
        if n = -1 then Some (0, set_iob_flag i IOBF_ERROR s)
        else do {
          file \<leftarrow> at (iob_table s) i;
          (_, s) \<leftarrow> (if iob_write_buffer_is_valid file then flush_iob_write_buffer D i s else Some (OK, s));
          Some (nat n div element_size, s) } }
    | IOBF_BUFFER_MODE_FULL \<Rightarrow> do {
        (n, s) \<leftarrow> fwrite_full_loop D i ptr sz 0 s;
        Some (case n of None \<Rightarrow> 0 | Some n \<Rightarrow> n div element_size, s) })"
    using i w p(1) n(1,2) z m(1) unfolding fwrite_def Let_def sz_def [symmetric] by (simp add: if_P)
  show thesis
  proof (cases m)
    case IOBF_BUFFER_MODE_LINE
    obtain s' where "fwrite_line_loop D i ptr sz 0 s = Some (0 + sz, s')"
      "streams content F (A(i := file_write (slice (ram s) ptr sz) (A i))) s'" "steady s s'"
      using fwrite_line.full_loop_ok [OF D S u r fl p(1) p', of 0] by blast
    then show thesis using result [of s'] code IOBF_BUFFER_MODE_LINE z(4) by simp
  next
    case IOBF_BUFFER_MODE_NONE
    have e: "iob_BufferWriteBytes (iob_table s ! i) = 0" using none m(2) IOBF_BUFFER_MODE_NONE by auto
    obtain s' where s': "write_r D (iob_Descriptor (iob_table s ! i)) ptr sz s = Some (int sz, s')"
      "streams content F (A(i := file_write (slice (ram s) ptr sz) (A i))) s'" "steady s s'" "iob_table s' = iob_table s"
      by (rule write_bypass_ok [OF D S u e r fl z(1) p(1) p'])
    show thesis by (rule result [of s']) (use code s' IOBF_BUFFER_MODE_NONE z(4) e i in \<open>simp_all add: iob_write_buffer_is_valid_def\<close>)
  next
    case IOBF_BUFFER_MODE_FULL
    have b: "iob_BufferWriteBytes (iob_table s ! i) < iob_BufferSize (iob_table s ! i)" using full m(2) IOBF_BUFFER_MODE_FULL by auto
    obtain s' where "fwrite_full_loop D i ptr sz 0 s = Some (Some (0 + sz), s')"
      "streams content F (A(i := file_write (slice (ram s) ptr sz) (A i))) s'" "steady s s'"
      using fwrite_full.loop_ok [OF D S u r fl p(1) p' z(1) b, of 0] by blast
    then show thesis using result [of s'] code IOBF_BUFFER_MODE_FULL z(4) by simp
  qed
qed


lemma fputs_body_ok:
  assumes D: "dos_files D content" and S: "streams content F A s" and u: "in_use s i" and w: "IOBF_WRITE \<in> iob_Flags (iob_table s ! i)"
    and fl: "FDF_WRITE \<in> fd_Flags (fd_table s ! F i)" and p: "p \<noteq> NULL" "cstr (ram s) p xs" "ram_ok (ram s)"
    and none: "iob_Mode (iob_table s ! i) = IOBF_BUFFER_MODE_NONE \<Longrightarrow> iob_BufferWriteBytes (iob_table s ! i) = 0"
  obtains s' where "fputs_body D i p s = Some (True, s')" "streams content F (A(i := file_write xs (A i))) s'" "steady s s'"
proof -
  have i: "i < length (iob_table s)" using u by (simp add: in_use_def)
  obtain c q where f: "fd_ok content s (F i) c q" by (rule streamsD [OF S u])
  obtain s1 where s1: "fputc_check D i s = Some (OK, s1)" "streams content F A s1" "steady s s1" "iob_BufferReadBytes (iob_table s1 ! i) = 0"
    "iob_BufferWriteBytes (iob_table s1 ! i) = iob_BufferWriteBytes (iob_table s ! i)"
    by (rule fputc_check_ok [OF D S u w])
  have u1: "in_use s1 i" using steady_in_use [OF s1(3)] u by simp
  have m1: "ram s1 = ram s" using s1(3) by (simp add: steady_def same_rest_def)
  have fl1: "FDF_WRITE \<in> fd_Flags (fd_table s1 ! F i)"
    using steady_mem_fd_flags [OF steady_steady_mem [OF s1(3)], of "F i"] fl fd_okD(2) [OF f] by simp
  have md: "iob_Mode (iob_table s1 ! i) = iob_Mode (iob_table s ! i)" by (rule steady_fixed(1) [OF s1(3) i])
  have len: "strlen (ram s1) p = Some (length xs)" using strlen_cstr [OF p(3,2)] m1 by simp
  have rg: "region (ram s1) p (length xs)" unfolding m1 by (rule region_mono [OF cstr_region [OF p(2)]]) simp
  have xs: "slice (ram s1) p (length xs) = xs"
    using cstr_slice [OF p(2)] slice_take [of "length xs" "Suc (length xs)" "ram s" p] m1 by simp
  obtain m where m: "effective_mode (iob_table s1 ! i) s1 = Some m"
    "m = iob_Mode (iob_table s1 ! i) \<or> iob_Mode (iob_table s1 ! i) = IOBF_BUFFER_MODE_NONE \<and> m = IOBF_BUFFER_MODE_LINE"
    by (rule effective_mode_ok [OF s1(2) u1])
  have code: "fputs_body D i p s = (if xs = [] then Some (True, s1) else case m of
      IOBF_BUFFER_MODE_LINE \<Rightarrow> fputs_line_loop D i p (length xs) s1
    | IOBF_BUFFER_MODE_NONE \<Rightarrow> do {
        (n, s) \<leftarrow> write_r D (iob_Descriptor (iob_table s1 ! i)) p (length xs) s1;
        Some (if n = -1 then (False, set_iob_flag i IOBF_ERROR s) else (True, s)) }
    | IOBF_BUFFER_MODE_FULL \<Rightarrow> fputs_full_loop D i p (length xs) s1)"
    unfolding fputs_body_def s1(1) bind.bind_lunit prod.case len in_use_at [OF u1] m(1) by simp
  have "\<exists>s'. fputs_body D i p s = Some (True, s') \<and> streams content F (A(i := file_write xs (A i))) s' \<and> steady s1 s'"
  proof (cases "xs = []")
    case True
    then show ?thesis using code s1(2) by simp
  next
    case False
    show ?thesis
    proof (cases m)
      case IOBF_BUFFER_MODE_LINE
      then show ?thesis using fputs_line.full_loop_ok [OF D s1(2) u1 s1(4) fl1 p(1) rg] code False by (simp add: xs)
    next
      case IOBF_BUFFER_MODE_FULL
      then show ?thesis using fputs_full.full_loop_ok [OF D s1(2) u1 s1(4) fl1 p(1) rg] code False by (simp add: xs)
    next
      case IOBF_BUFFER_MODE_NONE
      have e: "iob_BufferWriteBytes (iob_table s1 ! i) = 0" using none m(2) md s1(5) IOBF_BUFFER_MODE_NONE by auto
      obtain s' where "write_r D (iob_Descriptor (iob_table s1 ! i)) p (length xs) s1 = Some (int (length xs), s')"
        "streams content F (A(i := file_write (slice (ram s1) p (length xs)) (A i))) s'" "steady s1 s'"
        by (rule write_bypass_ok [OF D s1(2) u1 e s1(4) fl1 _ p(1) rg]) (use False in simp_all)
      then show ?thesis using code False IOBF_BUFFER_MODE_NONE by (simp add: xs)
    qed
  qed
  then show thesis using that steady_trans [OF s1(3)] by blast
qed

lemma fputs_ok:
  assumes D: "dos_files D content" and S: "streams content F A s" and u: "in_use s i" and w: "IOBF_WRITE \<in> iob_Flags (iob_table s ! i)"
    and fl: "FDF_WRITE \<in> fd_Flags (fd_table s ! F i)" and p: "p \<noteq> NULL" "cstr (ram s) p xs" "ram_ok (ram s)"
    and none: "iob_Mode (iob_table s ! i) = IOBF_BUFFER_MODE_NONE \<Longrightarrow> iob_BufferWriteBytes (iob_table s ! i) = 0"
  obtains s' where "fputs D p (Some i) s = Some (OK, s')" "streams content F (A(i := file_write xs (A i))) s'" "steady s s'"
proof -
  obtain s1 where s1: "fputs_body D i p s = Some (True, s1)" "streams content F (A(i := file_write xs (A i))) s1" "steady s s1"
    by (rule fputs_body_ok [OF D S u w fl p none])
  have u1: "in_use s1 i" using steady_in_use [OF s1(3)] u by simp
  let ?flush = "iob_Mode (iob_table s1 ! i) = IOBF_BUFFER_MODE_NONE \<and> iob_write_buffer_is_valid (iob_table s1 ! i)"
  obtain s2 where s2: "flush_iob_write_buffer D i s1 = Some (OK, s2)" "streams content F (A(i := file_write xs (A i))) s2"
    "same_rest s1 s2" "iob_table s2 = (iob_table s1)[i := (iob_table s1 ! i)\<lparr>iob_BufferWriteBytes := 0\<rparr>]"
    by (rule flush_ok [OF D s1(2) u1])
  have st: "steady s s2" using steady_trans [OF s1(3) steady_flush [OF s2(3,4)]] u1 by (simp add: in_use_def)
  have code: "fputs D p (Some i) s = Some (OK, if ?flush then s2 else s1)"
    using s1(1) s2(1) p(1) in_use_at [OF u1] by (simp add: fputs_def)
  show thesis by (rule that [OF code]) (use s1(2,3) s2(2) st in simp_all)
qed

end
