(* ===== verification/StdioCalls.thy ===== *)
theory StdioCalls
  imports StdioWrite
begin

text \<open>
  Series of calls of the standard I/O functions, on several streams in any order, against the same calls on files
  without buffers: every call returns what the unbuffered file gives, the caller's memory ends up the same, and a
  flush puts the contents on the disk. \<open>fwrite\<close> is not among the calls: it does not look at the read buffer and counts
  wrongly on a full one (\<open>StdioCases\<close>).
\<close>

section \<open>Calls\<close>

datatype stdio_call =
    Fputc int nat
  | Fgetc nat
  | Fseek nat int int
  | Ftell nat
  | Fflush nat
  | Fputs addr nat
  | Fread addr size_t size_t nat
  | Fgets addr nat nat

fun run_call :: "'d dos \<Rightarrow> stdio_call \<Rightarrow> 'd stdio \<Rightarrow> (int \<times> 'd stdio) option" where
  "run_call D (Fputc c i) s = fputc D c (Some i) s"
| "run_call D (Fgetc i) s = fgetc D (Some i) s"
| "run_call D (Fseek i offset wherefrom) s = fseek D (Some i) offset wherefrom s"
| "run_call D (Ftell i) s = ftell D (Some i) s"
| "run_call D (Fflush i) s = fflush D (Some i) s"
| "run_call D (Fputs p i) s = fputs D p (Some i) s"
| "run_call D (Fread p element_size count i) s = do { (n, s) \<leftarrow> fread D p element_size count (Some i) s; Some (int n, s) }"
| "run_call D (Fgets p n i) s = do { (r, s) \<leftarrow> fgets D p (int n) (Some i) s; Some (int r, s) }"

primrec run_calls :: "'d dos \<Rightarrow> stdio_call list \<Rightarrow> 'd stdio \<Rightarrow> (int list \<times> 'd stdio) option" where
  "run_calls D [] s = Some ([], s)"
| "run_calls D (call # calls) s = do { (v, s) \<leftarrow> run_call D call s; (vs, s) \<leftarrow> run_calls D calls s; Some (v # vs, s) }"

text \<open>The same calls on the caller's memory and unbuffered files, each its contents and its position. Calls outside the
  contract have no result: a seek out of the file, a position that needs more than 31 bits, memory that is not there.\<close>

type_synonym files_view = "byte list \<times> (nat \<Rightarrow> byte list \<times> nat)"

definition c_string :: "byte list \<Rightarrow> addr \<Rightarrow> byte list" where
  "c_string m p = takeWhile (\<lambda>b. b \<noteq> 0) (drop p m)"

fun spec_call :: "stdio_call \<Rightarrow> files_view \<Rightarrow> (int \<times> files_view) option" where
  "spec_call (Fputc c i) (m, A) = Some (c mod 256, m, A(i := file_write [word_of_int c] (A i)))"
| "spec_call (Fgetc i) (m, A) = Some (fst (file_get (A i)), m, A(i := snd (file_get (A i))))"
| "spec_call (Fseek i offset wherefrom) (m, A) =
     (let t = file_seek offset wherefrom (A i) in
      if 0 \<le> wherefrom \<and> wherefrom \<le> 2 \<and> 0 \<le> t \<and> t \<le> int (length (fst (A i))) \<and> length (fst (A i)) < 2 ^ 31
      then Some (0, m, A(i := (fst (A i), nat t))) else None)"
| "spec_call (Ftell i) (m, A) = (if length (fst (A i)) < 2 ^ 31 then Some (int (snd (A i)), m, A) else None)"
| "spec_call (Fflush i) (m, A) = Some (0, m, A)"
| "spec_call (Fputs p i) (m, A) =
     (if 4 \<le> p \<and> 0 \<in> set (drop p m) then Some (0, m, A(i := file_write (c_string m p) (A i))) else None)"
| "spec_call (Fread p element_size count i) (m, A) =
     (let xs = take (element_size * count) (file_rest (A i)) in
      if 0 < element_size \<and> 0 < count \<and> element_size * count < 2 ^ 32 \<and> region m p (element_size * count)
      then Some (int (length xs div element_size), put m p xs, A(i := (fst (A i), snd (A i) + length xs))) else None)"
| "spec_call (Fgets p n i) (m, A) =
     (let xs = file_line (n - 1) (file_rest (A i)) in
      if 0 < n \<and> region m p n
      then Some (if 1 < n \<and> file_rest (A i) = [] then 0 else int p, put m p (xs @ [0]), A(i := (fst (A i), snd (A i) + length xs)))
      else None)"

primrec spec_calls :: "stdio_call list \<Rightarrow> files_view \<Rightarrow> (int list \<times> files_view) option" where
  "spec_calls [] a = Some ([], a)"
| "spec_calls (call # calls) a = do { (v, a) \<leftarrow> spec_call call a; (vs, a) \<leftarrow> spec_calls calls a; Some (v # vs, a) }"

text \<open>The streams a call may use: open, for what the call does, without a recorded error, and buffered for the calls on blocks.\<close>

fun allowed :: "'d stdio \<Rightarrow> (nat \<Rightarrow> nat) \<Rightarrow> stdio_call \<Rightarrow> bool" where
  "allowed s F (Fputc c i) \<longleftrightarrow> in_use s i \<and> IOBF_WRITE \<in> iob_Flags (iob_table s ! i)"
| "allowed s F (Fgetc i) \<longleftrightarrow> in_use s i \<and> IOBF_READ \<in> iob_Flags (iob_table s ! i)"
| "allowed s F (Fseek i offset wherefrom) \<longleftrightarrow> in_use s i"
| "allowed s F (Ftell i) \<longleftrightarrow> in_use s i"
| "allowed s F (Fflush i) \<longleftrightarrow> in_use s i"
| "allowed s F (Fputs p i) \<longleftrightarrow> in_use s i \<and> IOBF_WRITE \<in> iob_Flags (iob_table s ! i) \<and>
     iob_Mode (iob_table s ! i) \<noteq> IOBF_BUFFER_MODE_NONE \<and> F i < length (fd_table s) \<and> FDF_WRITE \<in> fd_Flags (fd_table s ! F i)"
| "allowed s F (Fread p element_size count i) \<longleftrightarrow> in_use s i \<and> IOBF_READ \<in> iob_Flags (iob_table s ! i) \<and>
     IOBF_ERROR \<notin> iob_Flags (iob_table s ! i) \<and> iob_Mode (iob_table s ! i) \<noteq> IOBF_BUFFER_MODE_NONE \<and>
     F i < length (fd_table s) \<and> FDF_READ \<in> fd_Flags (fd_table s ! F i)"
| "allowed s F (Fgets p n i) \<longleftrightarrow> in_use s i \<and> IOBF_READ \<in> iob_Flags (iob_table s ! i) \<and> IOBF_ERROR \<notin> iob_Flags (iob_table s ! i)"


section \<open>Every call\<close>

lemma c_string_cstr:
  assumes "4 \<le> p" "0 \<in> set (drop p m)"
  shows "cstr m p (c_string m p)"
  using assms
proof (induction "drop p m" arbitrary: p)
  case Nil
  then show ?case by simp
next
  case (Cons x xs)
  have x: "p < length m" "m ! p = x" "drop (Suc p) m = xs"
    using Cons.hyps(2) by (metis drop_eq_Nil leI list.distinct(1), metis nth_via_drop, metis Cons_nth_drop_Suc drop_eq_Nil leI list.distinct(1) list.inject)
  have l: "load m p = Some x" using x Cons.prems(1) by (simp add: load_Some_mapped mapped_def)
  show ?case
  proof (cases "x = 0")
    case True
    then show ?thesis using l Cons.hyps(2) by (simp add: c_string_def Cons.hyps(2) [symmetric])
  next
    case False
    then have "0 \<in> set xs" using Cons.prems(2) unfolding Cons.hyps(2) [symmetric] by simp
    then have "cstr m (Suc p) (c_string m (Suc p))" using Cons.hyps(1) [of "Suc p"] x(3) Cons.prems(1) by simp
    moreover have "c_string m p = x # c_string m (Suc p)" using False x(3) by (simp add: c_string_def Cons.hyps(2) [symmetric])
    ultimately show ?thesis using l False by simp
  qed
qed

lemma steady_mem_fd_length: "steady_mem s s' \<Longrightarrow> length (fd_table s') = length (fd_table s)"
  unfolding steady_mem_def by (metis length_map)

lemma allowed_steady: "steady_mem s s' \<Longrightarrow> allowed s F call \<Longrightarrow> allowed s' F call"
  by (cases call)
    (auto simp: steady_mem_in_use steady_mem_flag steady_mem_fixed steady_mem_fd_flags steady_mem_fd_length dest: in_use_less)

lemma spec_call_ram: "spec_call call (m, A) = Some (v, m', A') \<Longrightarrow> length m' = length m"
  by (cases call) (auto simp: Let_def split: if_splits)

lemma run_call_ok:
  assumes D: "dos_files D content" and S: "streams content F A s" and ok: "ram_ok (ram s)" "allowed s F call"
    and spec: "spec_call call (ram s, A) = Some (v, m', A')"
  shows "\<exists>s'. run_call D call s = Some (v, s') \<and> ram s' = m' \<and> streams content F A' s' \<and> steady_mem s s'"
proof -
  have result: ?thesis if "run_call D call s = Some (v, s')" "steady s s'" "streams content F A' s'" "m' = ram s" for s'
  proof -
    have "ram s' = m'" using that(2,4) by (simp add: steady_def same_rest_def)
    then show ?thesis using that(1,3) steady_steady_mem [OF that(2)] by blast
  qed
  show ?thesis
  proof (cases call)
    case (Fputc c i)
    have u: "in_use s i" "IOBF_WRITE \<in> iob_Flags (iob_table s ! i)" using ok(2) Fputc by simp_all
    obtain s' where "fputc D c (Some i) s = Some (c mod 256, s')" "streams content F (A(i := file_write [word_of_int c] (A i))) s'" "steady s s'"
      by (rule fputc_ok [OF D S u])
    moreover have "v = c mod 256" "m' = ram s" "A' = A(i := file_write [word_of_int c] (A i))" using spec Fputc by simp_all
    ultimately show ?thesis using result by (simp only: Fputc run_call.simps)
  next
    case (Fgetc i)
    have u: "in_use s i" "IOBF_READ \<in> iob_Flags (iob_table s ! i)" using ok(2) Fgetc by simp_all
    obtain s' where "fgetc D (Some i) s = Some (fst (file_get (A i)), s')" "streams content F (A(i := snd (file_get (A i)))) s'" "steady s s'"
      by (rule fgetc_ok [OF D S u])
    moreover have "v = fst (file_get (A i))" "m' = ram s" "A' = A(i := snd (file_get (A i)))" using spec Fgetc by simp_all
    ultimately show ?thesis using result by (simp only: Fgetc run_call.simps)
  next
    case (Fseek i offset wherefrom)
    have u: "in_use s i" using ok(2) Fseek by simp
    define t where "t = file_seek offset wherefrom (A i)"
    have t: "0 \<le> wherefrom" "wherefrom \<le> 2" "0 \<le> t" "t \<le> int (length (fst (A i)))" "length (fst (A i)) < 2 ^ 31"
      "v = 0" "m' = ram s" "A' = A(i := (fst (A i), nat t))"
      using spec unfolding Fseek spec_call.simps Let_def t_def [symmetric] by (auto split: if_splits)
    obtain s' where "fseek D (Some i) offset wherefrom s = Some (OK, s')" "streams content F (A(i := (fst (A i), nat t))) s'" "steady s s'"
      by (rule fseek_ok [OF D S u t(1,2) t_def t(3-5)])
    then show ?thesis using result t(6-8) by (simp only: Fseek run_call.simps)
  next
    case (Ftell i)
    have u: "in_use s i" using ok(2) Ftell by simp
    have t: "length (fst (A i)) < 2 ^ 31" "v = int (snd (A i))" "m' = ram s" "A' = A" using spec Ftell by (auto split: if_splits)
    obtain s' where "ftell D (Some i) s = Some (int (snd (A i)), s')" "streams content F A s'" "steady s s'" by (rule ftell_ok [OF D S u t(1)])
    then show ?thesis using result t(2-4) by (simp only: Ftell run_call.simps)
  next
    case (Fflush i)
    have u: "in_use s i" using ok(2) Fflush by simp
    obtain s' where "fflush D (Some i) s = Some (OK, s')" "streams content F A s'" "steady s s'" by (rule fflush_ok [OF D S u])
    moreover have "v = 0" "m' = ram s" "A' = A" using spec Fflush by simp_all
    ultimately show ?thesis using result by (simp only: Fflush run_call.simps)
  next
    case (Fputs p i)
    have u: "in_use s i" "IOBF_WRITE \<in> iob_Flags (iob_table s ! i)" "FDF_WRITE \<in> fd_Flags (fd_table s ! F i)"
      and md: "iob_Mode (iob_table s ! i) \<noteq> IOBF_BUFFER_MODE_NONE" using ok(2) Fputs by simp_all
    have p: "4 \<le> p" "0 \<in> set (drop p (ram s))" and r: "v = 0" "m' = ram s" "A' = A(i := file_write (c_string (ram s) p) (A i))"
      using spec Fputs by (auto split: if_splits)
    obtain s' where "fputs D p (Some i) s = Some (OK, s')" "streams content F (A(i := file_write (c_string (ram s) p) (A i))) s'" "steady s s'"
      by (rule fputs_ok [OF D S u _ c_string_cstr [OF p] ok(1)]) (use p md in simp_all)
    then show ?thesis using result r by (simp only: Fputs run_call.simps)
  next
    case (Fread p element_size count i)
    have u: "in_use s i" "IOBF_READ \<in> iob_Flags (iob_table s ! i)" "IOBF_ERROR \<notin> iob_Flags (iob_table s ! i)"
      "iob_Mode (iob_table s ! i) \<noteq> IOBF_BUFFER_MODE_NONE" "FDF_READ \<in> fd_Flags (fd_table s ! F i)" using ok(2) Fread by simp_all
    let ?xs = "take (element_size * count) (file_rest (A i))"
    have n: "0 < element_size" "0 < count" "element_size * count < 2 ^ 32" "region (ram s) p (element_size * count)"
      and r: "v = int (length ?xs div element_size)" "m' = put (ram s) p ?xs" "A' = A(i := (fst (A i), snd (A i) + length ?xs))"
      using spec unfolding Fread spec_call.simps Let_def by (auto split: if_splits)
    have p: "p \<noteq> NULL" using n by (auto simp: region_def)
    obtain s' where s': "fread D p element_size count (Some i) s = Some (length ?xs div element_size, s')" "ram s' = put (ram s) p ?xs"
      "streams content F (A(i := (fst (A i), snd (A i) + length ?xs))) s'" "steady_mem s s'" by (rule fread_ok [OF D S u n(1-3) p n(4)])
    have "run_call D call s = Some (v, s')" using s'(1) unfolding Fread r(1) by simp
    then show ?thesis unfolding r(2,3) using s'(2-4) by blast
  next
    case (Fgets p n i)
    have u: "in_use s i" "IOBF_READ \<in> iob_Flags (iob_table s ! i)" "IOBF_ERROR \<notin> iob_Flags (iob_table s ! i)" using ok(2) Fgets by simp_all
    let ?xs = "file_line (n - 1) (file_rest (A i))"
    have n: "0 < n" "region (ram s) p n" and r: "v = (if 1 < n \<and> file_rest (A i) = [] then 0 else int p)" "m' = put (ram s) p (?xs @ [0])"
      "A' = A(i := (fst (A i), snd (A i) + length ?xs))"
      using spec unfolding Fgets spec_call.simps Let_def by (auto split: if_splits)
    have p: "p \<noteq> NULL" using n by (auto simp: region_def)
    obtain s' where s': "fgets D p (int n) (Some i) s = Some (if 1 < n \<and> file_rest (A i) = [] then NULL else p, s')" "ram s' = put (ram s) p (?xs @ [0])"
      "streams content F (A(i := (fst (A i), snd (A i) + length ?xs))) s'" "steady_mem s s'" by (rule fgets_ok [OF D S u n(1) p n(2)])
    have "run_call D call s = Some (v, s')" using s'(1) by (simp add: Fgets r(1))
    then show ?thesis unfolding r(2,3) using s'(2-4) by blast
  qed
qed

lemma run_calls_ok:
  assumes D: "dos_files D content"
  shows "streams content F A s \<Longrightarrow> ram_ok (ram s) \<Longrightarrow> list_all (allowed s F) calls \<Longrightarrow> spec_calls calls (ram s, A) = Some (vs, m', A') \<Longrightarrow>
    \<exists>s'. run_calls D calls s = Some (vs, s') \<and> ram s' = m' \<and> streams content F A' s' \<and> steady_mem s s'"
proof (induction calls arbitrary: A s vs)
  case (Cons call calls)
  obtain v m1 A1 ws where 1: "spec_call call (ram s, A) = Some (v, m1, A1)" "spec_calls calls (m1, A1) = Some (ws, m', A')" "vs = v # ws"
    using Cons.prems(4) by (auto simp: bind_Some_eq)
  have al: "allowed s F call" "list_all (allowed s F) calls" using Cons.prems(3) by simp_all
  obtain s1 where s1: "run_call D call s = Some (v, s1)" "ram s1 = m1" "streams content F A1 s1" "steady_mem s s1"
    using run_call_ok [OF D Cons.prems(1,2) al(1) 1(1)] by blast
  have "ram_ok (ram s1)" using spec_call_ram [OF 1(1)] Cons.prems(2) s1(2) by (simp add: ram_ok_def)
  moreover have "list_all (allowed s1 F) calls" using al(2) allowed_steady [OF s1(4)] by (simp add: list_all_iff)
  ultimately obtain s' where "run_calls D calls s1 = Some (ws, s')" "ram s' = m'" "streams content F A' s'" "steady_mem s1 s'"
    using Cons.IH [OF s1(3), of ws] 1(2) s1(2) by blast
  then show ?case using s1(1) 1(3) steady_mem_trans [OF s1(4)] by simp
qed simp


section \<open>A disk in memory\<close>

text \<open>Files as the functions of \<^verbatim>\<open>dos.library\<close> are documented, for examples.\<close>

definition disk_file :: "(bptr \<rightharpoonup> byte list \<times> nat) \<Rightarrow> bptr \<Rightarrow> byte list \<times> nat" where
  "disk_file d h = (case d h of Some f \<Rightarrow> f | None \<Rightarrow> ([], 0))"

definition ram_disk :: "(bptr \<rightharpoonup> byte list \<times> nat) dos" where
  "ram_disk = \<lparr>
     dos_Read = \<lambda>h n d. let (c, p) = disk_file d h; xs = take n (drop p c) in (int (length xs), xs, d(h \<mapsto> (c, p + length xs))),
     dos_Write = \<lambda>h xs d. let (c, p) = disk_file d h in (int (length xs), d(h \<mapsto> (overlay c p xs, p + length xs))),
     dos_ChangeFilePosition = \<lambda>h offset mode d. let (c, p) = disk_file d h; t = seek_target c p offset mode in
       if 0 \<le> t \<and> t \<le> int (length c) then (1, d(h \<mapsto> (c, nat t))) else (CHANGE_FILE_ERROR, d),
     dos_GetFilePosition = \<lambda>h d. (int (snd (disk_file d h)), d),
     dos_GetFileSize = \<lambda>h d. (int (length (fst (disk_file d h))), d),
     dos_IoErr = \<lambda>d. NO_DOS_ERROR,
     dos_ExamineFileSize = \<lambda>h d. (None, d),
     dos_BlockSize = \<lambda>h d. (512, d),
     dos_malloc = \<lambda>n d. (True, d),
     dos_Input = \<lambda>d. 0,
     dos_Output = \<lambda>d. 0,
     dos_ErrorOutput = \<lambda>d. 0,
     dos_OpenConsole = \<lambda>d. (0, d),
     dos_send = \<lambda>n xs d. (-1, d),
     dos_recv = \<lambda>n k d. (-1, [], d)\<rparr>"

definition disk_content :: "(bptr \<rightharpoonup> byte list \<times> nat) \<Rightarrow> bptr \<rightharpoonup> byte list \<times> nat" where
  "disk_content d h = (case d h of Some (c, p) \<Rightarrow> if p \<le> length c then Some (c, p) else None | None \<Rightarrow> None)"

lemma disk_content_update: "p \<le> length c \<Longrightarrow> disk_content (d(h \<mapsto> (c, p))) = (disk_content d)(h \<mapsto> (c, p))"
  by (rule ext) (simp add: disk_content_def)

lemma disk_contentD: "disk_content d h = Some (c, p) \<Longrightarrow> disk_file d h = (c, p) \<and> p \<le> length c"
  by (auto simp: disk_content_def disk_file_def split: option.splits if_splits)

lemma ram_disk_files: "dos_files ram_disk disk_content"
  unfolding dos_files_def
proof (intro allI impI)
  fix d h c p
  assume "disk_content d h = Some (c, p)"
  then have f: "disk_file d h = (c, p)" and p: "p \<le> length c" using disk_contentD by blast+
  have "p + length (take n (drop p c)) \<le> length c" for n using p by simp
  moreover have "p + length xs \<le> length (overlay c p xs)" for xs by (rule overlay_length [OF p])
  ultimately show "p \<le> length c \<and>
     (\<forall>xs. \<exists>d'. dos_Write ram_disk h xs d = (int (length xs), d') \<and> disk_content d' = (disk_content d)(h \<mapsto> (overlay c p xs, p + length xs))) \<and>
     (\<forall>n. \<exists>d'. dos_Read ram_disk h n d = (int (length (take n (drop p c))), take n (drop p c), d') \<and>
        disk_content d' = (disk_content d)(h \<mapsto> (c, p + length (take n (drop p c))))) \<and>
     (\<exists>d'. dos_GetFilePosition ram_disk h d = (int p, d') \<and> dos_IoErr ram_disk d' = NO_DOS_ERROR \<and> disk_content d' = disk_content d) \<and>
     (\<exists>d'. dos_GetFileSize ram_disk h d = (int (length c), d') \<and> disk_content d' = disk_content d) \<and>
     (\<forall>offset mode. let t = seek_target c p offset mode in
        if 0 \<le> t \<and> t \<le> int (length c)
        then \<exists>r d'. dos_ChangeFilePosition ram_disk h offset mode d = (r, d') \<and> r \<noteq> CHANGE_FILE_ERROR \<and>
               disk_content d' = (disk_content d)(h \<mapsto> (c, nat t))
        else \<exists>d'. dos_ChangeFilePosition ram_disk h offset mode d = (CHANGE_FILE_ERROR, d') \<and> disk_content d' = disk_content d)"
    using p by (auto simp: ram_disk_def f Let_def disk_content_update simp del: length_take)
qed


definition example_iob :: "int \<Rightarrow> iob" where
  "example_iob n = \<lparr>iob_Flags = {IOBF_IN_USE, IOBF_READ, IOBF_WRITE}, iob_Mode = IOBF_BUFFER_MODE_FULL, iob_Buffer = [0, 0, 0, 0],
     iob_BufferSize = 4, iob_BufferPosition = 0, iob_BufferReadBytes = 0, iob_BufferWriteBytes = 0, iob_Flags2_SERR = False, iob_Descriptor = n\<rparr>"

definition example_fd :: "bptr \<Rightarrow> fd" where
  "example_fd h = \<lparr>fd_Flags = {FDF_IN_USE, FDF_READ, FDF_WRITE}, fd_File = h, fd_Position = 0, fd_Original = None, fd_NextAlias = None\<rparr>"

definition two_files :: "byte list \<Rightarrow> byte list \<Rightarrow> byte list \<Rightarrow> (bptr \<rightharpoonup> byte list \<times> nat) stdio" where
  "two_files m c c' = \<lparr>ram = m, errno = 0, fd_table = [example_fd 1, example_fd 2], unix_path_semantics = True,
     dos_state = [1 \<mapsto> (c, 0), 2 \<mapsto> (c', 0)], iob_table = [example_iob 0, example_iob 1]\<rparr>"

lemma two_files_in_use [simp]: "in_use (two_files m c c') i \<longleftrightarrow> i = 0 \<or> i = 1"
  by (auto simp: in_use_def two_files_def example_iob_def less_Suc_eq)

lemma two_files_streams: "streams disk_content (\<lambda>i. i) (\<lambda>i. if i = 0 then (c, 0) else (c', 0)) (two_files m c c')"
  unfolding streams_def two_files_in_use
  by (auto simp: stream_ok_def two_files_def example_iob_def example_fd_def get_file_descriptor_def fd_ok_def plain_fd_def disk_content_def
      buffer_ok_def view_def)


section \<open>Properties\<close>

text \<open>C1.
  The standard I/O functions on several streams: any series of fputc, fgetc, fputs, fgets, fread, fseek, ftell and fflush calls
  returns what the same calls on unbuffered files return and leaves the same bytes in the caller's memory; the streams still
  represent those files. DOS is assumed to keep files as documented, and the streams are open and without errors.
\<close>
theorem stdio_calls_correct:
  assumes "dos_files D content" "streams content F A s" "ram_ok (ram s)" "list_all (allowed s F) calls"
    and "spec_calls calls (ram s, A) = Some (vs, m', A')"
  shows "\<exists>s'. run_calls D calls s = Some (vs, s') \<and> ram s' = m' \<and> streams content F A' s'"
  using run_calls_ok [OF assms] by blast

theorem stdio_calls_correct_witness:
  "\<exists>s'. run_calls ram_disk [Fgetc 0, Fputc 88 0, Fputs 4 1, Fseek 0 0 0, Fgets 8 8 0, Ftell 0, Fflush 1]
     (two_files [0, 0, 0, 0, 97, 98, 99, 0, 0, 0, 0, 0, 0, 0, 0, 0] [104, 105, 10, 111] []) = Some ([104, 88, 0, 0, 8, 3, 0], s') \<and>
   ram s' = [0, 0, 0, 0, 97, 98, 99, 0, 104, 88, 10, 0, 0, 0, 0, 0]"
proof -
  let ?m = "[0, 0, 0, 0, 97, 98, 99, 0, 0, 0, 0, 0, 0, 0, 0, 0] :: byte list"
  let ?s = "two_files ?m [104, 105, 10, 111] []"
  let ?calls = "[Fgetc 0, Fputc 88 0, Fputs 4 1, Fseek 0 0 0, Fgets 8 8 0, Ftell 0, Fflush 1]"
  have ok: "ram_ok (ram ?s)" "list_all (allowed ?s (\<lambda>i. i)) ?calls"
    by (simp_all add: ram_ok_def two_files_def) (simp_all add: in_use_def example_iob_def example_fd_def)
  have "\<exists>A'. spec_calls ?calls (ram ?s, \<lambda>i. if i = 0 then ([104, 105, 10, 111], 0) else ([], 0)) =
      Some ([104, 88, 0, 0, 8, 3, 0], [0, 0, 0, 0, 97, 98, 99, 0, 104, 88, 10, 0, 0, 0, 0, 0], A')"
    by (simp add: two_files_def Let_def file_get_def file_rest_def file_write_def overlay_def file_seek_def seek_target_def seek_mode_def
        file_line_def through_def region_def c_string_def)
  then obtain A' where "spec_calls ?calls (ram ?s, \<lambda>i. if i = 0 then ([104, 105, 10, 111], 0) else ([], 0)) =
      Some ([104, 88, 0, 0, 8, 3, 0], [0, 0, 0, 0, 97, 98, 99, 0, 104, 88, 10, 0, 0, 0, 0, 0], A')" by blast
  from stdio_calls_correct [OF ram_disk_files two_files_streams ok this] show ?thesis by blast
qed


lemma run_calls_append: "run_calls D (xs @ ys) s = do { (vs, s) \<leftarrow> run_calls D xs s; (ws, s) \<leftarrow> run_calls D ys s; Some (vs @ ws, s) }"
  by (induction xs arbitrary: s) (auto simp: case_prod_unfold split: bind_splits)

lemma streams_flushed:
  assumes S: "streams content F A s" and u: "in_use s i" and w: "iob_BufferWriteBytes (iob_table s ! i) = 0"
  obtains p where "content (dos_state s) (fd_File (fd_table s ! F i)) = Some (fst (A i), p)"
proof -
  obtain c p where f: "fd_ok content s (F i) c p" and a: "A i = view (iob_table s ! i) c p" by (rule streamsD [OF S u])
  have "fst (A i) = c" using w by (simp add: a view_def overlay_def)
  then show thesis using that fd_okD(4) [OF f] by simp
qed

text \<open>C2.
  What the calls wrote is on the disk after fflush: the contents DOS keeps for the file are those of the unbuffered file after
  the same calls.
\<close>
theorem stdio_fflush_durable:
  assumes "dos_files D content" "streams content F A s" "ram_ok (ram s)" "list_all (allowed s F) calls"
    and "spec_calls calls (ram s, A) = Some (vs, m', A')" and u: "in_use s i"
  shows "\<exists>s' p. run_calls D (calls @ [Fflush i]) s = Some (vs @ [0], s') \<and>
    content (dos_state s') (fd_File (fd_table s' ! F i)) = Some (fst (A' i), p)"
proof -
  obtain s1 where s1: "run_calls D calls s = Some (vs, s1)" "streams content F A' s1" "steady_mem s s1"
    using run_calls_ok [OF assms(1-5)] by blast
  have u1: "in_use s1 i" using steady_mem_in_use [OF s1(3)] u by simp
  obtain s' where s': "fflush D (Some i) s1 = Some (OK, s')" "streams content F A' s'" "steady s1 s'" "iob_BufferWriteBytes (iob_table s' ! i) = 0"
    by (rule fflush_ok [OF assms(1) s1(2) u1])
  have u2: "in_use s' i" using steady_in_use [OF s'(3)] u1 by simp
  obtain p where "content (dos_state s') (fd_File (fd_table s' ! F i)) = Some (fst (A' i), p)" by (rule streams_flushed [OF s'(2) u2 s'(4)])
  then show ?thesis using s1(1) s'(1) by (auto simp: run_calls_append)
qed

theorem stdio_fflush_durable_witness:
  "\<exists>s' p. run_calls ram_disk ([Fgetc 0, Fputc 88 0] @ [Fflush 0]) (two_files [0, 0, 0, 0] [104, 105, 10] []) = Some ([104, 88] @ [0], s') \<and>
    disk_content (dos_state s') (fd_File (fd_table s' ! 0)) = Some ([104, 88, 10], p)"
proof -
  let ?s = "two_files [0, 0, 0, 0] [104, 105, 10] []"
  let ?A = "\<lambda>i :: nat. if i = 0 then ([104, 105, 10], 0) else ([], 0)"
  have ok: "ram_ok (ram ?s)" "list_all (allowed ?s (\<lambda>i. i)) [Fgetc 0, Fputc 88 0]" "in_use ?s 0"
    by (simp_all add: ram_ok_def two_files_def) (simp_all add: in_use_def example_iob_def example_fd_def)
  have "\<exists>A'. spec_calls [Fgetc 0, Fputc 88 0] (ram ?s, ?A) = Some ([104, 88], [0, 0, 0, 0], A') \<and> fst (A' 0) = [104, 88, 10]"
    by (simp add: two_files_def file_get_def file_rest_def file_write_def overlay_def)
  then obtain A' where A': "spec_calls [Fgetc 0, Fputc 88 0] (ram ?s, ?A) = Some ([104, 88], [0, 0, 0, 0], A')" "fst (A' 0) = [104, 88, 10]" by blast
  show ?thesis using stdio_fflush_durable [OF ram_disk_files two_files_streams ok(1,2) A'(1) ok(3)] unfolding A'(2) .
qed

text \<open>C3.
  fwrite on a stream with no data read ahead, and with room in the buffer of a fully buffered one: it returns the number of
  elements, and the bytes are in the file at its position, however long they are and however the stream is buffered.
\<close>
theorem fwrite_correct:
  assumes "dos_files D content" "streams content F A s" "in_use s i" "IOBF_WRITE \<in> iob_Flags (iob_table s ! i)"
    and "iob_BufferReadBytes (iob_table s ! i) = 0" "FDF_WRITE \<in> fd_Flags (fd_table s ! F i)"
    and "0 < element_size" "0 < count" "element_size * count < 2 ^ 32" "ptr \<noteq> NULL" "region (ram s) ptr (element_size * count)"
    and "iob_Mode (iob_table s ! i) = IOBF_BUFFER_MODE_FULL \<Longrightarrow> iob_BufferWriteBytes (iob_table s ! i) < iob_BufferSize (iob_table s ! i)"
    and "iob_Mode (iob_table s ! i) = IOBF_BUFFER_MODE_NONE \<Longrightarrow> iob_BufferWriteBytes (iob_table s ! i) = 0"
  shows "\<exists>s'. fwrite D ptr element_size count (Some i) s = Some (count, s') \<and>
    streams content F (A(i := file_write (slice (ram s) ptr (element_size * count)) (A i))) s'"
  by (rule fwrite_ok [OF assms(1-11)]) (use assms(12,13) in blast)+

theorem fwrite_correct_witness:
  "\<exists>s'. fwrite ram_disk 4 2 3 (Some 1) (two_files [0, 0, 0, 0, 97, 98, 99, 100, 101, 102, 103, 0] [] [1, 2]) = Some (3, s') \<and>
    streams disk_content (\<lambda>i. i) ((\<lambda>i. if i = 0 then ([], 0) else ([1, 2], 0))(1 := ([97, 98, 99, 100, 101, 102], 6))) s'"
proof -
  let ?m = "[0, 0, 0, 0, 97, 98, 99, 100, 101, 102, 103, 0] :: byte list"
  let ?s = "two_files ?m [] [1, 2]"
  let ?A = "\<lambda>i :: nat. if i = 0 then ([], 0) else ([1, 2 :: byte], 0 :: nat)"
  have A: "file_write (slice (ram ?s) 4 (2 * 3)) (?A 1) = ([97, 98, 99, 100, 101, 102], 6)"
    by (simp add: two_files_def slice_def file_write_def overlay_def)
  show ?thesis
    unfolding A [symmetric]
    by (rule fwrite_correct [OF ram_disk_files two_files_streams]) (simp_all add: two_files_def in_use_def example_iob_def example_fd_def region_def)
qed

end
