(* ===== verification/StdioCases.thy ===== *)
theory StdioCases
  imports StdioCalls
begin

text \<open>
  What the standard I/O functions do outside the cases of \<open>StdioCalls\<close>: \<open>fwrite\<close> on a full buffer and on data read ahead
  (stdio/fwrite.c), a flush whose write fails (stdio/flushiobwritebuffer.c, stdio/fflush.c), and a character that is pushed
  back (stdio/ungetc.c).
\<close>

section \<open>fwrite on a full buffer\<close>

lemma fputc_raw_full:
  assumes D: "dos_files D content" and S: "streams content F A s" and u: "in_use s i"
    and full: "iob_BufferWriteBytes (iob_table s ! i) = iob_BufferSize (iob_table s ! i)"
  obtains s' where "fputc_raw D c i IOBF_BUFFER_MODE_FULL s = Some (c mod 256, s')" "streams content F (A(i := file_write [word_of_int c] (A i))) s'"
    "steady s s'" "iob_BufferReadBytes (iob_table s' ! i) = 0" "iob_BufferWriteBytes (iob_table s' ! i) = 1"
proof -
  obtain c' p where b: "buffer_ok (iob_table s ! i) c' p" and i: "i < length (iob_table s)" by (rule streamsD [OF S u])
  have pos: "0 < iob_BufferSize (iob_table s ! i)" and r: "iob_BufferReadBytes (iob_table s ! i) = 0" using b full by (auto simp: buffer_ok_def)
  obtain s1 where s1: "flush_iob_write_buffer D i s = Some (OK, s1)" "streams content F A s1" "same_rest s s1"
    "iob_table s1 = (iob_table s)[i := (iob_table s ! i)\<lparr>iob_BufferWriteBytes := 0\<rparr>]" by (rule flush_ok [OF D S u])
  have st: "steady s s1" by (rule steady_flush [OF s1(3,4) i])
  have u1: "in_use s1 i" using steady_in_use [OF st] u by simp
  have r1: "iob_BufferReadBytes (iob_table s1 ! i) = 0" "iob_BufferWriteBytes (iob_table s1 ! i) = 0"
    "iob_BufferWriteBytes (iob_table s1 ! i) + length [word_of_int c :: byte] \<le> iob_BufferSize (iob_table s1 ! i)"
    using i r pos by (simp_all add: s1(4))
  obtain s2 where s2: "buffer_append i [word_of_int c] s1 = Some s2" "streams content F (A(i := file_write [word_of_int c] (A i))) s2" "steady s1 s2"
    "iob_BufferReadBytes (iob_table s2 ! i) = 0" "iob_BufferWriteBytes (iob_table s2 ! i) = iob_BufferWriteBytes (iob_table s1 ! i) + length [word_of_int c :: byte]"
    by (rule buffer_append_ok [OF D s1(2) u1 r1(1,3)])
  have "fputc_raw D c i IOBF_BUFFER_MODE_FULL s = Some (c mod 256, s2)"
    using full pos s1(1) s2(1) by (simp add: fputc_raw_def in_use_at [OF u] iob_write_buffer_is_full_def buffer_store_append)
  then show thesis using that s2 r1(2) steady_trans [OF st s2(3)] by simp
qed

text \<open>C6.
  fwrite on a fully buffered stream whose buffer is full, as fputc leaves it, writes one byte more than it was asked to: the
  character written to empty the buffer is not taken off the number of bytes left. The byte after the caller's data goes to
  the file, and the result is greater than the number of elements.
\<close>
theorem fwrite_full_buffer:
  assumes D: "dos_files D content" and S: "streams content F A s" and u: "in_use s i" and w: "IOBF_WRITE \<in> iob_Flags (iob_table s ! i)"
    and fl: "FDF_WRITE \<in> fd_Flags (fd_table s ! F i)" and md: "iob_Mode (iob_table s ! i) = IOBF_BUFFER_MODE_FULL"
    and full: "iob_BufferWriteBytes (iob_table s ! i) = iob_BufferSize (iob_table s ! i)" and sz: "2 \<le> iob_BufferSize (iob_table s ! i)"
    and n: "0 < n" "n < 2 ^ 32" and p: "region (ram s) p (n + 1)"
  shows "\<exists>s'. fwrite D p 1 n (Some i) s = Some (n + 1, s') \<and> streams content F (A(i := file_write (slice (ram s) p (n + 1)) (A i))) s'"
proof -
  obtain c q where f: "fd_ok content s (F i) c q" and i: "i < length (iob_table s)" by (rule streamsD [OF S u])
  define x where "x = ram s ! p"
  have x: "load (ram s) p = Some x" "slice (ram s) p 1 = [x]" "region (ram s) (p + 1) n" "p \<noteq> NULL"
    using p by (simp_all add: region_Suc load_Some_mapped x_def slice_Suc mapped_def)
  obtain s1 where s1: "fputc_raw D (uint x) i IOBF_BUFFER_MODE_FULL s = Some (uint x mod 256, s1)"
    "streams content F (A(i := file_write [word_of_int (uint x)] (A i))) s1" "steady s s1" "iob_BufferReadBytes (iob_table s1 ! i) = 0"
    "iob_BufferWriteBytes (iob_table s1 ! i) = 1" by (rule fputc_raw_full [OF D S u full, of "uint x"])
  let ?A = "A(i := file_write (slice (ram s) p 1) (A i))"
  have S1: "streams content F ?A s1" using s1(2) by (simp add: x(2) del: One_nat_def)
  have u1: "in_use s1 i" using steady_in_use [OF s1(3)] u by simp
  have m1: "ram s1 = ram s" using s1(3) by (simp add: steady_def same_rest_def)
  have fl1: "FDF_WRITE \<in> fd_Flags (fd_table s1 ! F i)"
    using steady_mem_fd_flags [OF steady_steady_mem [OF s1(3)], of "F i"] fl fd_okD(2) [OF f] by simp
  have sz1: "iob_BufferWriteBytes (iob_table s1 ! i) < iob_BufferSize (iob_table s1 ! i)"
    using s1(5) sz steady_fixed(2) [OF s1(3) i] by simp
  have p1: "p + 1 \<noteq> NULL" "region (ram s1) (p + 1) n" unfolding m1 using x(3) by simp_all
  obtain s' where s': "fwrite_full_loop D i (p + 1) n 1 s1 = Some (Some (1 + n), s')"
    "streams content F (?A(i := file_write (slice (ram s1) (p + 1) n) (?A i))) s'"
    using fwrite_full.loop_ok [OF D S1 u1 s1(4) fl1 p1 n(1) sz1, of 1] by blast
  have "0 \<le> uint x mod 256" by simp
  then have "uint x mod 256 \<noteq> EOF" by linarith
  then have "fwrite_full_loop D i p n 0 s = fwrite_full_loop D i (p + 1) n 1 s1"
    using n(1) full sz x(1) s1(1) i write_block_single [of i s] by (subst fwrite_full_loop.simps) (simp add: at_def)
  then have "fwrite D p 1 n (Some i) s = Some (n + 1, s')"
    using s'(1) n x(4) md w u by (simp add: fwrite_def in_use_at [OF u] in_use_def effective_mode_def)
  moreover have "?A(i := file_write (slice (ram s1) (p + 1) n) (?A i)) = A(i := file_write (slice (ram s) p (n + 1)) (A i))"
    unfolding m1 fun_upd_same fun_upd_upd using file_write_slice [OF D S u, of 1 "n + 1" "ram s" p] by simp
  ultimately show ?thesis using s'(2) by metis
qed


theorem fwrite_full_buffer_witness:
  "\<exists>s'. fwrite ram_disk 4 1 2 (Some 0)
      ((two_files [0, 0, 0, 0, 97, 98, 99, 0] [] [])\<lparr>iob_table := [(example_iob 0)\<lparr>iob_Buffer := [1, 2, 3, 4], iob_BufferWriteBytes := 4\<rparr>]\<rparr>) =
      Some (3, s') \<and>
    streams disk_content (\<lambda>i. i) ((\<lambda>_. ([1, 2, 3, 4], 4))(0 := ([1, 2, 3, 4, 97, 98, 99], 7))) s'"
proof -
  let ?s = "(two_files [0, 0, 0, 0, 97, 98, 99, 0] [] [])\<lparr>iob_table := [(example_iob 0)\<lparr>iob_Buffer := [1, 2, 3, 4], iob_BufferWriteBytes := 4\<rparr>]\<rparr>"
  have S: "streams disk_content (\<lambda>i. i) (\<lambda>_. ([1, 2, 3, 4], 4)) ?s"
    by (auto simp: streams_def in_use_def stream_ok_def two_files_def example_iob_def example_fd_def get_file_descriptor_def fd_ok_def
        plain_fd_def disk_content_def buffer_ok_def view_def overlay_def)
  have A: "file_write (slice (ram ?s) 4 (2 + 1)) ([1, 2, 3, 4], 4) = ([1, 2, 3, 4, 97, 98, 99], 7)"
    by (simp add: two_files_def slice_def file_write_def overlay_def)
  show ?thesis
    using fwrite_full_buffer [OF ram_disk_files S, of 0 2 4] unfolding A
    by (simp add: two_files_def in_use_def example_iob_def example_fd_def region_def)
qed


section \<open>fwrite on data read ahead\<close>

lemma hook_set_iob:
  assumes S: "streams content F A s" and u: "in_use s i" and d: "iob_Descriptor file = iob_Descriptor (iob_table s ! i)"
  shows "iob_hook_entry D i fam (set_iob i file s) = fd_hook_entry D (F i) fam (set_iob i file s)"
proof -
  have g: "get_file_descriptor True (iob_Descriptor (iob_table s ! i)) s = Some (F i)" using S u by (simp add: streams_def stream_ok_def)
  then have "\<not> (iob_Descriptor (iob_table s ! i) < 0 \<or> int (length (fd_table s)) \<le> iob_Descriptor (iob_table s ! i))"
    unfolding get_file_descriptor_def by (rule contrapos_pn) simp
  then have "at_int (fd_table (set_iob i file s)) (iob_Descriptor file) = Some (fd_table s ! nat (iob_Descriptor file))"
    using d by (simp add: at_int_def at_def nat_less_iff set_iob_def)
  moreover have "at (iob_table (set_iob i file s)) i = Some file" using in_use_less [OF u] by (simp add: at_def set_iob_def)
  moreover have "get_file_descriptor True (iob_Descriptor file) (set_iob i file s) = Some (F i)" using g d by simp
  ultimately show ?thesis unfolding iob_hook_entry_def by simp
qed

text \<open>C7.
  fwrite does not look at data read ahead. When the buffer holds unread bytes, the data it writes lands that many bytes behind
  the position of the stream, even with a call of fseek between the reading and the writing, which leaves the buffer as it is.
\<close>
theorem fwrite_after_read:
  assumes D: "dos_files D content" and S: "streams content F A s" and u: "in_use s i" and w: "IOBF_WRITE \<in> iob_Flags (iob_table s ! i)"
    and md: "iob_Mode (iob_table s ! i) = IOBF_BUFFER_MODE_FULL" and e: "iob_BufferWriteBytes (iob_table s ! i) = 0"
    and a: "A i = (c, q)" and n: "0 < n" "n < iob_BufferSize (iob_table s ! i)" "n < 2 ^ 32" and p: "region (ram s) p n"
  shows "\<exists>s1 s2 s3 r. fseek D (Some i) 0 SEEK_CUR s = Some (0, s1) \<and> fwrite D p 1 n (Some i) s1 = Some (n, s2) \<and>
    fflush D (Some i) s2 = Some (0, s3) \<and>
    content (dos_state s3) (fd_File (fd_table s3 ! F i)) = Some (overlay c (q + unread i s) (slice (ram s) p n), r)"
proof -
  let ?file = "iob_table s ! i"
  obtain c' q' where f: "fd_ok content s (F i) c' q'" and b: "buffer_ok ?file c' q'" and a': "A i = view ?file c' q'"
    and i: "i < length (iob_table s)" "IOBF_IN_USE \<in> iob_Flags ?file" by (rule streamsD [OF S u])
  have q: "q' \<le> length c'" using dos_filesD(1) [OF D fd_okD(4) [OF f]] .
  have "iob_BufferReadBytes ?file \<le> q'" using b by (simp add: buffer_ok_def)
  then have "unread i s \<le> q'" by simp
  then have v: "c' = c" "q' = q + unread i s" using a a' buffer_unread(1) [OF b q e] by auto
  define file1 where "file1 = ?file\<lparr>iob_Flags := iob_Flags ?file - {IOBF_EOF_REACHED}\<rparr>"
  define xs where "xs = slice (ram s) p n"
  define file2 where "file2 = file1\<lparr>iob_Buffer := xs @ drop n (iob_Buffer file1), iob_BufferWriteBytes := n\<rparr>"
  have 1: "fseek D (Some i) 0 SEEK_CUR s = Some (0, set_iob i file1 s)" using i by (simp add: fseek_def at_def file1_def)
  have xs: "length xs = n" unfolding xs_def by (rule length_slice [OF p])
  have bl: "length (iob_Buffer ?file) = iob_BufferSize ?file" using b by (simp add: buffer_ok_def)
  have "write_block D i False p n (set_iob i file1 s) = Some (Finished, n, set_iob i file2 s)"
    using i n p bl xs e
    by (simp add: write_block_def at_def set_iob_def load_bytes_def buffer_append_def xs_def [symmetric] file1_def file2_def iob_write_buffer_is_full_def)
  then have "fwrite_full_loop D i p n 0 (set_iob i file1 s) = Some (Some n, set_iob i file2 s)"
    using n e i by (subst fwrite_full_loop.simps) (simp add: at_def set_iob_def file1_def)
  moreover have "p \<noteq> NULL" using p n by (auto simp: region_def)
  ultimately have 2: "fwrite D p 1 n (Some i) (set_iob i file1 s) = Some (n, set_iob i file2 s)"
    using i w md n by (simp add: fwrite_def at_def set_iob_def effective_mode_def file1_def)
  have f2: "fd_ok content (set_iob i file2 s) (F i) c q'" using f v(1) by (simp add: fd_ok_def set_iob_def)
  obtain s3 where h: "fd_hook_entry D (F i) (Action_write xs) (set_iob i file2 s) = Some (int (length xs), [], OK, s3)"
    and m: "moved content (F i) (overlay c q' xs) (q' + length xs) (set_iob i file2 s) s3" by (rule hook_write_ok [OF D f2])
  have hook: "iob_hook_entry D i (Action_write xs) (set_iob i file2 s) = Some (int (length xs), [], OK, s3)"
    using hook_set_iob [OF S u, of file2] h by (simp add: file1_def file2_def)
  define s4 where "s4 = set_iob i (file2\<lparr>iob_BufferWriteBytes := 0\<rparr>) s3"
  have "flush_iob_write_buffer D i (set_iob i file2 s) = Some (OK, s4)"
    using hook i n xs by (simp add: flush_iob_write_buffer_def at_def set_iob_def file2_def file1_def s4_def)
  then have 3: "fflush D (Some i) (set_iob i file2 s) = Some (0, s4)"
    using i n by (simp add: fflush_def at_def set_iob_def iob_write_buffer_is_valid_def file2_def)
  have "content (dos_state s4) (fd_File (fd_table s4 ! F i)) = Some (overlay c (q + unread i s) (slice (ram s) p n), q' + length xs)"
    using fd_okD(4) [OF fd_ok_moved [OF f2 m]] by (simp add: s4_def set_iob_def v(2) xs_def)
  then show ?thesis using 1 2 3 by blast
qed

theorem fwrite_after_read_witness:
  "\<exists>s1 s2 s3 r. fseek ram_disk (Some 0) 0 SEEK_CUR
      ((two_files [0, 0, 0, 0, 88, 0, 0, 0] [] [])\<lparr>iob_table := [(example_iob 0)\<lparr>iob_Buffer := [1, 2, 3, 4], iob_BufferReadBytes := 4,
         iob_BufferPosition := 1\<rparr>], dos_state := [1 \<mapsto> ([1, 2, 3, 4, 5, 6], 4)]\<rparr>) = Some (0, s1) \<and>
    fwrite ram_disk 4 1 1 (Some 0) s1 = Some (1, s2) \<and> fflush ram_disk (Some 0) s2 = Some (0, s3) \<and>
    disk_content (dos_state s3) (fd_File (fd_table s3 ! 0)) = Some ([1, 2, 3, 4, 88, 6], r)"
proof -
  let ?s = "(two_files [0, 0, 0, 0, 88, 0, 0, 0] [] [])\<lparr>iob_table := [(example_iob 0)\<lparr>iob_Buffer := [1, 2, 3, 4], iob_BufferReadBytes := 4,
         iob_BufferPosition := 1\<rparr>], dos_state := [1 \<mapsto> ([1, 2, 3, 4, 5, 6], 4)]\<rparr>"
  have S: "streams disk_content (\<lambda>i. i) (\<lambda>_. ([1, 2, 3, 4, 5, 6], 1)) ?s"
    by (auto simp: streams_def in_use_def stream_ok_def two_files_def example_iob_def example_fd_def get_file_descriptor_def fd_ok_def
        plain_fd_def disk_content_def buffer_ok_def view_def overlay_def)
  have A: "overlay [1, 2, 3, 4, 5, 6] (1 + unread 0 ?s) (slice (ram ?s) 4 1) = [1, 2, 3, 4, 88, 6]"
    by (simp add: two_files_def slice_def overlay_def)
  show ?thesis
    using fwrite_after_read [OF ram_disk_files S, of 0 "[1, 2, 3, 4, 5, 6]" 1 1 4] unfolding A
    by (simp add: two_files_def in_use_def example_iob_def example_fd_def region_def)
qed


section \<open>A flush that fails\<close>

text \<open>C4.
  When DOS refuses the write of a flush, fflush returns EOF, sets errno to the code for the error DOS reports and marks the
  stream; the buffer keeps its bytes, so that the next flush writes them, and nothing else changes.
\<close>
theorem fflush_write_error:
  assumes S: "streams content F A s" and u: "in_use s i" and w: "0 < iob_BufferWriteBytes (iob_table s ! i)"
    and bad: "dos_Write D (fd_File (fd_table s ! F i)) (take (iob_BufferWriteBytes (iob_table s ! i)) (iob_Buffer (iob_table s ! i))) (dos_state s) = (-1, d)"
  shows "fflush D (Some i) s = Some (EOF, s\<lparr>errno := translate_io_error_to_errno (dos_IoErr D d), dos_state := d,
      iob_table := (iob_table s)[i := (iob_table s ! i)\<lparr>iob_Flags := insert IOBF_ERROR (iob_Flags (iob_table s ! i))\<rparr>]\<rparr>)"
proof -
  obtain c p where f: "fd_ok content s (F i) c p" and i: "i < length (iob_table s)" "IOBF_IN_USE \<in> iob_Flags (iob_table s ! i)"
    and hook: "\<forall>D fam. iob_hook_entry D i fam s = fd_hook_entry D (F i) fam s" by (rule streamsD [OF S u])
  note fd = plain_fdD [OF fd_okD(3) [OF f]]
  let ?xs = "take (iob_BufferWriteBytes (iob_table s ! i)) (iob_Buffer (iob_table s ! i))"
  have "fd_hook_write D (F i) (fd_File (fd_table s ! F i)) ?xs s =
      Some (EOF, [], translate_io_error_to_errno (dos_IoErr D d), s\<lparr>dos_state := d\<rparr>)"
    using bad fd fd_okD(1) [OF f] by (simp add: fd_hook_write_def set_fd_def)
  then have "iob_hook_entry D i (Action_write ?xs) s = Some (EOF, [], translate_io_error_to_errno (dos_IoErr D d), s\<lparr>dos_state := d\<rparr>)"
    using hook fd(2) fd_okD(1) [OF f] by (simp add: fd_hook_entry_def fd(8))
  then show ?thesis
    using i w in_use_at [OF u]
    by (simp add: fflush_def flush_iob_write_buffer_def iob_write_buffer_is_valid_def set_iob_flag_def set_iob_def)
qed

theorem fflush_write_error_witness:
  "fflush (ram_disk\<lparr>dos_Write := \<lambda>h xs d. (-1, d), dos_IoErr := \<lambda>d. ERROR_DISK_FULL\<rparr>) (Some 0)
      ((two_files [] [] [])\<lparr>iob_table := [(example_iob 0)\<lparr>iob_Buffer := [1, 2, 3, 4], iob_BufferWriteBytes := 3\<rparr>]\<rparr>) =
    Some (EOF, (two_files [] [] [])\<lparr>errno := ENOSPC, iob_table := [(example_iob 0)\<lparr>iob_Buffer := [1, 2, 3, 4], iob_BufferWriteBytes := 3,
      iob_Flags := {IOBF_ERROR, IOBF_IN_USE, IOBF_READ, IOBF_WRITE}\<rparr>]\<rparr>)"
proof -
  let ?s = "(two_files [] [] [])\<lparr>iob_table := [(example_iob 0)\<lparr>iob_Buffer := [1, 2, 3, 4], iob_BufferWriteBytes := 3\<rparr>]\<rparr>"
  have S: "streams disk_content (\<lambda>i. i) (\<lambda>_. ([1, 2, 3], 3)) ?s"
    by (auto simp: streams_def in_use_def stream_ok_def two_files_def example_iob_def example_fd_def get_file_descriptor_def fd_ok_def
        plain_fd_def disk_content_def buffer_ok_def view_def overlay_def)
  show ?thesis
    using fflush_write_error [OF S, of 0 "ram_disk\<lparr>dos_Write := \<lambda>h xs d. (-1, d), dos_IoErr := \<lambda>d. ERROR_DISK_FULL\<rparr>" "dos_state ?s"]
    by (simp add: two_files_def in_use_def example_iob_def translate_io_error_to_errno_def io_error_table_def)
qed



section \<open>Pushing back\<close>

lemma buffer_next_position: "buffer_next i s = Some (b, s') \<Longrightarrow> 0 < iob_BufferPosition (iob_table s' ! i)"
  by (auto simp: buffer_next_def set_iob_def at_def split: if_splits bind_splits)

lemma fgetc_raw_position: "fgetc_raw D i s = Some (v, s') \<Longrightarrow> v \<noteq> EOF \<Longrightarrow> 0 < iob_BufferPosition (iob_table s' ! i)"
  by (auto simp: fgetc_raw_def bind_Some_eq dest: buffer_next_position split: if_splits)

lemma fgetc_position: "fgetc D (Some i) s = Some (v, s') \<Longrightarrow> v \<noteq> EOF \<Longrightarrow> 0 < iob_BufferPosition (iob_table s' ! i)"
  by (auto simp: fgetc_def getc_def bind_Some_eq dest: buffer_next_position fgetc_raw_position split: if_splits)

text \<open>C5.
  ungetc undoes fgetc: after a character is read and pushed back, the stream represents the file at the position before.
\<close>
theorem fgetc_ungetc:
  assumes D: "dos_files D content" and S: "streams content F A s" and u: "in_use s i" and r: "IOBF_READ \<in> iob_Flags (iob_table s ! i)"
    and x: "file_rest (A i) = x # ys"
  shows "\<exists>s1 s2. fgetc D (Some i) s = Some (uint x, s1) \<and> ungetc D (uint x) (Some i) s1 = Some (uint x, s2) \<and> streams content F A s2"
proof -
  have g: "file_get (A i) = (uint x, fst (A i), snd (A i) + 1)" by (simp add: file_get_def x)
  let ?A = "A(i := (fst (A i), snd (A i) + 1))"
  obtain s1 where s1: "fgetc D (Some i) s = Some (uint x, s1)" "streams content F ?A s1" "steady s s1" "iob_BufferWriteBytes (iob_table s1 ! i) = 0"
    using fgetc_ok [OF D S u r] unfolding g fst_conv snd_conv by blast
  have ne: "uint x \<noteq> EOF" using uint_ge_0 [of x] by linarith
  have pos: "0 < iob_BufferPosition (iob_table s1 ! i)" by (rule fgetc_position [OF s1(1) ne])
  have u1: "in_use s1 i" using steady_in_use [OF s1(3)] u by simp
  have r1: "IOBF_READ \<in> iob_Flags (iob_table s1 ! i)" using steady_flag [OF s1(3) in_use_less [OF u], of IOBF_READ] r by simp
  let ?file = "iob_table s1 ! i"
  obtain c p where f: "fd_ok content s1 (F i) c p" and b: "buffer_ok ?file c p" and a: "?A i = view ?file c p"
    and i: "i < length (iob_table s1)" "IOBF_IN_USE \<in> iob_Flags ?file" by (rule streamsD [OF s1(2) u1])
  have p: "p \<le> length c" using dos_filesD(1) [OF D fd_okD(4) [OF f]] .
  define k where "k = iob_BufferPosition ?file - 1"
  have bb: "k < iob_BufferReadBytes ?file" "iob_BufferReadBytes ?file \<le> p" "iob_BufferReadBytes ?file \<le> length (iob_Buffer ?file)"
    "take (iob_BufferReadBytes ?file) (iob_Buffer ?file) = take (iob_BufferReadBytes ?file) (drop (p - iob_BufferReadBytes ?file) c)"
    using b pos by (auto simp: buffer_ok_def k_def)
  have cA: "fst (A i) = c" "snd (A i) = p - (iob_BufferReadBytes ?file - k)"
    using a buffer_unread(1) [OF b p s1(4)] bb(1,2) pos by (auto simp: k_def)
  have "iob_Buffer ?file ! k = take (iob_BufferReadBytes ?file) (iob_Buffer ?file) ! k" using bb(1) by simp
  also have "\<dots> = c ! snd (A i)" unfolding bb(4) using bb(1,2) p by (simp add: cA(2))
  also have "\<dots> = x" using x p unfolding file_rest_def cA(1) by (metis nth_via_drop)
  finally have same: "(iob_Buffer ?file)[k := x] = iob_Buffer ?file" by (metis list_update_id)
  define new where "new = ?file\<lparr>iob_Flags := iob_Flags ?file - {IOBF_EOF_REACHED}, iob_BufferPosition := k\<rparr>"
  have ok: "buffer_ok new c p" using b by (auto simp: buffer_ok_def new_def k_def)
  have "streams content F (?A(i := view new c p)) (set_iob i new s1)"
    by (rule streams_update [OF s1(2) u1 moved_refl [OF f] _ _ ok]) (use i in \<open>simp_all add: new_def\<close>)
  moreover have "?A(i := view new c p) = A"
    using buffer_unread(1) [OF ok p] s1(4) cA by (simp add: new_def fun_upd_idem prod_eq_iff)
  moreover have "uint x mod 256 = uint x" using uint_lt2p [of x] by simp
  then have "ungetc D (uint x) (Some i) s1 = Some (uint x, set_iob i new s1)"
    using i r1 ne s1(4) pos same by (simp add: ungetc_def at_def iob_write_buffer_is_valid_def new_def k_def)
  ultimately show ?thesis using s1(1) by metis
qed

theorem fgetc_ungetc_witness:
  "\<exists>s1 s2. fgetc ram_disk (Some 0) (two_files [] [104, 105] []) = Some (uint (104 :: byte), s1) \<and>
    ungetc ram_disk (uint (104 :: byte)) (Some 0) s1 = Some (uint (104 :: byte), s2) \<and>
    streams disk_content (\<lambda>i. i) (\<lambda>i. if i = 0 then ([104, 105], 0) else ([], 0)) s2"
  by (rule fgetc_ungetc [OF ram_disk_files two_files_streams, where ys = "[105]"])
    (simp_all add: two_files_def in_use_def example_iob_def file_rest_def)

end
