(* ===== verification/Spec2Isabelle.thy ===== *)
theory Spec2Isabelle
  imports StrTok Conv Calendar SearchTree HashTable ArraySearch SwapBytes WmemList StdioCases
begin

text \<open>
  Verification of clib4, a C runtime library for AmigaOS 4 on PowerPC (\<^verbatim>\<open>src/library\<close>).

  \<^bold>\<open>The program.\<close> The library implements the C standard library and parts of POSIX. This development covers
  the parts that compute on memory and numbers: string and memory routines (\<^verbatim>\<open>string/\<close>), character classes
  (\<^verbatim>\<open>ctype/\<close>), number conversion (\<^verbatim>\<open>stdlib/\<close>, \<^verbatim>\<open>inttypes/\<close>) and the calendar (\<^verbatim>\<open>time/\<close>). The string routines
  call each other (\<open>strtok_r\<close> uses \<open>strspn\<close> and \<open>strcspn\<close>, which use \<open>strchr\<close>; \<open>strncat\<close> and \<open>strcasestr\<close> use \<open>strlen\<close>
  and \<open>toupper\<close>), and so do the theories.

  \<^bold>\<open>The machine.\<close> \<open>CMem\<close> models memory as a list of bytes indexed by address; address 0 is NULL and the first word
  is never mapped. Loads and stores outside the list are faults: operations return an option, and \<open>None\<close> is the fault.
  The record \<open>clib\<close> holds memory and \<open>errno\<close>. The target is 32-bit big endian: \<open>load32\<close> and \<open>store32\<close> read and write
  words by \<open>be32\<close>, and word arithmetic is at width 32. A theorem that a call returns a value also shows that it does
  not fault, hence that it stays inside the memory its hypotheses give it. \<open>cstr m a xs\<close> says that the string \<open>xs\<close>
  with its terminator lies at \<open>a\<close>; \<open>region\<close> that bytes are mapped; \<open>put\<close> is the memory after writing bytes.

  \<^bold>\<open>Theories.\<close>
  \<^item> \<open>Prelude\<close>: C division, table reads, lemmas on lists and words. \<open>CMem\<close>: memory. \<open>ByteWord\<close>: the bit tricks that
    find a zero byte in a word, each shown to be the test on the four bytes.
  \<^item> \<open>StrScan\<close> (\<^verbatim>\<open>strlen.c\<close>, \<^verbatim>\<open>strchr.c\<close>) and \<open>StrFind\<close> (\<^verbatim>\<open>strchrnul.c\<close>, \<^verbatim>\<open>memchr.c\<close>, \<^verbatim>\<open>strrchr.c\<close>, \<^verbatim>\<open>strspn.c\<close>,
    \<^verbatim>\<open>strcspn.c\<close>, \<^verbatim>\<open>strpbrk.c\<close>, ...): the scanners, word at a time and byte at a time, equal the search on the list.
    The locale \<open>strchr_spec\<close> is the contract of \<open>strchr\<close> (an assembly routine in the default build); it is interpreted
    on the C version \<open>glibc_strchr\<close>.
  \<^item> \<open>StrCopy\<close> (\<^verbatim>\<open>strncpy.c\<close>, \<^verbatim>\<open>strncat.c\<close>, \<^verbatim>\<open>strlcpy.c\<close>, \<^verbatim>\<open>strlcat.c\<close>, \<^verbatim>\<open>stccpy.c\<close>) and \<open>WordCopy\<close> (\<^verbatim>\<open>mempcpy.c\<close>,
    \<^verbatim>\<open>memccpy.c\<close>, \<^verbatim>\<open>stpcpy.c\<close>, \<^verbatim>\<open>stpncpy.c\<close>, \<^verbatim>\<open>memcpy.c\<close>, ...): the memory after each copy, byte by byte. The locale
    \<open>copy_spec\<close> is the contract of the operating system's \<open>CopyMem\<close>, interpreted on \<open>mempcpy\<close>.
  \<^item> \<open>StrCmp\<close> (\<^verbatim>\<open>memcmp.c\<close>, \<^verbatim>\<open>strcmp.c\<close>, \<^verbatim>\<open>strncmp.c\<close>, \<^verbatim>\<open>strverscmp.c\<close>, ...): comparison as the order of byte lists.
  \<^item> \<open>StrTok\<close> (\<^verbatim>\<open>strstr.c\<close>, \<^verbatim>\<open>strcasestr.c\<close>, \<^verbatim>\<open>strtok_r.c\<close>, \<^verbatim>\<open>strsep.c\<close>): substring search is leftmost; a series of
    \<open>strtok_r\<close> calls delivers the tokens of the string. The series is run with one call more than the string has
    characters, which is enough because each call consumes a character.
  \<^item> \<open>Ctype\<close>: the character classes, with the locale library as an optional argument.
  \<^item> \<open>Conv\<close>: \<open>strtol\<close> and its five variants over one text with the width as an argument, \<open>lltoa\<close>, \<open>a64l\<close>, \<open>l64a\<close>.
  \<^item> \<open>Calendar\<close> (\<^verbatim>\<open>convert_time.c\<close>, \<^verbatim>\<open>timegm.c\<close>, \<^verbatim>\<open>days_per_date.c\<close>, \<^verbatim>\<open>weekday.c\<close>): seconds, dates and weekdays.

  \<^bold>\<open>Loops.\<close> Every loop is a total function: memory is finite, so a scan ends at the terminator or with a fault.

  \<^bold>\<open>Not modelled.\<close> Input and output (\<^verbatim>\<open>stdio\<close>, \<^verbatim>\<open>unistd\<close>, \<^verbatim>\<open>fcntl\<close>, \<^verbatim>\<open>dirent\<close>, \<^verbatim>\<open>socket\<close>), processes, threads and
  signals, which act through operating-system calls; \<^verbatim>\<open>math\<close> and \<^verbatim>\<open>complex\<close>, floating point; \<^verbatim>\<open>cpu\<close>, assembly;
  \<^verbatim>\<open>iconv\<close>, \<^verbatim>\<open>locale\<close> and \<^verbatim>\<open>wchar\<close>, which depend on tables and the locale library; \<^verbatim>\<open>termcap\<close> and \<^verbatim>\<open>regex\<close>.
\<close>

end
